(* ===== verification/Prelude.thy ===== *)
theory Prelude
  imports Main "HOL-Library.Word" "HOL-Library.Monad_Syntax"
begin

text \<open>
  Shared vocabulary of the development: the machine types of the program, the checked
  signed arithmetic, the collections of simplification rules that the components fill, and
  generic lemmas on lists and words that belong to no component.

  A result of type \<open>'a option\<close> is used for code whose C++ execution may have no defined
  result: \<open>None\<close> is undefined behaviour (a read outside the storage, a division by zero, a
  signed overflow) or a loop that does not return. Failures the code reports itself
  (\<open>false\<close>, \<open>nullptr\<close>, \<open>-1\<close>) are ordinary values of the result.
\<close>

unbundle bit_operations_syntax

section \<open>Machine types\<close>

type_synonym u8 = "8 word"
type_synonym u16 = "16 word"
type_synonym u32 = "32 word"
type_synonym u64 = "64 word"

text \<open>Signed types carry the same bits and are read with \<open>sint\<close>.\<close>

type_synonym i32 = "32 word"
type_synonym i64 = "64 word"

named_theorems op_defs \<open>definitions of the operations of the components\<close>
named_theorems ring_simps \<open>reading the links of a circular list after an update\<close>
named_theorems frame_simps \<open>fields that an operation leaves alone\<close>

section \<open>Signed arithmetic with undefined overflow\<close>

text \<open>
  A \<open>long\<close> (\<open>int64_t\<close>) computation: the mathematical value if it fits in 64 bits, undefined
  otherwise.
\<close>

definition long_range :: "int \<Rightarrow> bool" where
  "long_range x \<longleftrightarrow> - (2 ^ 63) \<le> x \<and> x < 2 ^ 63"

definition chk_long :: "int \<Rightarrow> int option" where
  "chk_long x = (if long_range x then Some x else None)"

lemma chk_long_Some [simp]: "long_range x \<Longrightarrow> chk_long x = Some x"
  by (simp add: chk_long_def)

lemma chk_long_eq_Some_iff: "chk_long x = Some y \<longleftrightarrow> x = y \<and> long_range x"
  by (auto simp: chk_long_def)

text \<open>C++ integer division truncates towards zero.\<close>

definition c_div :: "int \<Rightarrow> int \<Rightarrow> int" where
  "c_div a b = (let q = \<bar>a\<bar> div \<bar>b\<bar> in if (a < 0) = (b < 0) then q else - q)"

lemma c_div_nonneg: "0 \<le> a \<Longrightarrow> 0 < b \<Longrightarrow> c_div a b = a div b"
  by (simp add: c_div_def)

lemma c_div_neg: "a < 0 \<Longrightarrow> 0 < b \<Longrightarrow> c_div a b = - ((- a) div b)"
  by (simp add: c_div_def)

section \<open>Lists\<close>

lemma rotate_snoc_drop:
  "n < length xs \<Longrightarrow> rotate n xs = drop n xs @ take n xs"
  by (simp add: rotate_drop_take)

lemma nth_eq_iff_index: "distinct xs \<Longrightarrow> i < length xs \<Longrightarrow> j < length xs \<Longrightarrow>
    xs ! i = xs ! j \<longleftrightarrow> i = j"
  by (rule nth_eq_iff_index_eq)

lemma butlast_append_singleton_Cons [simp]: "butlast (xs @ [a, b]) = xs @ [a]"
  by (simp add: butlast_append)

lemma last_notin_butlast: "distinct xs \<Longrightarrow> xs \<noteq> [] \<Longrightarrow> last xs \<notin> set (butlast xs)"
  by (induction xs rule: rev_induct) auto

lemma distinct_ConsD_last:
  "distinct (x # xs) \<Longrightarrow> xs \<noteq> [] \<Longrightarrow> last xs \<noteq> x"
  by (induction xs rule: rev_induct) auto

lemma add_mod_inj: "i < n \<Longrightarrow> k < n \<Longrightarrow> (s + k) mod n = (s + i) mod n \<longleftrightarrow> k = (i::nat)"
proof -
  assume "i < n" "k < n"
  then have "rotate s [0..<n] ! k = rotate s [0..<n] ! i \<longleftrightarrow> k = i"
    by (subst nth_eq_iff_index_eq) auto
  with \<open>i < n\<close> \<open>k < n\<close> show ?thesis by (simp add: nth_rotate)
qed

lemma rotate_update:
  assumes "k < length l"
  shows "rotate s (l[(s + k) mod length l := v]) = (rotate s l)[k := v]"
proof (rule nth_equalityI)
  fix i assume i: "i < length (rotate s (l[(s + k) mod length l := v]))"
  then have "(s + i) mod length l < length l" by (intro mod_less_divisor) auto
  with i assms show "rotate s (l[(s + k) mod length l := v]) ! i = (rotate s l)[k := v] ! i"
    by (auto simp: nth_rotate nth_list_update add_mod_inj)
qed simp

lemma rotate_Suc_mod: "rotate (Suc s mod length l) l = rotate1 (rotate s l)"
  by (metis rotate_Suc rotate_conv_mod)

lemma in_set_concat_mapI: "x \<in> set xs \<Longrightarrow> y \<in> set (f x) \<Longrightarrow> y \<in> set (concat (map f xs))"
  by auto

text \<open>The last \<open>n\<close> elements of a list.\<close>

definition lastn :: "nat \<Rightarrow> 'a list \<Rightarrow> 'a list" where
  "lastn n xs = drop (length xs - n) xs"

lemma length_lastn [simp]: "length (lastn n xs) = min n (length xs)"
  by (simp add: lastn_def)

lemma lastn_all [simp]: "length xs \<le> n \<Longrightarrow> lastn n xs = xs"
  by (simp add: lastn_def)

lemma lastn_snoc: "0 < n \<Longrightarrow> lastn n (xs @ [x]) = lastn (n - 1) xs @ [x]"
  by (simp add: lastn_def)

lemma lastn_lastn_append: "lastn n (lastn n xs @ ys) = lastn n (xs @ ys)"
proof (cases "length xs \<le> n")
  case False
  then show ?thesis by (cases "length ys \<le> n") (simp_all add: lastn_def add.commute)
qed simp

lemma nth_lastn: "i < length (lastn n xs) \<Longrightarrow> lastn n xs ! i = xs ! (length xs - min n (length xs) + i)"
  by (auto simp: lastn_def min_def)

text \<open>
  Successive values written round a ring of \<open>n\<close> places; the latest \<open>n\<close> values can be read back.
\<close>

definition ring_write :: "nat \<Rightarrow> 'a list \<Rightarrow> 'a list \<Rightarrow> 'a list" where
  "ring_write n a vs = fst (foldl (\<lambda>(a, k) v. (a[k mod n := v], Suc k)) (a, 0) vs)"

lemma ring_write_Nil [simp]: "ring_write n a [] = a"
  by (simp add: ring_write_def)

lemma ring_write_snoc [simp]:
  "ring_write n a (vs @ [v]) = (ring_write n a vs)[length vs mod n := v]"
proof -
  have "snd (foldl (\<lambda>(a, k) v. (a[k mod n := v], Suc k)) (a, 0) vs) = length vs"
    by (induction vs rule: rev_induct) (auto simp: case_prod_unfold)
  then show ?thesis by (simp add: ring_write_def case_prod_unfold)
qed

lemma length_ring_write [simp]: "length (ring_write n a vs) = length a"
  by (induction vs rule: rev_induct) simp_all

lemma ring_write_nth:
  "length a = n \<Longrightarrow> 0 < n \<Longrightarrow> j < length vs \<Longrightarrow> length vs \<le> j + n \<Longrightarrow>
   ring_write n a vs ! (j mod n) = vs ! j"
proof (induction vs rule: rev_induct)
  case (snoc v vs)
  show ?case
  proof (cases "j = length vs")
    case False
    have "j < length vs" "length vs - j < n" using snoc.prems False by auto
    then have "j mod n \<noteq> length vs mod n"
      using add_mod_inj [of 0 n "length vs - j" j] snoc.prems(2) by auto
    then show ?thesis using snoc False by (simp add: nth_append)
  qed (use snoc.prems in \<open>simp add: nth_append\<close>)
qed simp

lemma ring_write_lastn:
  assumes "length a = n" and "0 < n" and "n \<le> length vs"
  shows "map (\<lambda>i. ring_write n a vs ! ((i + length vs) mod n)) [0..<n] = lastn n vs"
proof (rule nth_equalityI)
  fix i assume i: "i < length (map (\<lambda>i. ring_write n a vs ! ((i + length vs) mod n)) [0..<n])"
  have "i + length vs = (length vs - n + i) + n" using assms(3) by simp
  then have "(i + length vs) mod n = (length vs - n + i) mod n" by (simp only: mod_add_self2)
  with i assms show "map (\<lambda>i. ring_write n a vs ! ((i + length vs) mod n)) [0..<n] ! i = lastn n vs ! i"
    by (simp add: ring_write_nth nth_lastn)
qed (use assms in simp)

section \<open>Sequencing partial steps\<close>

text \<open>Run a step for each element in turn; the run is undefined as soon as one step is.\<close>

fun foldM :: "('a \<Rightarrow> 's \<Rightarrow> 's option) \<Rightarrow> 'a list \<Rightarrow> 's \<Rightarrow> 's option" where
  "foldM f [] s = Some s"
| "foldM f (x # xs) s = do { s' \<leftarrow> f x s; foldM f xs s' }"

lemma foldM_append: "foldM f (xs @ ys) s = do { s' \<leftarrow> foldM f xs s; foldM f ys s' }"
  by (induction xs arbitrary: s) (auto split: Option.bind_splits)

lemma foldM_concat: "foldM (\<lambda>x. foldM f (g x)) xs s = foldM f (concat (map g xs)) s"
  by (induction xs arbitrary: s) (auto simp: foldM_append split: Option.bind_splits)

lemma foldM_map: "foldM f (map g xs) s = foldM (\<lambda>x. f (g x)) xs s"
  by (induction xs arbitrary: s) (auto split: Option.bind_splits)

section \<open>Numbers as text\<close>

text \<open>The digits of a number in base \<open>b\<close>, the digit \<open>k\<close> printed as \<open>d k\<close>.\<close>

fun digits :: "nat \<Rightarrow> (nat \<Rightarrow> char) \<Rightarrow> nat \<Rightarrow> string" where
  "digits b d n = (if n < b \<or> b < 2 then [d n] else digits b d (n div b) @ [d (n mod b)])"

declare digits.simps [simp del]

lemma digits_not_Nil [simp]: "digits b d n \<noteq> []" "[] \<noteq> digits b d n"
  by (subst digits.simps, simp)+

lemma digits_inject:
  assumes "2 \<le> b" and "inj_on d {..<b}"
  shows "digits b d m = digits b d n \<longleftrightarrow> m = n"
proof
  show "digits b d m = digits b d n \<Longrightarrow> m = n"
  proof (induction m arbitrary: n rule: less_induct)
    case (less m)
    have eq: "digits b d k = (if k < b then [d k] else digits b d (k div b) @ [d (k mod b)])" for k
      using assms(1) by (subst digits.simps) simp
    have d: "x < b \<Longrightarrow> y < b \<Longrightarrow> d x = d y \<Longrightarrow> x = y" for x y
      using assms(2) by (auto simp: inj_on_def)
    show ?case
    proof (cases "m < b \<or> n < b")
      case True
      then have "m < b \<and> n < b" using less.prems eq [of m] eq [of n] by (auto split: if_splits)
      then show ?thesis using less.prems eq [of m] eq [of n] d by auto
    next
      case False
      then have "digits b d (m div b) = digits b d (n div b)" "d (m mod b) = d (n mod b)"
        using less.prems eq [of m] eq [of n] by auto
      moreover have "m div b < m" using False assms(1) by (intro div_less_dividend) auto
      ultimately have "m div b = n div b" "m mod b = n mod b"
        using less.IH d assms(1) by simp_all
      then show ?thesis by (metis div_mult_mod_eq)
    qed
  qed
qed simp

lemma set_digits: "2 \<le> b \<Longrightarrow> set (digits b d n) \<subseteq> d ` {..<b}"
proof (induction n rule: less_induct)
  case (less n)
  show ?case
  proof (cases "n < b")
    case False
    then have "set (digits b d (n div b)) \<subseteq> d ` {..<b}"
      using less by (intro less.IH div_less_dividend) auto
    then show ?thesis using False less.prems by (subst digits.simps) auto
  qed (subst digits.simps, auto)
qed

definition digit_char :: "nat \<Rightarrow> char" where
  "digit_char d = char_of (48 + d)"

definition show_nat :: "nat \<Rightarrow> string" where
  "show_nat n = digits 10 digit_char n"

definition show_int :: "int \<Rightarrow> string" where
  "show_int i = (if i < 0 then ''-'' @ show_nat (nat (- i)) else show_nat (nat i))"

section \<open>Words\<close>

lemma unat_less_of_nat_bound: "x < 2 ^ LENGTH('a) \<Longrightarrow> unat (of_nat x :: 'a :: len word) = x"
  by (simp add: unat_of_nat take_bit_nat_eq_self_iff)

lemma word_and_mask_less: "unat (x AND mask n :: 'a :: len word) < 2 ^ n"
  by (simp flip: take_bit_eq_mask add: unsigned_take_bit_eq)

lemma unat_ucast_u32_u64 [simp]: "unat (ucast (w :: u32) :: u64) = unat w"
  by (simp add: unsigned_ucast_eq take_bit_nat_eq_self_iff)
     (rule order.strict_trans [OF unsigned_less [of w, simplified]], simp)

lemma unat_ucast_u64_u32: "unat (w :: u64) < 2 ^ 32 \<Longrightarrow> unat (ucast w :: u32) = unat w"
  by (simp add: unsigned_ucast_eq take_bit_nat_eq_self_iff)

lemma unat_u64_bound: "unat (x :: u64) < 2 ^ 64"
  by (rule order.strict_trans2 [OF unsigned_less]) simp

lemma unat_u64_max: "unat (- 1 :: u64) = 2 ^ 64 - 1"
  by (simp add: unsigned_minus_1_eq_mask mask_eq_exp_minus_1)

lemma uint_u64_max: "uint (- 1 :: u64) = 2 ^ 64 - 1"
  by (simp add: unsigned_minus_1_eq_mask mask_eq_exp_minus_1)

lemma sint_i64_bounds: "- (2 ^ 63) \<le> sint (x :: i64)" "sint x < 2 ^ 63"
  using sint_ge [of x] sint_lt [of x] by simp_all

lemma sint_i64_of_int: "- (2 ^ 63) \<le> k \<Longrightarrow> k < 2 ^ 63 \<Longrightarrow> sint (word_of_int k :: i64) = k"
  by (simp add: signed_of_int signed_take_bit_int_eq_self_iff)

lemma less_plus_one_imp_le: "x < n + 1 \<Longrightarrow> x \<le> (n :: 'a :: len word)"
proof (cases "1 + n = 0")
  case False
  then have "unat (n + 1) = Suc (unat n)" using unatSuc [of n] by (simp add: add.commute)
  then show "x < n + 1 \<Longrightarrow> x \<le> n" by (simp add: word_less_nat_alt word_le_nat_alt)
qed (simp add: add.commute)

section \<open>Reversible mixing of words\<close>

text \<open>
  The hash functions and the generators are built from steps that lose nothing: the xor-shifts
  \<open>x ^= x >> k\<close> and \<open>x ^= x << k\<close>, and multiplication by an odd constant. Doing a xor-shift
  twice is the xor-shift by the double distance, which is the identity once the distance
  reaches the width.
\<close>

definition xorshr :: "nat \<Rightarrow> 'a :: len word \<Rightarrow> 'a word" where
  "xorshr k x = x XOR drop_bit k x"

definition xorshl :: "nat \<Rightarrow> 'a :: len word \<Rightarrow> 'a word" where
  "xorshl k x = x XOR push_bit k x"

lemma xorshr_xorshr: "xorshr k (xorshr k x) = xorshr (2 * k) x"
proof -
  have "xorshr k (xorshr k x) = x XOR (drop_bit k x XOR drop_bit k x) XOR drop_bit (k + k) x"
    by (simp only: xorshr_def drop_bit_xor drop_bit_drop_bit xor.assoc)
  then show ?thesis by (simp add: xorshr_def mult_2)
qed

lemma xorshr_commute: "xorshr j (xorshr k x) = xorshr k (xorshr j x)"
  by (simp only: xorshr_def drop_bit_xor drop_bit_drop_bit add.commute [of k j]
      xor.assoc xor.left_commute [of "drop_bit k x"])

lemma xorshl_xorshl: "xorshl k (xorshl k x) = xorshl (2 * k) x"
proof -
  have "xorshl k (xorshl k x) = x XOR (push_bit k x XOR push_bit k x) XOR push_bit (k + k) x"
    by (simp only: xorshl_def push_bit_xor push_bit_push_bit xor.assoc)
  then show ?thesis by (simp add: xorshl_def mult_2)
qed

lemma xorshr_id: "LENGTH('a) \<le> k \<Longrightarrow> xorshr k (x :: 'a :: len word) = x"
  by (simp add: xorshr_def drop_bit_word_beyond)

lemma xorshl_id: "LENGTH('a) \<le> k \<Longrightarrow> xorshl k (x :: 'a :: len word) = x"
  by (simp add: xorshl_def push_bit_word_beyond)

lemma mult_cancel_inverse: "a * b = 1 \<Longrightarrow> a * (b * x) = (x :: 'a :: len word)"
  by (simp flip: mult.assoc)

text \<open>A step with an inverse; what every user of such a step needs is that it is a bijection.\<close>

locale reversible =
  fixes mix :: "'a \<Rightarrow> 'a" and unmix :: "'a \<Rightarrow> 'a"
  assumes unmix_mix: "unmix (mix x) = x" and mix_unmix: "mix (unmix x) = x"
begin

lemma mix_eq_iff: "mix x = mix y \<longleftrightarrow> x = y"
  by (metis unmix_mix)

lemma bij_mix: "bij mix"
  by (rule bij_betw_byWitness [where f' = unmix]) (auto simp: unmix_mix mix_unmix)

lemma mix_image_UNIV: "\<exists>!x. mix x = y"
  by (metis unmix_mix mix_unmix)

end

end
