(* ===== verification/Linked_List.thy ===== *)
theory Linked_List
  imports Prelude
begin

text \<open>
  \<^verbatim>\<open>src/common/linked_list.h\<close>: the intrusive doubly linked circular list. The nodes live in a
  store that maps each address to its two pointers; every operation is the sequence of pointer
  assignments of the code, in the order of the code. \<open>ring s xs\<close> says that the addresses \<open>xs\<close>,
  in this order, form one circular list of the store \<open>s\<close>.
\<close>

section \<open>The store and the operations\<close>

record 'n links =
  prev_ptr :: "'n \<Rightarrow> 'n"
  next_ptr :: "'n \<Rightarrow> 'n"

definition set_next :: "'n \<Rightarrow> 'n \<Rightarrow> 'n links \<Rightarrow> 'n links" where
  "set_next n m s = s\<lparr>next_ptr := (next_ptr s)(n := m)\<rparr>"

definition set_previous :: "'n \<Rightarrow> 'n \<Rightarrow> 'n links \<Rightarrow> 'n links" where
  "set_previous n m s = s\<lparr>prev_ptr := (prev_ptr s)(n := m)\<rparr>"

lemma set_next_simps [simp, ring_simps]:
  "next_ptr (set_next n m s) k = (if k = n then m else next_ptr s k)"
  "prev_ptr (set_next n m s) = prev_ptr s"
  by (simp_all add: set_next_def)

lemma set_previous_simps [simp, ring_simps]:
  "prev_ptr (set_previous n m s) k = (if k = n then m else prev_ptr s k)"
  "next_ptr (set_previous n m s) = next_ptr s"
  by (simp_all add: set_previous_def)

text \<open>The constructor: a node alone in its own circular list.\<close>

definition LinkNode :: "'n \<Rightarrow> 'n links \<Rightarrow> 'n links" where
  "LinkNode this s = set_next this this (set_previous this this s)"

definition insert_before :: "'n \<Rightarrow> 'n \<Rightarrow> 'n links \<Rightarrow> 'n links" where
  "insert_before this e s =
     (let s = set_next this e s;
          s = set_previous this (prev_ptr s e) s;
          s = set_next (prev_ptr s e) this s
      in set_previous e this s)"

definition insert_before_as_list :: "'n \<Rightarrow> 'n \<Rightarrow> 'n links \<Rightarrow> 'n links" where
  "insert_before_as_list this e s =
     (let prev = prev_ptr s this;
          s = set_next prev e s;
          s = set_previous this (prev_ptr s e) s;
          s = set_next (prev_ptr s e) this s
      in set_previous e prev s)"

definition insert_after :: "'n \<Rightarrow> 'n \<Rightarrow> 'n links \<Rightarrow> 'n links" where
  "insert_after this e s =
     (let s = set_next this (next_ptr s e) s;
          s = set_previous this e s;
          s = set_previous (next_ptr s e) this s
      in set_next e this s)"

definition insert_after_as_list :: "'n \<Rightarrow> 'n \<Rightarrow> 'n links \<Rightarrow> 'n links" where
  "insert_after_as_list this e s =
     (let prev = prev_ptr s this;
          s = set_next prev (next_ptr s e) s;
          s = set_previous this e s;
          s = set_previous (next_ptr s e) prev s
      in set_next e this s)"

definition remove_from_list :: "'n \<Rightarrow> 'n links \<Rightarrow> 'n links" where
  "remove_from_list this s =
     (let s = set_next (prev_ptr s this) (next_ptr s this) s;
          s = set_previous (next_ptr s this) (prev_ptr s this) s;
          s = set_next this this s
      in set_previous this this s)"

text \<open>\<open>LinkedList<T>\<close> is its root node; its operations take the address of the root.\<close>

definition Append :: "'n \<Rightarrow> 'n \<Rightarrow> 'n links \<Rightarrow> 'n links" where
  "Append root e s = insert_before e root s"

definition list_head :: "'n \<Rightarrow> 'n links \<Rightarrow> 'n" where
  "list_head root s = next_ptr s root"

definition list_tail :: "'n \<Rightarrow> 'n links \<Rightarrow> 'n" where
  "list_tail root s = prev_ptr s root"

definition list_end :: "'n \<Rightarrow> 'n" where
  "list_end root = root"

definition list_empty :: "'n \<Rightarrow> 'n links \<Rightarrow> bool" where
  "list_empty root s \<longleftrightarrow> list_head root s = list_end root"

lemmas link_op_defs = LinkNode_def insert_before_def insert_before_as_list_def insert_after_def
  insert_after_as_list_def remove_from_list_def Let_def

text \<open>
  The loop every user of the list runs, with \<open>saved_next\<close> read before the body may unlink the
  node: \<^verbatim>\<open>for (p = root.next(); p != &root;) { saved_next = p->next(); body(p); p = saved_next; }\<close>.
  It may not return on a broken list, so it is a partial function.
\<close>

partial_function (option) ring_for ::
  "('s \<Rightarrow> 'n \<Rightarrow> 'n) \<Rightarrow> ('n \<Rightarrow> 's \<Rightarrow> 's) \<Rightarrow> 'n \<Rightarrow> 'n \<Rightarrow> 's \<Rightarrow> 's option" where
  "ring_for nxt body root p s =
     (if p = root then Some s
      else ring_for nxt body root (nxt s p) (body p s))"

text \<open>What the body of the loop never changes is the same after it.\<close>

lemma ring_for_keeps:
  assumes "ring_for nxt body root p s = Some s'" and "\<And>p s. f (body p s) = f s"
  shows "f s' = f s"
proof -
  have "(\<forall>p s. f (body p s) = f s) \<longrightarrow> f s' = f s"
    by (rule ring_for.raw_induct [where P = "\<lambda>nxt body root p s y. (\<forall>p s. f (body p s) = f s) \<longrightarrow> f y = f s",
          OF _ assms(1)]) (auto split: if_splits)
  then show ?thesis using assms(2) by blast
qed

section \<open>Circular lists in the store\<close>

fun seg :: "'n links \<Rightarrow> 'n list \<Rightarrow> bool" where
  "seg s (x # y # zs) \<longleftrightarrow> next_ptr s x = y \<and> prev_ptr s y = x \<and> seg s (y # zs)"
| "seg s _ \<longleftrightarrow> True"

definition ring :: "'n links \<Rightarrow> 'n list \<Rightarrow> bool" where
  "ring s xs \<longleftrightarrow> xs \<noteq> [] \<and> distinct xs \<and> seg s (xs @ [hd xs])"

lemma seg_append: "seg s (xs @ y # ys) \<longleftrightarrow> seg s (xs @ [y]) \<and> seg s (y # ys)"
proof (induction xs)
  case (Cons x xs)
  then show ?case by (cases xs) auto
qed simp

lemma seg_snoc2: "seg s (xs @ [a, b]) \<longleftrightarrow> seg s (xs @ [a]) \<and> next_ptr s a = b \<and> prev_ptr s b = a"
  using seg_append [of s xs a "[b]"] by simp

lemma seg_cong:
  "(\<And>x. x \<in> set (butlast xs) \<Longrightarrow> next_ptr t x = next_ptr s x) \<Longrightarrow>
   (\<And>x. x \<in> set (tl xs) \<Longrightarrow> prev_ptr t x = prev_ptr s x) \<Longrightarrow> seg t xs = seg s xs"
  by (induction s xs rule: seg.induct) auto

text \<open>
  A ring cut open at its first node: a segment whose last node points back to the first.
\<close>

lemma ring_Cons:
  "ring s (x # xs) \<longleftrightarrow> distinct (x # xs) \<and> seg s (x # xs) \<and>
     next_ptr s (last (x # xs)) = x \<and> prev_ptr s x = last (x # xs)"
proof -
  have "seg s ((x # xs) @ [x]) \<longleftrightarrow>
      seg s (x # xs) \<and> next_ptr s (last (x # xs)) = x \<and> prev_ptr s x = last (x # xs)"
    using seg_snoc2 [of s "butlast (x # xs)" "last (x # xs)" x]
      append_butlast_last_id [of "x # xs"]
    by (metis append.assoc append_Cons append_Nil list.distinct(1))
  then show ?thesis by (simp add: ring_def)
qed

lemma ring_distinct: "ring s xs \<Longrightarrow> distinct xs"
  by (simp add: ring_def)

lemma ring_not_Nil: "\<not> ring s []"
  by (simp add: ring_def)

lemma ring_singleton: "ring s [x] \<longleftrightarrow> next_ptr s x = x \<and> prev_ptr s x = x"
  by (auto simp: ring_Cons)

text \<open>Where a ring is cut open does not matter.\<close>

lemma ring_rotate1: "ring s (x # xs) \<Longrightarrow> ring s (xs @ [x])"
proof (cases xs)
  case (Cons y ys)
  assume r: "ring s (x # xs)"
  then have "seg s ((x # y # ys) @ [x])" "distinct (x # y # ys)"
    by (simp_all add: ring_def Cons)
  then have "seg s ((y # ys) @ [x])" "next_ptr s x = y" "prev_ptr s y = x" by auto
  then have "seg s ((y # ys) @ [x, y])" by (simp only: seg_snoc2)
  with \<open>distinct (x # y # ys)\<close> show ?thesis by (auto simp add: ring_def Cons)
qed simp

lemma ring_append_commute: "ring s (xs @ ys) \<Longrightarrow> ring s (ys @ xs)"
proof (induction xs arbitrary: ys)
  case (Cons x xs)
  from Cons.prems have "ring s (xs @ (ys @ [x]))" using ring_rotate1 by fastforce
  then have "ring s ((ys @ [x]) @ xs)" by (rule Cons.IH)
  then show ?case by simp
qed simp

lemma ring_next_last: "ring s (x # xs) \<Longrightarrow> next_ptr s (last (x # xs)) = x"
  by (simp only: ring_Cons)

lemma ring_previous_hd: "ring s (x # xs) \<Longrightarrow> prev_ptr s x = last (x # xs)"
  by (simp only: ring_Cons)

lemma ring_next_hd: "ring s (x # xs) \<Longrightarrow> next_ptr s x = hd (xs @ [x])"
  by (cases xs) (auto simp: ring_Cons)

lemma ring_next_middle: "ring s (xs @ p # zs) \<Longrightarrow> next_ptr s p = hd (zs @ xs @ [p])"
  using ring_append_commute [of s xs "p # zs"] ring_next_hd [of s p "zs @ xs"] by simp

lemma ring_cong:
  "ring s xs \<Longrightarrow> (\<And>x. x \<in> set xs \<Longrightarrow> next_ptr t x = next_ptr s x) \<Longrightarrow>
   (\<And>x. x \<in> set xs \<Longrightarrow> prev_ptr t x = prev_ptr s x) \<Longrightarrow> ring t xs"
  unfolding ring_def by (subst seg_cong [of _ t s]) (auto dest: in_set_butlastD list.set_sel(2))


lemma ring_disjoint_cong:
  "ring s xs \<Longrightarrow> set xs \<inter> A = {} \<Longrightarrow> (\<And>x. x \<notin> A \<Longrightarrow> next_ptr t x = next_ptr s x) \<Longrightarrow>
   (\<And>x. x \<notin> A \<Longrightarrow> prev_ptr t x = prev_ptr s x) \<Longrightarrow> ring t xs"
  by (rule ring_cong [of s xs t]) auto

lemma seg_Cons_append:
  "ys \<noteq> [] \<Longrightarrow> seg s (xs @ ys) \<longleftrightarrow>
     seg s xs \<and> (xs \<noteq> [] \<longrightarrow> next_ptr s (last xs) = hd ys \<and> prev_ptr s (hd ys) = last xs) \<and> seg s ys"
  by (induction s xs rule: seg.induct) (auto simp: neq_Nil_conv)

section \<open>What the operations do to the rings\<close>

lemma LinkNode_ring: "ring (LinkNode n s) [n]"
  by (simp add: LinkNode_def ring_singleton)

lemma LinkNode_frame: "ring s xs \<Longrightarrow> n \<notin> set xs \<Longrightarrow> ring (LinkNode n s) xs"
  by (erule ring_cong) (auto simp: LinkNode_def)

text \<open>
  The two splicing operations. In each, \<open>this\<close> heads a ring and \<open>e\<close> another one.
\<close>

lemma insert_before_as_list_ring:
  assumes a: "ring s (a # xs)" and e: "ring s (e # ys)" and dis: "set (a # xs) \<inter> set (e # ys) = {}"
  shows "ring (insert_before_as_list a e s) (e # ys @ a # xs)"
proof -
  let ?t = "insert_before_as_list a e s"
  have pa: "prev_ptr s a = last (a # xs)" and pe: "prev_ptr s e = last (e # ys)"
    using a e by (simp_all only: ring_Cons)
  have la: "last (a # xs) \<notin> set (e # ys)" and le: "last (e # ys) \<notin> set (a # xs)"
    using dis last_in_set [of "a # xs"] last_in_set [of "e # ys"] by blast+
  have ae: "a \<noteq> e" using dis by auto
  have nexts: "next_ptr ?t k = (if k = last (e # ys) then a else if k = last (a # xs) then e
      else next_ptr s k)" for k
    using pa pe ae la le by (auto simp: link_op_defs)
  have prevs: "prev_ptr ?t k = (if k = e then last (a # xs) else if k = a then last (e # ys)
      else prev_ptr s k)" for k
    using pa pe ae by (auto simp: link_op_defs)
  have "seg ?t (e # ys)"
    using e dis la last_notin_butlast [of "e # ys"]
    by (subst seg_cong [of _ ?t s]) (auto simp: ring_Cons nexts prevs dest: in_set_butlastD split: if_splits)
  moreover have "seg ?t (a # xs)"
    using a dis le last_notin_butlast [of "a # xs"]
    by (subst seg_cong [of _ ?t s]) (auto simp: ring_Cons nexts prevs dest: in_set_butlastD split: if_splits)
  ultimately have "seg ?t ((e # ys) @ (a # xs))"
    by (subst seg_Cons_append) (simp_all add: nexts prevs ae)
  moreover have "distinct ((e # ys) @ (a # xs))"
    using a e dis by (auto dest!: ring_distinct)
  moreover have "next_ptr ?t (last (a # xs)) = e" "prev_ptr ?t e = last (a # xs)"
    using le last_in_set [of "a # xs"] by (auto simp: nexts prevs)
  ultimately show ?thesis by (simp add: ring_Cons)
qed

lemma insert_before_as_list_frame:
  assumes "ring s (a # xs)" and "ring s (e # ys)" and "ring s zs"
    and "set zs \<inter> (set (a # xs) \<union> set (e # ys)) = {}"
  shows "ring (insert_before_as_list a e s) zs"
proof (rule ring_disjoint_cong [OF assms(3,4)])
  have pa: "prev_ptr s a = last (a # xs)" and pe: "prev_ptr s e = last (e # ys)"
    using assms(1,2) by (simp_all only: ring_Cons)
  have in_sets: "last (a # xs) \<in> set (a # xs)" "last (e # ys) \<in> set (e # ys)" by (rule last_in_set, simp)+
  fix k assume k: "k \<notin> set (a # xs) \<union> set (e # ys)"
  show "next_ptr (insert_before_as_list a e s) k = next_ptr s k"
    using k pa pe in_sets by (auto simp: link_op_defs)
  show "prev_ptr (insert_before_as_list a e s) k = prev_ptr s k"
    using k pa pe in_sets by (auto simp: link_op_defs)
qed

text \<open>Inserting one node is splicing its singleton ring, whatever its pointers were.\<close>

lemma insert_before_eq_as_list:
  "n \<noteq> e \<Longrightarrow> prev_ptr s e \<noteq> n \<Longrightarrow>
    insert_before n e s = insert_before_as_list n e (LinkNode n s)"
  by (auto simp: link_op_defs set_next_def set_previous_def fun_eq_iff)

lemma insert_before_ring:
  assumes e: "ring s (e # ys)" and n: "n \<notin> set (e # ys)"
  shows "ring (insert_before n e s) (e # ys @ [n])"
proof -
  have "prev_ptr s e \<noteq> n" "n \<noteq> e"
    using ring_previous_hd [OF e] n last_in_set [of "e # ys"] by auto
  then show ?thesis
    using insert_before_as_list_ring [OF LinkNode_ring LinkNode_frame [OF e n]] n
    by (simp add: insert_before_eq_as_list)
qed

lemma insert_before_frame:
  assumes e: "ring s (e # ys)" and n: "n \<notin> set (e # ys)"
    and z: "ring s zs" "set zs \<inter> set (n # e # ys) = {}"
  shows "ring (insert_before n e s) zs"
proof -
  have "prev_ptr s e \<noteq> n" "n \<noteq> e"
    using ring_previous_hd [OF e] n last_in_set [of "e # ys"] by auto
  then show ?thesis
    using insert_before_as_list_frame [OF LinkNode_ring LinkNode_frame [OF e n] LinkNode_frame [OF z(1)]]
      z(2) by (simp add: insert_before_eq_as_list)
qed

text \<open>
  Inserting after \<open>e\<close> is inserting before its successor.
\<close>

lemma insert_after_as_list_eq:
  "prev_ptr s (next_ptr s e) = e \<Longrightarrow> a \<noteq> e \<Longrightarrow> prev_ptr s a \<noteq> e \<Longrightarrow> a \<noteq> next_ptr s e \<Longrightarrow>
    insert_after_as_list a e s = insert_before_as_list a (next_ptr s e) s"
  by (auto simp: link_op_defs set_next_def set_previous_def fun_eq_iff)

lemma ring_prev_next: "ring s xs \<Longrightarrow> x \<in> set xs \<Longrightarrow> prev_ptr s (next_ptr s x) = x"
proof -
  assume r: "ring s xs" and "x \<in> set xs"
  then obtain ys zs where "xs = ys @ x # zs" by (auto simp: in_set_conv_decomp)
  with r have "ring s (x # zs @ ys)" using ring_append_commute by fastforce
  then show ?thesis by (cases "zs @ ys") (auto simp: ring_Cons)
qed

lemma ring_prev_in: "ring s xs \<Longrightarrow> x \<in> set xs \<Longrightarrow> prev_ptr s x \<in> set xs"
proof -
  assume r: "ring s xs" and "x \<in> set xs"
  then obtain ys zs where xs: "xs = ys @ x # zs" by (auto simp: in_set_conv_decomp)
  with r have "ring s (x # zs @ ys)" using ring_append_commute by fastforce
  then have "prev_ptr s x \<in> set (x # zs @ ys)"
    using ring_previous_hd last_in_set by (metis list.distinct(1))
  then show ?thesis by (auto simp: xs)
qed

lemma ring_next_in: "ring s xs \<Longrightarrow> x \<in> set xs \<Longrightarrow> next_ptr s x \<in> set xs"
proof -
  assume r: "ring s xs" and "x \<in> set xs"
  then obtain ys zs where xs: "xs = ys @ x # zs" by (auto simp: in_set_conv_decomp)
  with r have "next_ptr s x = hd (zs @ ys @ [x])" by (intro ring_next_middle) simp
  then have "next_ptr s x \<in> set (zs @ ys @ [x])" using hd_in_set [of "zs @ ys @ [x]"] by simp
  then show ?thesis by (auto simp: xs)
qed

lemma insert_after_as_list_ring:
  assumes a: "ring s (a # xs)" and e: "ring s (e # ys)" and dis: "set (a # xs) \<inter> set (e # ys) = {}"
  shows "ring (insert_after_as_list a e s) (e # (a # xs) @ ys)"
proof -
  have "prev_ptr s a \<in> set (a # xs)" "next_ptr s e \<in> set (e # ys)"
    by (rule ring_prev_in [OF a], simp) (rule ring_next_in [OF e], simp)
  then have eq: "insert_after_as_list a e s = insert_before_as_list a (next_ptr s e) s"
    using dis ring_prev_next [OF e, of e] by (intro insert_after_as_list_eq) auto
  show ?thesis
  proof (cases ys)
    case Nil
    with e have "next_ptr s e = e" by (simp add: ring_singleton)
    with insert_before_as_list_ring [OF a e dis] show ?thesis by (simp add: eq Nil)
  next
    case (Cons y ys')
    from e have "ring s ((y # ys') @ [e])" unfolding Cons by (rule ring_rotate1)
    then have y: "ring s (y # (ys' @ [e]))" by simp
    have "next_ptr s e = y" using ring_next_hd [OF e] by (simp add: Cons)
    moreover have "ring (insert_before_as_list a y s) (y # (ys' @ [e]) @ a # xs)"
      using dis by (intro insert_before_as_list_ring [OF a y]) (auto simp: Cons)
    ultimately show ?thesis
      using ring_append_commute [of _ "y # ys'" "e # a # xs"] by (simp add: eq Cons)
  qed
qed

lemma insert_after_eq_as_list:
  "n \<noteq> e \<Longrightarrow> next_ptr s e \<noteq> n \<Longrightarrow>
    insert_after n e s = insert_after_as_list n e (LinkNode n s)"
  by (auto simp: link_op_defs set_next_def set_previous_def fun_eq_iff)

lemma insert_after_ring:
  assumes e: "ring s (e # ys)" and n: "n \<notin> set (e # ys)"
  shows "ring (insert_after n e s) (e # n # ys)"
proof -
  have "next_ptr s e \<in> set (e # ys)" by (rule ring_next_in [OF e]) simp
  then have "next_ptr s e \<noteq> n" "n \<noteq> e" using n by auto
  then show ?thesis
    using insert_after_as_list_ring [OF LinkNode_ring LinkNode_frame [OF e n]] n
    by (simp add: insert_after_eq_as_list)
qed

text \<open>Unlinking the first node of a ring, and so any node of it (\<open>ring_append_commute\<close>).\<close>

lemma remove_from_list_alone: "ring (remove_from_list n s) [n]"
  by (simp add: ring_singleton link_op_defs)

lemma remove_from_list_ring:
  assumes r: "ring s (n # xs)" and ne: "xs \<noteq> []"
  shows "ring (remove_from_list n s) xs"
proof -
  let ?t = "remove_from_list n s"
  obtain y ys where xs: "xs = y # ys" using ne by (cases xs) auto
  have dis: "distinct (n # y # ys)" and sg: "seg s (y # ys)"
    and nn: "next_ptr s n = y" "prev_ptr s n = last (y # ys)"
    using r by (auto simp: ring_Cons xs)
  have ln: "last (y # ys) \<noteq> n" "n \<noteq> y" using dis last_in_set [of "y # ys"] by auto
  have nexts: "next_ptr ?t k = (if k = n then n else if k = last (y # ys) then y else next_ptr s k)" for k
    using nn ln by (auto simp: link_op_defs)
  have prevs: "prev_ptr ?t k = (if k = n then n else if k = y then last (y # ys) else prev_ptr s k)" for k
    using nn ln by (auto simp: link_op_defs)
  have "seg ?t (y # ys)"
    using sg dis last_notin_butlast [of "y # ys"]
    by (subst seg_cong [of _ ?t s]) (auto simp: nexts prevs dest: in_set_butlastD split: if_splits)
  then show ?thesis using dis ln by (simp add: xs ring_Cons nexts prevs)
qed

lemma remove_from_list_frame:
  assumes "ring s (n # xs)" and "ring s zs" and "set zs \<inter> set (n # xs) = {}"
  shows "ring (remove_from_list n s) zs"
proof (rule ring_disjoint_cong [OF assms(2,3)])
  fix k assume k: "k \<notin> set (n # xs)"
  have "prev_ptr s n \<in> set (n # xs)" "next_ptr s n \<in> set (n # xs)"
    by (rule ring_prev_in [OF assms(1)], simp) (rule ring_next_in [OF assms(1)], simp)
  then show "next_ptr (remove_from_list n s) k = next_ptr s k"
    "prev_ptr (remove_from_list n s) k = prev_ptr s k"
    using k by (auto simp: link_op_defs)
qed

section \<open>The contract the users of the list rely on\<close>

text \<open>
  What a client needs to know of circular lists: following \<open>nxt\<close> visits the ring in order,
  \<open>unlink\<close> takes one node out and leaves it alone, \<open>splice\<close> joins two rings, and rings that
  share no node do not disturb each other.
\<close>

locale circular_lists =
  fixes repr :: "'s \<Rightarrow> 'n list \<Rightarrow> bool"
    and nxt :: "'s \<Rightarrow> 'n \<Rightarrow> 'n"
    and unlink :: "'n \<Rightarrow> 's \<Rightarrow> 's"
    and splice :: "'n \<Rightarrow> 'n \<Rightarrow> 's \<Rightarrow> 's"
  assumes distinct: "repr s xs \<Longrightarrow> distinct xs"
    and rotate: "repr s (xs @ ys) \<Longrightarrow> repr s (ys @ xs)"
    and nxt_hd: "repr s (x # xs) \<Longrightarrow> nxt s x = hd (xs @ [x])"
    and unlink_rest: "repr s (n # xs) \<Longrightarrow> xs \<noteq> [] \<Longrightarrow> repr (unlink n s) xs"
    and unlink_alone: "repr (unlink n s) [n]"
    and unlink_frame: "repr s (n # xs) \<Longrightarrow> repr s zs \<Longrightarrow> set zs \<inter> set (n # xs) = {} \<Longrightarrow>
      repr (unlink n s) zs"
    and splice_join: "repr s (a # xs) \<Longrightarrow> repr s (e # ys) \<Longrightarrow> set (a # xs) \<inter> set (e # ys) = {} \<Longrightarrow>
      repr (splice a e s) (e # ys @ a # xs)"
    and splice_frame: "repr s (a # xs) \<Longrightarrow> repr s (e # ys) \<Longrightarrow> repr s zs \<Longrightarrow>
      set zs \<inter> (set (a # xs) \<union> set (e # ys)) = {} \<Longrightarrow> repr (splice a e s) zs"
begin

lemma nxt_middle: "repr s (xs @ p # zs) \<Longrightarrow> nxt s p = hd (zs @ xs @ [p])"
  using rotate [of s xs "p # zs"] nxt_hd [of s p "zs @ xs"] by simp

text \<open>
  The loop over a ring whose body keeps a node or unlinks it: it returns, the kept nodes stay in
  the ring of the root in their order, and each unlinked node is alone. \<open>lnk\<close> picks the
  store out of a larger state, \<open>I\<close> is an invariant of that state.
\<close>

lemma scan_from:
  assumes body: "\<And>p st. I st \<Longrightarrow>
      I (body p st) \<and> lnk (body p st) = (if keep p then lnk st else unlink p (lnk st))"
  shows "I st \<Longrightarrow> repr (lnk st) (root # ks @ xs) \<Longrightarrow>
     (\<forall>n\<in>A. repr (lnk st) [n]) \<Longrightarrow> A \<inter> set (root # ks @ xs) = {} \<Longrightarrow>
     ring_for (\<lambda>st. nxt (lnk st)) body root (hd (xs @ [root])) st = Some (fold body xs st) \<and>
     I (fold body xs st) \<and>
     repr (lnk (fold body xs st)) (root # ks @ filter keep xs) \<and>
     (\<forall>n \<in> A \<union> set (filter (\<lambda>p. \<not> keep p) xs). repr (lnk (fold body xs st)) [n])"
proof (induction xs arbitrary: ks A st)
  case Nil
  then show ?case by (simp add: ring_for.simps)
next
  case (Cons p xs)
  have rp: "repr (lnk st) ((root # ks) @ p # xs)" using Cons.prems(2) by simp
  have "p \<noteq> root" using distinct [OF rp] by auto
  moreover have "nxt (lnk st) p = hd (xs @ [root])"
    using nxt_middle [OF rp] by (cases xs) simp_all
  ultimately have unfold_loop: "ring_for (\<lambda>st. nxt (lnk st)) body root p st =
      ring_for (\<lambda>st. nxt (lnk st)) body root (hd (xs @ [root])) (body p st)"
    by (subst ring_for.simps) simp
  note body_p = body [OF Cons.prems(1), of p]
  show ?case
  proof (cases "keep p")
    case True
    have "repr (lnk (body p st)) (root # (ks @ [p]) @ xs)"
      and "\<forall>n\<in>A. repr (lnk (body p st)) [n]"
      using body_p rp Cons.prems(3) True by simp_all
    from Cons.IH [OF _ this] body_p Cons.prems(4) show ?thesis
      by (simp add: unfold_loop True)
  next
    case False
    have rot: "repr (lnk st) (p # (xs @ root # ks))" using rotate [OF rp] by simp
    then have "repr (lnk (body p st)) (xs @ root # ks)"
      using body_p False unlink_rest by auto
    then have "repr (lnk (body p st)) (root # ks @ xs)" using rotate by fastforce
    moreover have "\<forall>n\<in>insert p A. repr (lnk (body p st)) [n]"
    proof
      fix n assume n: "n \<in> insert p A"
      show "repr (lnk (body p st)) [n]"
      proof (cases "n = p")
        case False
        with n Cons.prems(3,4) have "repr (lnk st) [n]" "set [n] \<inter> set (p # xs @ root # ks) = {}"
          by auto
        from unlink_frame [OF rot this] show ?thesis using body_p \<open>\<not> keep p\<close> by simp
      qed (use body_p \<open>\<not> keep p\<close> unlink_alone in simp)
    qed
    moreover have "insert p A \<inter> set (root # ks @ xs) = {}"
      using Cons.prems(4) distinct [OF rp] by auto
    ultimately show ?thesis
      using Cons.IH [of "body p st" ks "insert p A"] body_p by (simp add: unfold_loop False)
  qed
qed

lemma scan:
  assumes "\<And>p st. I st \<Longrightarrow>
      I (body p st) \<and> lnk (body p st) = (if keep p then lnk st else unlink p (lnk st))"
    and "I st" and "repr (lnk st) (root # xs)"
  shows "ring_for (\<lambda>st. nxt (lnk st)) body root (nxt (lnk st) root) st = Some (fold body xs st)"
    and "repr (lnk (fold body xs st)) (root # filter keep xs)"
    and "n \<in> set xs \<Longrightarrow> \<not> keep n \<Longrightarrow> repr (lnk (fold body xs st)) [n]"
  using scan_from [of I body lnk keep st root "[]" xs "{}"] assms nxt_hd [OF assms(3)] by auto

text \<open>Rings that share no node with the scanned one are not disturbed.\<close>

lemma scan_frame:
  assumes body: "\<And>p st. I st \<Longrightarrow>
      I (body p st) \<and> lnk (body p st) = (if keep p then lnk st else unlink p (lnk st))"
  shows "I st \<Longrightarrow> repr (lnk st) (root # ks @ xs) \<Longrightarrow> repr (lnk st) zs \<Longrightarrow>
     set zs \<inter> set (root # ks @ xs) = {} \<Longrightarrow> repr (lnk (fold body xs st)) zs"
proof (induction xs arbitrary: ks st)
  case (Cons p xs)
  have rp: "repr (lnk st) ((root # ks) @ p # xs)" using Cons.prems(2) by simp
  note body_p = body [OF Cons.prems(1), of p]
  show ?case
  proof (cases "keep p")
    case True
    then have "repr (lnk (body p st)) (root # (ks @ [p]) @ xs)" "repr (lnk (body p st)) zs"
      using body_p rp Cons.prems(3) by simp_all
    from Cons.IH [OF _ this] body_p Cons.prems(4) show ?thesis by simp
  next
    case False
    have rot: "repr (lnk st) (p # (xs @ root # ks))" using rotate [OF rp] by simp
    then have "repr (lnk (body p st)) (root # ks @ xs)"
      using body_p False unlink_rest [OF rot] rotate [of _ xs "root # ks"] by simp
    moreover have "repr (lnk (body p st)) zs"
      using body_p False unlink_frame [OF rot Cons.prems(3)] Cons.prems(4) by auto
    ultimately show ?thesis using Cons.IH [of "body p st" ks] body_p Cons.prems(4) by auto
  qed
qed simp

text \<open>
  Handing a whole list over: \<^verbatim>\<open>h = root.next(); root.remove_from_list();
  h->insert_before_as_list(&dest)\<close> appends the nodes of \<open>root\<close> to \<open>dest\<close>, in order,
  and leaves \<open>root\<close> empty.
\<close>

lemma hand_over:
  assumes r: "repr s (root # x # xs)" and d: "repr s (dest # ys)"
    and dis: "set (root # x # xs) \<inter> set (dest # ys) = {}"
  shows "repr (splice (nxt s root) dest (unlink root s)) (dest # ys @ x # xs)"
    and "repr (splice (nxt s root) dest (unlink root s)) [root]"
proof -
  have n: "nxt s root = x" using nxt_hd [OF r] by simp
  have x: "repr (unlink root s) (x # xs)" using unlink_rest [OF r] by simp
  have d': "repr (unlink root s) (dest # ys)" using unlink_frame [OF r d] dis by auto
  have dis': "set (x # xs) \<inter> set (dest # ys) = {}" using dis by auto
  show "repr (splice (nxt s root) dest (unlink root s)) (dest # ys @ x # xs)"
    using splice_join [OF x d' dis'] by (simp add: n)
  have "root \<notin> set (x # xs) \<union> set (dest # ys)" using distinct [OF r] dis by auto
  then show "repr (splice (nxt s root) dest (unlink root s)) [root]"
    using splice_frame [OF x d' unlink_alone] by (auto simp: n)
qed

lemma hand_over_frame:
  assumes r: "repr s (root # x # xs)" and d: "repr s (dest # ys)" and z: "repr s zs"
    and dis: "set (root # x # xs) \<inter> set (dest # ys) = {}"
    and disz: "set zs \<inter> (set (root # x # xs) \<union> set (dest # ys)) = {}"
  shows "repr (splice (nxt s root) dest (unlink root s)) zs"
proof -
  have n: "nxt s root = x" using nxt_hd [OF r] by simp
  have x: "repr (unlink root s) (x # xs)" using unlink_rest [OF r] by simp
  have d': "repr (unlink root s) (dest # ys)" using unlink_frame [OF r d] dis by auto
  have z': "repr (unlink root s) zs" using unlink_frame [OF r z] disz by auto
  have "set zs \<inter> (set (x # xs) \<union> set (dest # ys)) = {}" using disz by auto
  then show ?thesis using splice_frame [OF x d' z'] by (simp add: n)
qed

end

interpretation ll: circular_lists ring next_ptr remove_from_list insert_before_as_list
proof unfold_locales
  fix s :: "'n links" and n a e :: 'n and xs ys zs :: "'n list"
  show "ring s (n # xs) \<Longrightarrow> ring s zs \<Longrightarrow> set zs \<inter> set (n # xs) = {} \<Longrightarrow>
      ring (remove_from_list n s) zs"
    by (rule remove_from_list_frame)
  show "ring s (a # xs) \<Longrightarrow> ring s (e # ys) \<Longrightarrow> ring s zs \<Longrightarrow>
      set zs \<inter> (set (a # xs) \<union> set (e # ys)) = {} \<Longrightarrow> ring (insert_before_as_list a e s) zs"
    by (rule insert_before_as_list_frame)
qed (simp_all add: ring_distinct ring_append_commute ring_next_hd remove_from_list_ring
    remove_from_list_alone insert_before_as_list_ring del: set_simps(2))

end
