(* ===== verification/Bounded_Queue.thy ===== *)
theory Bounded_Queue
  imports Prelude
begin

text \<open>
  \<^verbatim>\<open>src/common/bounded_queue.h\<close>: the ring buffer that holds the samples of a variable. The
  counters are 32-bit words, as in the code. The storage is a list of slots; a slot is \<open>None\<close>
  while no object lives in it. \<open>bq_rep q xs\<close> says that \<open>q\<close> is well formed and holds the items
  \<open>xs\<close>, topmost first.
\<close>

section \<open>State\<close>

datatype StorageOwnership = OWNS_STORAGE | NOT_OWN_STORAGE

record 'a BoundedQueue =
  bq_count :: u32
  bq_cap :: u32
  bq_start :: u32
  bq_ownership :: StorageOwnership
  bq_items :: "'a option list option"

text \<open>The loop of \<open>_mod\<close>; it does not return for \<open>cap = 0\<close>.\<close>

partial_function (option) mod_u32 :: "u32 \<Rightarrow> u32 \<Rightarrow> u32 option" where
  "mod_u32 off cap = (if off \<ge> cap then mod_u32 (off - cap) cap else Some off)"

subsection \<open>Access to the storage\<close>

text \<open>Placement new needs room for the object.\<close>

definition construct :: "nat \<Rightarrow> 'a \<Rightarrow> 'a BoundedQueue \<Rightarrow> 'a BoundedQueue option" where
  "construct i x q = (case bq_items q of
     None \<Rightarrow> None
   | Some mem \<Rightarrow> if i < length mem then Some (q\<lparr>bq_items := Some (mem[i := Some x])\<rparr>) else None)"

text \<open>Reading, assigning and destroying need a live object.\<close>

definition read_slot :: "nat \<Rightarrow> 'a BoundedQueue \<Rightarrow> 'a option" where
  "read_slot i q = (case bq_items q of
     None \<Rightarrow> None
   | Some mem \<Rightarrow> if i < length mem then mem ! i else None)"

definition assign :: "nat \<Rightarrow> 'a \<Rightarrow> 'a BoundedQueue \<Rightarrow> 'a BoundedQueue option" where
  "assign i x q = do { _ \<leftarrow> read_slot i q; construct i x q }"

definition destroy_slot :: "nat \<Rightarrow> 'a BoundedQueue \<Rightarrow> 'a BoundedQueue option" where
  "destroy_slot i q = do {
     _ \<leftarrow> read_slot i q;
     Some (q\<lparr>bq_items := map_option (\<lambda>mem. mem[i := None]) (bq_items q)\<rparr>) }"

section \<open>Construction\<close>

text \<open>
  The three constructors. The first takes raw storage of \<open>memsize\<close> bytes for items of
  \<open>sizeof_T\<close> bytes, the second calls \<open>malloc\<close> (whose outcome is the argument \<open>mem\<close>).
\<close>

definition BoundedQueue_mem ::
  "nat \<Rightarrow> 'a option list option \<Rightarrow> nat \<Rightarrow> StorageOwnership \<Rightarrow> 'a BoundedQueue" where
  "BoundedQueue_mem sizeof_T mem memsize ownership =
     \<lparr>bq_count = 0, bq_cap = of_nat (memsize div sizeof_T), bq_start = 0, bq_ownership = ownership,
      bq_items = mem\<rparr>"

definition BoundedQueue_capacity :: "'a option list option \<Rightarrow> u64 \<Rightarrow> 'a BoundedQueue" where
  "BoundedQueue_capacity mem capacity =
     \<lparr>bq_count = 0, bq_cap = ucast capacity, bq_start = 0, bq_ownership = OWNS_STORAGE, bq_items = mem\<rparr>"

definition BoundedQueue_default :: "'a BoundedQueue" where
  "BoundedQueue_default =
     \<lparr>bq_count = 0, bq_cap = 0, bq_start = 0, bq_ownership = NOT_OWN_STORAGE, bq_items = None\<rparr>"

section \<open>Operations\<close>

definition push :: "'a \<Rightarrow> 'a BoundedQueue \<Rightarrow> ('a BoundedQueue \<times> bool) option" where
  "push item q =
     (if bq_count q < bq_cap q then do {
        i \<leftarrow> mod_u32 (bq_start q + bq_count q) (bq_cap q);
        q \<leftarrow> construct (unat i) item q;
        Some (q\<lparr>bq_count := bq_count q + 1\<rparr>, True) }
      else Some (q, False))"

definition elim_push :: "'a \<Rightarrow> 'a BoundedQueue \<Rightarrow> 'a BoundedQueue option" where
  "elim_push item q =
     (if bq_count q < bq_cap q then do {
        i \<leftarrow> mod_u32 (bq_start q + bq_count q) (bq_cap q);
        q \<leftarrow> construct (unat i) item q;
        Some (q\<lparr>bq_count := bq_count q + 1\<rparr>) }
      else do {
        q \<leftarrow> assign (unat (bq_start q)) item q;
        s \<leftarrow> mod_u32 (bq_start q + 1) (bq_cap q);
        Some (q\<lparr>bq_start := s\<rparr>) })"

text \<open>
  The overloads that construct a default item (\<open>T()\<close>, here \<open>dflt\<close>) return its address in the
  storage, or null.
\<close>

definition push_default :: "'a \<Rightarrow> 'a BoundedQueue \<Rightarrow> ('a BoundedQueue \<times> nat option) option" where
  "push_default dflt q =
     (if bq_count q < bq_cap q then do {
        i \<leftarrow> mod_u32 (bq_start q + bq_count q) (bq_cap q);
        q \<leftarrow> Some (q\<lparr>bq_count := bq_count q + 1\<rparr>);
        q \<leftarrow> construct (unat i) dflt q;
        Some (q, Some (unat i)) }
      else Some (q, None))"

definition top_start :: "'a BoundedQueue \<Rightarrow> u32" where
  "top_start q = (if bq_start q \<noteq> 0 then bq_start q - 1 else bq_cap q - 1)"

definition push_top :: "'a \<Rightarrow> 'a BoundedQueue \<Rightarrow> ('a BoundedQueue \<times> bool) option" where
  "push_top item q =
     (if bq_count q < bq_cap q then do {
        q \<leftarrow> Some (q\<lparr>bq_start := top_start q, bq_count := bq_count q + 1\<rparr>);
        q \<leftarrow> construct (unat (bq_start q)) item q;
        Some (q, True) }
      else Some (q, False))"

definition push_top_default :: "'a \<Rightarrow> 'a BoundedQueue \<Rightarrow> ('a BoundedQueue \<times> nat option) option" where
  "push_top_default dflt q =
     (if bq_count q < bq_cap q then do {
        q \<leftarrow> Some (q\<lparr>bq_start := top_start q, bq_count := bq_count q + 1\<rparr>);
        q \<leftarrow> construct (unat (bq_start q)) dflt q;
        Some (q, Some (unat (bq_start q))) }
      else Some (q, None))"

definition pop :: "'a BoundedQueue \<Rightarrow> ('a BoundedQueue \<times> bool) option" where
  "pop q =
     (if bq_count q \<noteq> 0 then do {
        q \<leftarrow> Some (q\<lparr>bq_count := bq_count q - 1\<rparr>);
        q \<leftarrow> destroy_slot (unat (bq_start q)) q;
        s \<leftarrow> mod_u32 (bq_start q + 1) (bq_cap q);
        Some (q\<lparr>bq_start := s\<rparr>, True) }
      else Some (q, False))"

text \<open>\<open>pop(T* item)\<close>: \<open>Some\<close> of the item copied out, or \<open>None\<close> for the result \<open>false\<close>.\<close>

definition pop_item :: "'a BoundedQueue \<Rightarrow> ('a BoundedQueue \<times> 'a option) option" where
  "pop_item q =
     (if bq_count q \<noteq> 0 then do {
        q \<leftarrow> Some (q\<lparr>bq_count := bq_count q - 1\<rparr>);
        x \<leftarrow> read_slot (unat (bq_start q)) q;
        q \<leftarrow> destroy_slot (unat (bq_start q)) q;
        s \<leftarrow> mod_u32 (bq_start q + 1) (bq_cap q);
        Some (q\<lparr>bq_start := s\<rparr>, Some x) }
      else Some (q, None))"

text \<open>
  The bottom-side pops index \<open>_items + _start + _count\<close> without \<open>_mod\<close>: pointer arithmetic, so
  the two offsets add up without wrap-around.
\<close>

definition pop_bottom :: "'a BoundedQueue \<Rightarrow> ('a BoundedQueue \<times> bool) option" where
  "pop_bottom q =
     (if bq_count q \<noteq> 0 then do {
        q \<leftarrow> Some (q\<lparr>bq_count := bq_count q - 1\<rparr>);
        q \<leftarrow> destroy_slot (unat (bq_start q) + unat (bq_count q)) q;
        Some (q, True) }
      else Some (q, False))"

definition pop_bottom_item :: "'a BoundedQueue \<Rightarrow> ('a BoundedQueue \<times> 'a option) option" where
  "pop_bottom_item q =
     (if bq_count q \<noteq> 0 then do {
        q \<leftarrow> Some (q\<lparr>bq_count := bq_count q - 1\<rparr>);
        x \<leftarrow> read_slot (unat (bq_start q) + unat (bq_count q)) q;
        q \<leftarrow> destroy_slot (unat (bq_start q) + unat (bq_count q)) q;
        Some (q, Some x) }
      else Some (q, None))"

partial_function (option) clear_loop :: "u32 \<Rightarrow> 'a BoundedQueue \<Rightarrow> 'a BoundedQueue option" where
  "clear_loop i q =
     (if i < bq_count q then do {
        j \<leftarrow> mod_u32 (bq_start q + i) (bq_cap q);
        q \<leftarrow> destroy_slot (unat j) q;
        clear_loop (i + 1) q }
      else Some q)"

definition clear :: "'a BoundedQueue \<Rightarrow> 'a BoundedQueue option" where
  "clear q = do { q \<leftarrow> clear_loop 0 q; Some (q\<lparr>bq_count := 0, bq_start := 0\<rparr>) }"

text \<open>The destructor: clear, then free owned storage.\<close>

definition BoundedQueue_destruct :: "'a BoundedQueue \<Rightarrow> 'a BoundedQueue option" where
  "BoundedQueue_destruct q = do {
     q \<leftarrow> clear q;
     Some (if bq_ownership q = OWNS_STORAGE then q\<lparr>bq_items := None\<rparr> else q) }"

text \<open>The accessors return the address of a slot, or null.\<close>

definition top_q :: "'a BoundedQueue \<Rightarrow> nat option" where
  "top_q q = (if bq_count q \<noteq> 0 then Some (unat (bq_start q)) else None)"

definition top_at :: "u64 \<Rightarrow> 'a BoundedQueue \<Rightarrow> nat option option" where
  "top_at index q =
     (if index < ucast (bq_count q)
      then map_option (Some \<circ> unat) (mod_u32 (ucast (ucast (bq_start q) + index)) (bq_cap q))
      else Some None)"

definition bottom :: "'a BoundedQueue \<Rightarrow> nat option option" where
  "bottom q =
     (if bq_count q \<noteq> 0
      then map_option (Some \<circ> unat) (mod_u32 (bq_start q + bq_count q - 1) (bq_cap q))
      else Some None)"

definition bottom_at :: "u64 \<Rightarrow> 'a BoundedQueue \<Rightarrow> nat option option" where
  "bottom_at index q =
     (if index < ucast (bq_count q)
      then map_option (Some \<circ> unat)
             (mod_u32 (ucast (ucast (bq_start q + bq_count q) - index - 1)) (bq_cap q))
      else Some None)"

definition empty_q :: "'a BoundedQueue \<Rightarrow> bool" where
  "empty_q q \<longleftrightarrow> bq_count q = 0"

definition full :: "'a BoundedQueue \<Rightarrow> bool" where
  "full q \<longleftrightarrow> bq_cap q = bq_count q"

definition size_of_queue :: "'a BoundedQueue \<Rightarrow> u64" where
  "size_of_queue q = ucast (bq_count q)"

definition capacity :: "'a BoundedQueue \<Rightarrow> u64" where
  "capacity q = ucast (bq_cap q)"

definition max_capacity :: u64 where
  "max_capacity = push_bit (4 * 8) 1 - 1"

definition initialized :: "'a BoundedQueue \<Rightarrow> bool" where
  "initialized q \<longleftrightarrow> bq_items q \<noteq> None"

definition swap_q :: "'a BoundedQueue \<Rightarrow> 'a BoundedQueue \<Rightarrow> 'a BoundedQueue \<times> 'a BoundedQueue" where
  "swap_q q rhs = (rhs, q)"

section \<open>The loop of \<open>_mod\<close>\<close>

lemma mod_u32_returns: "cap \<noteq> 0 \<Longrightarrow> mod_u32 off cap = Some (off mod cap)"
proof (induction "unat off" arbitrary: off rule: less_induct)
  case less
  show ?case
  proof (cases "off < cap")
    case True
    then show ?thesis by (subst mod_u32.simps) (auto simp: mod_word_less dest: leD)
  next
    case False
    then have le: "cap \<le> off" by simp
    have sub: "unat (off - cap) = unat off - unat cap" using le by (simp add: unat_sub)
    moreover have "0 < unat cap" using less.prems by (simp add: unat_gt_0)
    moreover have "unat cap \<le> unat off" using le by (simp add: word_le_nat_alt)
    ultimately have lt: "unat (off - cap) < unat off" by linarith
    have "(off - cap) mod cap = off mod cap"
      using le sub by (simp add: word_unat_eq_iff unat_mod_distrib word_le_nat_alt le_mod_geq)
    with less.hyps [OF lt less.prems] le show ?thesis by (subst mod_u32.simps) simp
  qed
qed

lemma mod_u32_zero: "mod_u32 off 0 = None"
proof (cases "mod_u32 off 0")
  case (Some r)
  have "cap \<noteq> 0" if "mod_u32 off cap = Some r" for off cap r
    by (rule mod_u32.raw_induct [OF _ that]) (auto split: if_splits)
  from this [OF Some] show ?thesis by simp
qed

section \<open>Well-formed queues and the list they hold\<close>

text \<open>
  The capacity must stay at most \<open>2 ^ 31\<close> so that \<open>_start + _count\<close> does not wrap in 32 bits.
  Seen from \<open>_start\<close>, the first \<open>_count\<close> slots are live and the others of the capacity are not.
\<close>

definition slots :: "'a BoundedQueue \<Rightarrow> 'a option list" where
  "slots q = (case bq_items q of None \<Rightarrow> [] | Some mem \<Rightarrow> take (unat (bq_cap q)) mem)"

definition view :: "'a BoundedQueue \<Rightarrow> 'a option list" where
  "view q = rotate (unat (bq_start q)) (slots q)"

definition bq_ok :: "'a BoundedQueue \<Rightarrow> bool" where
  "bq_ok q \<longleftrightarrow> unat (bq_cap q) \<le> 2 ^ 31 \<and> length (slots q) = unat (bq_cap q) \<and>
     (bq_start q < bq_cap q \<or> bq_cap q = 0 \<and> bq_start q = 0)"

definition bq_rep :: "'a BoundedQueue \<Rightarrow> 'a list \<Rightarrow> bool" where
  "bq_rep q xs \<longleftrightarrow> bq_ok q \<and> unat (bq_count q) = length xs \<and>
     view q = map Some xs @ replicate (unat (bq_cap q) - length xs) None"

lemma length_view: "bq_ok q \<Longrightarrow> length (view q) = unat (bq_cap q)"
  by (simp add: view_def bq_ok_def)

lemma bq_rep_length: "bq_rep q xs \<Longrightarrow> length xs \<le> unat (bq_cap q)"
  using length_view [of q] by (auto simp: bq_rep_def)

lemma bq_rep_count_less: "bq_rep q xs \<Longrightarrow> bq_count q < bq_cap q \<longleftrightarrow> length xs < unat (bq_cap q)"
  by (simp add: bq_rep_def word_less_nat_alt)

lemma bq_rep_count_zero: "bq_rep q xs \<Longrightarrow> bq_count q = 0 \<longleftrightarrow> xs = []"
  by (auto simp: bq_rep_def unat_eq_zero)

lemma bq_rep_cap: "bq_rep q (x # xs) \<Longrightarrow> bq_cap q \<noteq> 0"
  using bq_rep_length [of q "x # xs"] by auto

lemma bq_ok_start: "bq_ok q \<Longrightarrow> bq_cap q \<noteq> 0 \<Longrightarrow> unat (bq_start q) < unat (bq_cap q)"
  by (auto simp: bq_ok_def word_less_nat_alt)

lemma bq_ok_items: "bq_ok q \<Longrightarrow> bq_cap q \<noteq> 0 \<Longrightarrow>
    \<exists>mem. bq_items q = Some mem \<and> unat (bq_cap q) \<le> length mem"
  by (auto simp: bq_ok_def slots_def min_def unat_eq_zero split: option.splits if_splits)

text \<open>The slot at distance \<open>k\<close> from the start, and writing a slot.\<close>

definition slot_at :: "'a BoundedQueue \<Rightarrow> nat \<Rightarrow> nat" where
  "slot_at q k = (unat (bq_start q) + k) mod unat (bq_cap q)"

definition put :: "nat \<Rightarrow> 'a option \<Rightarrow> 'a BoundedQueue \<Rightarrow> 'a BoundedQueue" where
  "put i v q = q\<lparr>bq_items := map_option (\<lambda>mem. mem[i := v]) (bq_items q)\<rparr>"

lemma put_fields [simp]:
  "bq_count (put i v q) = bq_count q" "bq_cap (put i v q) = bq_cap q"
  "bq_start (put i v q) = bq_start q" "bq_ownership (put i v q) = bq_ownership q"
  by (simp_all add: put_def)

lemma slots_put: "slots (put i v q) = (slots q)[i := v]"
  by (auto simp: slots_def put_def take_update_swap split: option.splits)

lemma slots_count [simp]: "slots (q\<lparr>bq_count := c\<rparr>) = slots q"
  by (auto simp: slots_def split: option.splits)

lemma slots_start [simp]: "slots (q\<lparr>bq_start := s\<rparr>) = slots q"
  by (auto simp: slots_def split: option.splits)

lemma view_count [simp]: "view (q\<lparr>bq_count := c\<rparr>) = view q"
  by (simp add: view_def)

lemma bq_ok_count [simp]: "bq_ok (q\<lparr>bq_count := c\<rparr>) \<longleftrightarrow> bq_ok q"
  by (simp add: bq_ok_def)

lemma bq_ok_put [simp]: "bq_ok (put i v q) \<longleftrightarrow> bq_ok q"
  by (simp add: bq_ok_def slots_put)

lemma slot_at_less: "bq_cap q \<noteq> 0 \<Longrightarrow> slot_at q k < unat (bq_cap q)"
  by (simp add: slot_at_def unat_gt_0)

lemma slot_at_in_items: "bq_ok q \<Longrightarrow> bq_cap q \<noteq> 0 \<Longrightarrow>
    \<exists>mem. bq_items q = Some mem \<and> slot_at q k < length mem"
  using bq_ok_items [of q] slot_at_less [of q k] by auto

lemma view_put: "bq_ok q \<Longrightarrow> k < unat (bq_cap q) \<Longrightarrow>
    view (put (slot_at q k) v q) = (view q)[k := v]"
  using rotate_update [of k "slots q" "unat (bq_start q)" v]
  by (simp add: view_def slots_put slot_at_def bq_ok_def)

lemma read_slot_view: "bq_ok q \<Longrightarrow> k < unat (bq_cap q) \<Longrightarrow>
    read_slot (slot_at q k) q = view q ! k"
proof -
  assume ok: "bq_ok q" and k: "k < unat (bq_cap q)"
  then have "bq_cap q \<noteq> 0" by auto
  from slot_at_in_items [OF ok this, of k] slot_at_less [OF this, of k] k ok show ?thesis
    by (auto simp: read_slot_def view_def nth_rotate bq_ok_def slots_def slot_at_def)
qed

lemma construct_put: "bq_ok q \<Longrightarrow> bq_cap q \<noteq> 0 \<Longrightarrow>
    construct (slot_at q k) x q = Some (put (slot_at q k) (Some x) q)"
  using slot_at_in_items [of q k] by (auto simp: construct_def put_def)

lemma destroy_slot_put: "read_slot i q = Some x \<Longrightarrow> destroy_slot i q = Some (put i None q)"
  by (simp add: destroy_slot_def put_def)

text \<open>Moving the start forward by one rotates the view.\<close>

lemma advance_start: "bq_ok q \<Longrightarrow> bq_cap q \<noteq> 0 \<Longrightarrow>
    \<exists>s. mod_u32 (bq_start q + 1) (bq_cap q) = Some s \<and> bq_ok (q\<lparr>bq_start := s\<rparr>) \<and>
        view (q\<lparr>bq_start := s\<rparr>) = rotate1 (view q)"
proof -
  assume ok: "bq_ok q" and cap: "bq_cap q \<noteq> 0"
  have "unat (bq_start q) < 2 ^ 31" using bq_ok_start [OF ok cap] ok by (simp add: bq_ok_def)
  then have "unat (bq_start q + 1) = Suc (unat (bq_start q))"
    by (subst unat_add_lem [THEN iffD1]) simp_all
  then have s: "unat ((bq_start q + 1) mod bq_cap q) = Suc (unat (bq_start q)) mod unat (bq_cap q)"
    by (simp add: unat_mod_distrib)
  moreover have "0 < unat (bq_cap q)" using cap by (simp add: unat_gt_0)
  ultimately have "(bq_start q + 1) mod bq_cap q < bq_cap q"
    by (simp add: word_less_nat_alt)
  then show ?thesis
    using ok cap s rotate_Suc_mod [of "unat (bq_start q)" "slots q"]
    by (simp add: mod_u32_returns bq_ok_def view_def)
qed

lemma index_of_count:
  assumes rep: "bq_rep q xs" and less: "length xs < unat (bq_cap q)"
  shows "\<exists>i. mod_u32 (bq_start q + bq_count q) (bq_cap q) = Some i \<and> unat i = slot_at q (length xs)"
proof -
  have cap: "bq_cap q \<noteq> 0" using less by auto
  have ok: "bq_ok q" and c: "unat (bq_count q) = length xs" using rep by (auto simp: bq_rep_def)
  have "unat (bq_start q) + unat (bq_count q) < 2 ^ 32"
    using bq_ok_start [OF ok cap] ok less c by (simp add: bq_ok_def)
  then have "unat (bq_start q + bq_count q) = unat (bq_start q) + length xs"
    using c by (subst unat_add_lem [THEN iffD1]) simp_all
  then show ?thesis using cap by (simp add: mod_u32_returns unat_mod_distrib slot_at_def)
qed

section \<open>The operations as list operations\<close>

lemma replicate_Suc_tail: "n < m \<Longrightarrow>
    (ys @ replicate (m - n) a)[length ys := v] = ys @ v # replicate (m - Suc n) a"
  by (simp add: list_update_append Suc_diff_Suc [symmetric])

lemma bq_rep_appended:
  assumes rep: "bq_rep q xs" and less: "length xs < unat (bq_cap q)"
  shows "bq_rep ((put (slot_at q (length xs)) (Some x) q)\<lparr>bq_count := bq_count q + 1\<rparr>) (xs @ [x])"
proof -
  have ok: "bq_ok q" and c: "unat (bq_count q) = length xs"
    and v: "view q = map Some xs @ replicate (unat (bq_cap q) - length xs) None"
    using rep by (auto simp: bq_rep_def)
  have "length xs < 2 ^ 31" using less ok by (simp add: bq_ok_def)
  then have "unat (bq_count q + 1) = Suc (length xs)"
    using c by (subst unat_add_lem [THEN iffD1]) simp_all
  then show ?thesis
    using ok less replicate_Suc_tail [OF less, of "map Some xs"]
    by (simp add: bq_rep_def view_put v)
qed

lemma push_full: "bq_rep q xs \<Longrightarrow> length xs = unat (bq_cap q) \<Longrightarrow> push x q = Some (q, False)"
  by (simp add: push_def bq_rep_count_less)

lemma push_room: "bq_rep q xs \<Longrightarrow> length xs < unat (bq_cap q) \<Longrightarrow>
    \<exists>q'. push x q = Some (q', True) \<and> bq_rep q' (xs @ [x]) \<and> bq_cap q' = bq_cap q"
proof -
  assume rep: "bq_rep q xs" and less: "length xs < unat (bq_cap q)"
  have "bq_cap q \<noteq> 0" "bq_ok q" using rep less by (auto simp: bq_rep_def)
  then show ?thesis
    using index_of_count [OF rep less] bq_rep_appended [OF rep less, of x] less
    by (auto simp: push_def bq_rep_count_less [OF rep] construct_put)
qed

lemma bq_rep_rotated:
  assumes ok: "bq_ok q" and cap: "bq_cap q \<noteq> 0" and cnt: "unat (bq_count q) = length ys"
    and v: "rotate1 (view q) = map Some ys @ replicate (unat (bq_cap q) - length ys) None"
  shows "\<exists>s. mod_u32 (bq_start q + 1) (bq_cap q) = Some s \<and> bq_rep (q\<lparr>bq_start := s\<rparr>) ys"
  using advance_start [OF ok cap] cnt v by (auto simp: bq_rep_def)

lemma elim_push_rep: "bq_rep q xs \<Longrightarrow> bq_cap q \<noteq> 0 \<Longrightarrow>
    \<exists>q'. elim_push x q = Some q' \<and> bq_cap q' = bq_cap q \<and>
         bq_rep q' (if length xs < unat (bq_cap q) then xs @ [x] else tl xs @ [x])"
proof -
  assume rep: "bq_rep q xs" and cap: "bq_cap q \<noteq> 0"
  have ok: "bq_ok q" and v: "view q = map Some xs @ replicate (unat (bq_cap q) - length xs) None"
    and c: "unat (bq_count q) = length xs" using rep by (auto simp: bq_rep_def)
  show ?thesis
  proof (cases "length xs < unat (bq_cap q)")
    case True
    then show ?thesis
      using index_of_count [OF rep True] bq_rep_appended [OF rep True, of x] cap ok
      by (auto simp: elim_push_def bq_rep_count_less [OF rep] construct_put)
  next
    case False
    then have len: "length xs = unat (bq_cap q)" using bq_rep_length [OF rep] by simp
    have pos: "0 < unat (bq_cap q)" using cap by (simp add: unat_gt_0)
    obtain y ys where xs: "xs = y # ys" using len pos by (cases xs) auto
    have s0: "slot_at q 0 = unat (bq_start q)" using bq_ok_start [OF ok cap] by (simp add: slot_at_def)
    have rd: "read_slot (unat (bq_start q)) q = Some y"
      using read_slot_view [OF ok pos] by (simp add: s0 v xs)
    let ?q = "put (unat (bq_start q)) (Some x) q"
    have asg: "assign (unat (bq_start q)) x q = Some ?q"
      using construct_put [OF ok cap, of 0 x] rd by (simp add: assign_def s0)
    have "rotate1 (view ?q) = map Some (ys @ [x]) @ replicate (unat (bq_cap ?q) - length (ys @ [x])) None"
      using view_put [OF ok pos, of "Some x"] len xs by (simp add: s0 v)
    then have "\<exists>s. mod_u32 (bq_start ?q + 1) (bq_cap ?q) = Some s \<and> bq_rep (?q\<lparr>bq_start := s\<rparr>) (ys @ [x])"
      using ok cap c xs by (intro bq_rep_rotated) simp_all
    then show ?thesis using False asg by (auto simp: elim_push_def bq_rep_count_less [OF rep] xs)
  qed
qed

lemma pop_item_empty: "bq_rep q [] \<Longrightarrow> pop_item q = Some (q, None)"
  by (simp add: pop_item_def bq_rep_count_zero)

lemma pop_item_rep: "bq_rep q (x # xs) \<Longrightarrow>
    \<exists>q'. pop_item q = Some (q', Some x) \<and> pop q = Some (q', True) \<and> bq_rep q' xs \<and>
         bq_cap q' = bq_cap q"
proof -
  assume rep: "bq_rep q (x # xs)"
  have ok: "bq_ok q" and v: "view q = map Some (x # xs) @ replicate (unat (bq_cap q) - length (x # xs)) None"
    and c: "unat (bq_count q) = length (x # xs)" using rep by (auto simp: bq_rep_def)
  have cap: "bq_cap q \<noteq> 0" using bq_rep_cap [OF rep] .
  have pos: "0 < unat (bq_cap q)" using cap by (simp add: unat_gt_0)
  have s0: "slot_at q 0 = unat (bq_start q)" using bq_ok_start [OF ok cap] by (simp add: slot_at_def)
  let ?q = "q\<lparr>bq_count := bq_count q - 1\<rparr>"
  have s0': "slot_at ?q 0 = unat (bq_start q)" using s0 by (simp add: slot_at_def)
  have rd: "read_slot (unat (bq_start q)) ?q = Some x"
    using read_slot_view [OF ok pos] by (simp add: s0 v read_slot_def)
  let ?p = "put (unat (bq_start q)) None ?q"
  have cnt: "unat (bq_count q - 1) = length xs"
    using c bq_rep_count_zero [OF rep] by (simp add: unat_minus_one)
  have "rotate1 (view ?p) = map Some xs @ replicate (unat (bq_cap ?p) - length xs) None"
    using view_put [of ?q 0 None] ok pos bq_rep_length [OF rep]
    by (simp add: s0' v replicate_append_same Suc_diff_Suc [symmetric])
  then have "\<exists>s. mod_u32 (bq_start ?p + 1) (bq_cap ?p) = Some s \<and> bq_rep (?p\<lparr>bq_start := s\<rparr>) xs"
    using ok cap cnt by (intro bq_rep_rotated) simp_all
  then show ?thesis
    using bq_rep_count_zero [OF rep] rd destroy_slot_put [OF rd]
    by (auto simp: pop_item_def pop_def)
qed

subsection \<open>The top side\<close>

lemma rotate_pred: "l \<noteq> [] \<Longrightarrow> rotate (length l - 1) l = last l # butlast l"
  using rotate_append [of "butlast l" "[last l]"] by simp

lemma retreat_start:
  assumes ok: "bq_ok q" and cap: "bq_cap q \<noteq> 0"
  shows "bq_ok (q\<lparr>bq_start := top_start q\<rparr>)"
    and "view (q\<lparr>bq_start := top_start q\<rparr>) = last (view q) # butlast (view q)"
proof -
  let ?n = "unat (bq_cap q)"
  have n: "0 < ?n" using cap by (simp add: unat_gt_0)
  have len: "length (slots q) = ?n" using ok by (simp add: bq_ok_def)
  have s: "unat (top_start q) = (if unat (bq_start q) = 0 then ?n - 1 else unat (bq_start q) - 1)"
    using cap by (auto simp: top_start_def unat_minus_one unat_eq_zero)
  have lt: "unat (top_start q) < ?n" using s n bq_ok_start [OF ok cap] by auto
  then show "bq_ok (q\<lparr>bq_start := top_start q\<rparr>)"
    using ok by (simp add: bq_ok_def word_less_nat_alt)
  have "(?n - 1 + unat (bq_start q)) mod ?n = unat (top_start q)"
  proof (cases "unat (bq_start q) = 0")
    case False
    then have "unat (top_start q) = unat (bq_start q) - 1" "0 < unat (bq_start q)" using s by simp_all
    then have "?n - 1 + unat (bq_start q) = unat (top_start q) + ?n" using n by linarith
    then show ?thesis using lt by (metis mod_add_self2 mod_less)
  qed (use s n in simp)
  then have "rotate (unat (top_start q)) (slots q) = rotate (?n - 1) (view q)"
    using rotate_conv_mod [of "?n - 1 + unat (bq_start q)" "slots q"]
    by (simp add: view_def rotate_rotate len)
  moreover have "view q \<noteq> []" using length_view [OF ok] n by auto
  ultimately show "view (q\<lparr>bq_start := top_start q\<rparr>) = last (view q) # butlast (view q)"
    using rotate_pred [of "view q"] length_view [OF ok] by (simp add: view_def)
qed

lemma push_top_rep:
  assumes rep: "bq_rep q xs" and less: "length xs < unat (bq_cap q)"
  shows "\<exists>q'. push_top x q = Some (q', True) \<and> bq_rep q' (x # xs) \<and> bq_cap q' = bq_cap q"
proof -
  have ok: "bq_ok q" and c: "unat (bq_count q) = length xs"
    and v: "view q = map Some xs @ replicate (unat (bq_cap q) - length xs) None"
    and cap: "bq_cap q \<noteq> 0"
    using rep less by (auto simp: bq_rep_def)
  let ?q = "q\<lparr>bq_start := top_start q, bq_count := bq_count q + 1\<rparr>"
  have ok': "bq_ok ?q" using retreat_start(1) [OF ok cap] by (simp only: bq_ok_count)
  obtain m where m: "unat (bq_cap q) - length xs = Suc m" using less by (cases "unat (bq_cap q) - length xs") auto
  have "view ?q = None # map Some xs @ replicate m None"
    using retreat_start(2) [OF ok cap] v m
    by (simp add: butlast_append last_append flip: replicate_append_same)
  then have v': "view ?q = None # map Some xs @ replicate (unat (bq_cap q) - Suc (length xs)) None"
    using m by (simp add: diff_Suc)
  have pos: "0 < unat (bq_cap q)" using less by simp
  have s0: "slot_at ?q 0 = unat (top_start q)"
    using bq_ok_start [OF ok'] cap by (simp add: slot_at_def)
  have "length xs < 2 ^ 31" using less ok by (simp add: bq_ok_def)
  then have cnt: "unat (bq_count q + 1) = Suc (length xs)"
    using c by (subst unat_add_lem [THEN iffD1]) simp_all
  have "bq_rep (put (unat (top_start q)) (Some x) ?q) (x # xs)"
    using view_put [OF ok', of 0 "Some x"] v' ok' cnt pos by (simp add: bq_rep_def s0)
  then show ?thesis
    using construct_put [OF ok', of 0 x] cap less
    by (simp add: push_top_def bq_rep_count_less [OF rep] s0)
qed

section \<open>The accessors\<close>

lemma read_slot_rep: "bq_rep q xs \<Longrightarrow> k < length xs \<Longrightarrow> read_slot (slot_at q k) q = Some (xs ! k)"
  using read_slot_view [of q k] bq_rep_length [of q xs] by (auto simp: bq_rep_def nth_append)

lemma top_q_rep: "bq_rep q xs \<Longrightarrow> top_q q = (if xs = [] then None else Some (slot_at q 0))"
proof (cases xs)
  case (Cons y ys)
  assume rep: "bq_rep q xs"
  then have "bq_cap q \<noteq> 0" "bq_ok q" using bq_rep_cap [of q y ys] Cons by (auto simp: bq_rep_def)
  then show ?thesis using bq_ok_start [of q] Cons bq_rep_count_zero [OF rep]
    by (simp add: top_q_def slot_at_def)
qed (simp add: top_q_def bq_rep_count_zero)

lemma bq_sum:
  assumes "bq_rep q xs" and "bq_cap q \<noteq> 0"
  shows "unat (bq_start q + bq_count q) = unat (bq_start q) + length xs"
    and "unat (bq_start q) + length xs < 2 ^ 32"
proof -
  have ok: "bq_ok q" and c: "unat (bq_count q) = length xs" using assms(1) by (auto simp: bq_rep_def)
  show lt: "unat (bq_start q) + length xs < 2 ^ 32"
    using bq_ok_start [OF ok assms(2)] ok bq_rep_length [OF assms(1)] by (simp add: bq_ok_def)
  with c show "unat (bq_start q + bq_count q) = unat (bq_start q) + length xs"
    by (subst unat_add_lem [THEN iffD1]) simp_all
qed

lemma bottom_at_rep:
  assumes rep: "bq_rep q xs"
  shows "bottom_at i q =
    Some (if unat i < length xs then Some (slot_at q (length xs - Suc (unat i))) else None)"
proof (cases "unat i < length xs")
  case True
  have c: "unat (bq_count q) = length xs" using rep by (auto simp: bq_rep_def)
  have cap: "bq_cap q \<noteq> 0" using True bq_rep_length [OF rep] by auto
  let ?w = "ucast (bq_start q + bq_count q) :: u64"
  have w: "unat ?w = unat (bq_start q) + length xs"
    using bq_sum [OF rep cap] by simp
  have w1: "unat (?w - i) = unat (bq_start q) + length xs - unat i"
    using w True by (subst unat_sub) (simp_all add: word_le_nat_alt)
  have w2: "unat (?w - i - 1) = unat (bq_start q) + (length xs - Suc (unat i))"
    using w1 True by (subst unat_sub) (auto simp: word_le_nat_alt)
  then have "unat (ucast (?w - i - 1) :: u32) = unat (bq_start q) + (length xs - Suc (unat i))"
    using bq_sum(2) [OF rep cap] by (subst unat_ucast_u64_u32) simp_all
  then show ?thesis using True c cap
    by (simp add: bottom_at_def word_less_nat_alt mod_u32_returns unat_mod_distrib slot_at_def)
next
  case False
  then show ?thesis using rep by (simp add: bottom_at_def word_less_nat_alt bq_rep_def)
qed

lemma bottom_rep:
  assumes rep: "bq_rep q xs"
  shows "bottom q = Some (if xs = [] then None else Some (slot_at q (length xs - 1)))"
proof (cases "xs = []")
  case False
  have cap: "bq_cap q \<noteq> 0" using False bq_rep_length [OF rep] by auto
  have "unat (bq_start q + bq_count q - 1) = unat (bq_start q) + (length xs - 1)"
    using bq_sum [OF rep cap] False by (subst unat_sub) (auto simp: word_le_nat_alt Suc_le_eq)
  then show ?thesis using False cap bq_rep_count_zero [OF rep]
    by (simp add: bottom_def mod_u32_returns unat_mod_distrib slot_at_def)
qed (simp add: bottom_def bq_rep_count_zero [OF rep])

lemma top_at_rep:
  assumes rep: "bq_rep q xs"
  shows "top_at i q = Some (if unat i < length xs then Some (slot_at q (unat i)) else None)"
proof (cases "unat i < length xs")
  case True
  have c: "unat (bq_count q) = length xs" using rep by (auto simp: bq_rep_def)
  have cap: "bq_cap q \<noteq> 0" using True bq_rep_length [OF rep] by auto
  have lt: "unat (bq_start q) + unat i < 2 ^ 32" using bq_sum(2) [OF rep cap] True by simp
  then have "unat (ucast (bq_start q) + i) = unat (bq_start q) + unat i"
    by (subst unat_add_lem [THEN iffD1]) simp_all
  then have "unat (ucast (ucast (bq_start q) + i :: u64) :: u32) = unat (bq_start q) + unat i"
    using lt by (subst unat_ucast_u64_u32) simp_all
  then show ?thesis using True c cap
    by (simp add: top_at_def word_less_nat_alt mod_u32_returns unat_mod_distrib slot_at_def)
next
  case False
  then show ?thesis using rep by (simp add: top_at_def word_less_nat_alt bq_rep_def)
qed

section \<open>The bottom side\<close>

text \<open>
  The bottom-side pops do what they should only while the live items do not wrap around the end
  of the storage.
\<close>

lemma pop_bottom_rep:
  assumes rep: "bq_rep q (xs @ [x])" and unwrapped: "unat (bq_start q) + length xs < unat (bq_cap q)"
  shows "\<exists>q'. pop_bottom_item q = Some (q', Some x) \<and> pop_bottom q = Some (q', True) \<and>
    bq_rep q' xs \<and> bq_cap q' = bq_cap q"
proof -
  have ok: "bq_ok q" and c: "unat (bq_count q) = Suc (length xs)"
    and v: "view q = map Some (xs @ [x]) @ replicate (unat (bq_cap q) - Suc (length xs)) None"
    using rep by (auto simp: bq_rep_def)
  have less: "length xs < unat (bq_cap q)" using bq_rep_length [OF rep] by simp
  let ?q = "q\<lparr>bq_count := bq_count q - 1\<rparr>"
  have cnt: "unat (bq_count q - 1) = length xs"
    using c bq_rep_count_zero [OF rep] by (simp add: unat_minus_one)
  have idx: "unat (bq_start q) + length xs = slot_at ?q (length xs)"
    using unwrapped by (simp add: slot_at_def)
  have rd: "read_slot (unat (bq_start q) + length xs) ?q = Some x"
    using read_slot_view [of ?q "length xs"] ok less unfolding idx by (simp add: v nth_append)
  let ?p = "put (unat (bq_start q) + length xs) None ?q"
  have "view ?p = map Some xs @ replicate (unat (bq_cap q) - length xs) None"
    using view_put [of ?q "length xs" None] ok less unfolding idx
    by (simp add: v list_update_append Suc_diff_Suc flip: replicate_Suc)
  then have "bq_rep ?p xs" using ok cnt by (simp add: bq_rep_def)
  then show ?thesis
    using bq_rep_count_zero [OF rep] destroy_slot_put [OF rd] rd cnt
    by (simp add: pop_bottom_item_def pop_bottom_def)
qed

text \<open>
  Once the items wrap, the address computed lies past the capacity: with storage of exactly
  \<open>_cap\<close> slots, as every constructor call of the program makes it, the access is out of bounds.
\<close>

lemma pop_bottom_wrapped_fault:
  assumes rep: "bq_rep q (xs @ [x])" and wrapped: "unat (bq_cap q) \<le> unat (bq_start q) + length xs"
    and mem: "bq_items q = Some mem" "length mem = unat (bq_cap q)"
  shows "pop_bottom q = None" and "pop_bottom_item q = None"
proof -
  have c: "unat (bq_count q) = Suc (length xs)" using rep by (auto simp: bq_rep_def)
  have cnt: "unat (bq_count q - 1) = length xs"
    using c bq_rep_count_zero [OF rep] by (simp add: unat_minus_one)
  have "read_slot (unat (bq_start q) + length xs) (q\<lparr>bq_count := bq_count q - 1\<rparr>) = None"
    using mem wrapped by (simp add: read_slot_def)
  then show "pop_bottom q = None" and "pop_bottom_item q = None"
    using bq_rep_count_zero [OF rep] cnt
    by (simp_all add: pop_bottom_def pop_bottom_item_def destroy_slot_def)
qed

section \<open>Clearing, construction\<close>

lemma clear_loop_step:
  assumes ok: "bq_ok q" and cap: "bq_cap q \<noteq> 0" and i: "i < bq_count q"
    and le: "unat (bq_count q) \<le> unat (bq_cap q)" and live: "view q ! unat i \<noteq> None"
  shows "clear_loop i q = clear_loop (i + 1) (put (slot_at q (unat i)) None q)"
proof -
  have ic: "unat i < unat (bq_count q)" using i by (simp add: word_less_nat_alt)
  then have "unat (bq_start q) + unat i < 2 ^ 32"
    using bq_ok_start [OF ok cap] ok le by (simp add: bq_ok_def)
  then have "unat (bq_start q + i) = unat (bq_start q) + unat i"
    by (subst unat_add_lem [THEN iffD1]) simp_all
  then have "unat ((bq_start q + i) mod bq_cap q) = slot_at q (unat i)"
    by (simp add: unat_mod_distrib slot_at_def)
  moreover obtain x where "read_slot (slot_at q (unat i)) q = Some x"
    using read_slot_view [OF ok, of "unat i"] ic le live by auto
  ultimately show ?thesis
    using i cap by (subst clear_loop.simps) (simp add: mod_u32_returns destroy_slot_put)
qed

lemma clear_loop_rep:
  "bq_ok q \<Longrightarrow> unat i + length xs = unat (bq_count q) \<Longrightarrow> unat (bq_count q) \<le> unat (bq_cap q) \<Longrightarrow>
   view q = replicate (unat i) None @ map Some xs @ replicate (unat (bq_cap q) - unat (bq_count q)) None \<Longrightarrow>
   \<exists>q'. clear_loop i q = Some q' \<and> bq_ok q' \<and> view q' = replicate (unat (bq_cap q)) None \<and>
     bq_cap q' = bq_cap q \<and> bq_ownership q' = bq_ownership q"
proof (induction xs arbitrary: i q)
  case Nil
  then have "\<not> i < bq_count q" by (simp add: word_less_nat_alt)
  with Nil show ?case by (subst clear_loop.simps) (simp flip: replicate_add)
next
  case (Cons x xs)
  have lt: "unat i < unat (bq_count q)" using Cons.prems(2) by simp
  then have i: "i < bq_count q" by (simp add: word_less_nat_alt)
  have cap: "bq_cap q \<noteq> 0" using lt Cons.prems(3) by auto
  let ?q = "put (slot_at q (unat i)) None q"
  have eq: "clear_loop i q = clear_loop (i + 1) ?q"
    using Cons.prems by (intro clear_loop_step cap i) (simp_all add: nth_append)
  have "unat i + 1 < 2 ^ 32" using lt Cons.prems(1,3) by (simp add: bq_ok_def)
  then have i1: "unat (i + 1) = Suc (unat i)"
    by (subst unat_add_lem [THEN iffD1]) simp_all
  have "view ?q = replicate (Suc (unat i)) None @ map Some xs @
      replicate (unat (bq_cap q) - unat (bq_count q)) None"
    using view_put [OF Cons.prems(1), of "unat i" None] lt Cons.prems(3,4)
    by (simp add: list_update_append replicate_append_same flip: replicate_Suc)
  then have "\<exists>q'. clear_loop (i + 1) ?q = Some q' \<and> bq_ok q' \<and>
      view q' = replicate (unat (bq_cap ?q)) None \<and> bq_cap q' = bq_cap ?q \<and> bq_ownership q' = bq_ownership ?q"
    using Cons.prems(1-3) i1 by (intro Cons.IH) simp_all
  then show ?case by (simp add: eq)
qed

lemma clear_rep:
  assumes rep: "bq_rep q xs"
  shows "\<exists>q'. clear q = Some q' \<and> bq_rep q' [] \<and> bq_cap q' = bq_cap q"
proof -
  have "\<exists>q'. clear_loop 0 q = Some q' \<and> bq_ok q' \<and> view q' = replicate (unat (bq_cap q)) None \<and>
     bq_cap q' = bq_cap q \<and> bq_ownership q' = bq_ownership q"
    using rep bq_rep_length [OF rep] by (intro clear_loop_rep [of _ _ xs]) (auto simp: bq_rep_def)
  then obtain q' where q': "clear_loop 0 q = Some q'" "bq_ok q'"
    "view q' = replicate (unat (bq_cap q)) None" "bq_cap q' = bq_cap q" by auto
  have "set (slots q') = set (view q')" by (simp add: view_def)
  then have "slots q' = replicate (unat (bq_cap q)) None"
    using q' by (intro replicate_eqI) (auto simp: bq_ok_def split: if_splits)
  then have "bq_rep (q'\<lparr>bq_count := 0, bq_start := 0\<rparr>) []"
    using q' by (simp add: bq_rep_def bq_ok_def view_def word_gt_0)
  then show ?thesis using q' by (simp add: clear_def)
qed

lemma default_rep: "bq_rep BoundedQueue_default []"
  by (simp add: bq_rep_def bq_ok_def BoundedQueue_default_def slots_def view_def)

lemma BoundedQueue_mem_rep:
  assumes "memsize div sz = n" and "n \<le> 2 ^ 31"
  shows "bq_rep (BoundedQueue_mem sz (Some (replicate n None)) memsize own) []"
    and "unat (bq_cap (BoundedQueue_mem sz (Some (replicate n None)) memsize own)) = n"
proof -
  show "unat (bq_cap (BoundedQueue_mem sz (Some (replicate n None)) memsize own)) = n"
    using assms by (simp add: BoundedQueue_mem_def unat_less_of_nat_bound)
  with assms(2) show "bq_rep (BoundedQueue_mem sz (Some (replicate n None)) memsize own) []"
    by (auto simp: bq_rep_def bq_ok_def slots_def view_def word_gt_0)
      (simp_all add: BoundedQueue_mem_def word_gt_0)
qed

section \<open>The contract of a bounded sample buffer\<close>

text \<open>
  What the sampler needs of its buffer: adding an item to a full buffer evicts the oldest one,
  and the \<open>i\<close>-th item from the bottom can be read. \<open>window\<close> is the consequence the sampler
  rests on: after any number of additions the buffer holds the latest items that fit.
\<close>

locale sample_buffer =
  fixes rep :: "'q \<Rightarrow> 'a list \<Rightarrow> bool"
    and cap :: "'q \<Rightarrow> nat"
    and add :: "'a \<Rightarrow> 'q \<Rightarrow> 'q option"
    and put_bottom :: "'a \<Rightarrow> 'q \<Rightarrow> ('q \<times> bool) option"
    and take_top :: "'q \<Rightarrow> ('q \<times> 'a option) option"
  assumes bounded: "rep q xs \<Longrightarrow> length xs \<le> cap q"
    and add: "rep q xs \<Longrightarrow> 0 < cap q \<Longrightarrow> \<exists>q'. add x q = Some q' \<and> cap q' = cap q \<and>
      rep q' (if length xs < cap q then xs @ [x] else tl xs @ [x])"
    and put_bottom: "rep q xs \<Longrightarrow> length xs < cap q \<Longrightarrow>
      \<exists>q'. put_bottom x q = Some (q', True) \<and> rep q' (xs @ [x]) \<and> cap q' = cap q"
    and take_top: "rep q (x # xs) \<Longrightarrow>
      \<exists>q'. take_top q = Some (q', Some x) \<and> rep q' xs \<and> cap q' = cap q"
    and take_none: "rep q [] \<Longrightarrow> take_top q = Some (q, None)"
begin

lemma add_lastn: "rep q xs \<Longrightarrow> 0 < cap q \<Longrightarrow>
    \<exists>q'. add x q = Some q' \<and> cap q' = cap q \<and> rep q' (lastn (cap q) (xs @ [x]))"
proof -
  assume r: "rep q xs" and c: "0 < cap q"
  have "(if length xs < cap q then xs @ [x] else tl xs @ [x]) = lastn (cap q) (xs @ [x])"
    using bounded [OF r] c by (auto simp: lastn_def drop_Suc not_less Suc_diff_le)
  with add [OF r c, of x] show ?thesis by metis
qed

lemma window: "rep q xs \<Longrightarrow> 0 < cap q \<Longrightarrow>
    \<exists>q'. foldM add vs q = Some q' \<and> cap q' = cap q \<and> rep q' (lastn (cap q) (xs @ vs))"
proof (induction vs arbitrary: q xs)
  case Nil
  then show ?case using bounded [OF Nil(1)] by simp
next
  case (Cons v vs)
  obtain q1 where q1: "add v q = Some q1" "cap q1 = cap q" "rep q1 (lastn (cap q) (xs @ [v]))"
    using add_lastn [OF Cons.prems, of v] by auto
  with Cons.IH [of q1 "lastn (cap q) (xs @ [v])"] Cons.prems(2) show ?case
    by (simp add: lastn_lastn_append)
qed

end

interpretation bq: sample_buffer bq_rep "\<lambda>q. unat (bq_cap q)" elim_push push pop_item
proof unfold_locales
  fix q :: "'a BoundedQueue" and x xs
  show "bq_rep q xs \<Longrightarrow> length xs \<le> unat (bq_cap q)" by (rule bq_rep_length)
  show "bq_rep q xs \<Longrightarrow> 0 < unat (bq_cap q) \<Longrightarrow>
      \<exists>q'. elim_push x q = Some q' \<and> unat (bq_cap q') = unat (bq_cap q) \<and>
        bq_rep q' (if length xs < unat (bq_cap q) then xs @ [x] else tl xs @ [x])"
    using elim_push_rep [of q xs x] by (metis unat_0 less_irrefl)
  show "bq_rep q xs \<Longrightarrow> length xs < unat (bq_cap q) \<Longrightarrow>
      \<exists>q'. push x q = Some (q', True) \<and> bq_rep q' (xs @ [x]) \<and> unat (bq_cap q') = unat (bq_cap q)"
    using push_room [of q xs x] by metis
  show "bq_rep q (x # xs) \<Longrightarrow>
      \<exists>q'. pop_item q = Some (q', Some x) \<and> bq_rep q' xs \<and> unat (bq_cap q') = unat (bq_cap q)"
    using pop_item_rep [of q x xs] by metis
  show "bq_rep q [] \<Longrightarrow> pop_item q = Some (q, None)" by (rule pop_item_empty)
qed

section \<open>Properties\<close>

text \<open>
  C19. A queue constructed over storage for \<open>n\<close> items (\<open>1 <= n <= 2^31\<close>) keeps, after any number
  of \<open>elim_push\<close> calls, exactly the latest \<open>n\<close> items in order; no access leaves the storage and
  every \<open>_mod\<close> loop returns.
\<close>

theorem elim_push_keeps_latest:
  assumes "memsize div sz = n" and "0 < n" and "n \<le> 2 ^ 31"
  shows "\<exists>q. foldM elim_push vs (BoundedQueue_mem sz (Some (replicate n None)) memsize own) = Some q \<and>
    bq_rep q (lastn n vs)"
proof -
  let ?q = "BoundedQueue_mem sz (Some (replicate n None)) memsize own"
  have "bq_rep ?q []" and cap: "unat (bq_cap ?q) = n"
    using assms(1,3) by (rule BoundedQueue_mem_rep)+
  from bq.window [OF this(1), of vs] assms(2) show ?thesis by (auto simp: cap)
qed

theorem elim_push_keeps_latest_witness:
  "\<exists>q. foldM elim_push [1, 2, 3 :: nat] (BoundedQueue_mem 8 (Some (replicate 2 None)) 16 OWNS_STORAGE) = Some q \<and>
    bq_rep q [2, 3]"
  using elim_push_keeps_latest [of 16 8 2 "[1, 2, 3 :: nat]" OWNS_STORAGE]
  by (simp add: lastn_def)

text \<open>
  C22. Random access: on a well-formed queue \<open>bottom(index)\<close> returns the address of a live slot
  holding the \<open>index\<close>-th newest item, or null exactly when \<open>index\<close> is out of range;
  \<open>top(index)\<close> likewise counts from the oldest item.
\<close>

theorem bottom_top_address_items:
  assumes "bq_rep q xs"
  shows "(if unat i < length xs
     then bottom_at i q = Some (Some (slot_at q (length xs - Suc (unat i)))) \<and>
          read_slot (slot_at q (length xs - Suc (unat i))) q = Some (rev xs ! unat i) \<and>
          top_at i q = Some (Some (slot_at q (unat i))) \<and>
          read_slot (slot_at q (unat i)) q = Some (xs ! unat i)
     else bottom_at i q = Some None \<and> top_at i q = Some None)"
  using bottom_at_rep [OF assms, of i] top_at_rep [OF assms, of i]
    read_slot_rep [OF assms, of "unat i"] read_slot_rep [OF assms, of "length xs - Suc (unat i)"]
  by (simp add: rev_nth)

definition sample_queue :: "nat BoundedQueue" where
  "sample_queue = \<lparr>bq_count = 3, bq_cap = 3, bq_start = 2, bq_ownership = OWNS_STORAGE,
     bq_items = Some [Some 20, Some 30, Some 10]\<rparr>"

lemma sample_queue_rep: "bq_rep sample_queue [10, 20, 30]"
  by (simp add: sample_queue_def bq_rep_def bq_ok_def slots_def view_def rotate_drop_take)

theorem bottom_top_address_items_witness:
  "bottom_at 0 sample_queue = Some (Some 1) \<and> read_slot 1 sample_queue = Some 30"
  using bottom_top_address_items [OF sample_queue_rep, of 0]
  by (simp add: slot_at_def sample_queue_def)

text \<open>
  C21. The deque discipline: pushing at the bottom or the top and popping from the top act as the
  list operations, and report \<open>false\<close> exactly on a full or an empty queue.
\<close>

theorem push_pop_refine_list:
  assumes "bq_rep q xs"
  shows "(if length xs < unat (bq_cap q)
      then (\<exists>q'. push x q = Some (q', True) \<and> bq_rep q' (xs @ [x])) \<and>
           (\<exists>q'. push_top x q = Some (q', True) \<and> bq_rep q' (x # xs))
      else push x q = Some (q, False) \<and> push_top x q = Some (q, False)) \<and>
    (case xs of [] \<Rightarrow> pop_item q = Some (q, None)
     | y # ys \<Rightarrow> \<exists>q'. pop_item q = Some (q', Some y) \<and> bq_rep q' ys)"
proof -
  have "case xs of [] \<Rightarrow> pop_item q = Some (q, None)
      | y # ys \<Rightarrow> \<exists>q'. pop_item q = Some (q', Some y) \<and> bq_rep q' ys"
    using assms pop_item_empty [of q] pop_item_rep [of q] by (cases xs) auto
  moreover have "if length xs < unat (bq_cap q)
      then (\<exists>q'. push x q = Some (q', True) \<and> bq_rep q' (xs @ [x])) \<and>
           (\<exists>q'. push_top x q = Some (q', True) \<and> bq_rep q' (x # xs))
      else push x q = Some (q, False) \<and> push_top x q = Some (q, False)"
  proof (cases "length xs < unat (bq_cap q)")
    case True
    then show ?thesis using push_room [OF assms True, of x] push_top_rep [OF assms True, of x] by auto
  next
    case False
    then show ?thesis
      by (simp add: push_def push_top_def bq_rep_count_less [OF assms])
  qed
  ultimately show ?thesis by blast
qed

theorem push_pop_refine_list_witness:
  "\<exists>q'. pop_item sample_queue = Some (q', Some 10) \<and> bq_rep q' [20, 30]"
  using push_pop_refine_list [OF sample_queue_rep, of 0] by simp

text \<open>
  C30. The bottom-side pops skip \<open>_mod\<close>. On every well-formed queue whose live items wrap around the
  end of its storage they access memory out of bounds; where the items do not wrap they remove
  the newest item.
\<close>

theorem pop_bottom_correct_iff_unwrapped:
  assumes "bq_rep q (xs @ [x])" and "bq_items q = Some mem" and "length mem = unat (bq_cap q)"
  shows "(if unat (bq_start q) + length xs < unat (bq_cap q)
      then \<exists>q'. pop_bottom_item q = Some (q', Some x) \<and> bq_rep q' xs
      else pop_bottom_item q = None \<and> pop_bottom q = None)"
  using pop_bottom_rep [OF assms(1)] pop_bottom_wrapped_fault [OF assms(1) _ assms(2,3)]
  by (auto simp: not_less)

theorem pop_bottom_correct_iff_unwrapped_witness:
  "pop_bottom_item sample_queue = None \<and> pop_bottom sample_queue = None"
  using pop_bottom_correct_iff_unwrapped [of sample_queue "[10, 20]" 30 "[Some 20, Some 30, Some 10]"]
    sample_queue_rep by (simp add: sample_queue_def)

end
