(* ===== verification/Murmur_Hash.thy ===== *)
theory Murmur_Hash
  imports Prelude
begin

text \<open>
  The hash functions: \<^verbatim>\<open>src/common/murmurhash3.cpp\<close> (MurmurHash3, 32 bit), \<open>Util::fmix64\<close> of
  \<^verbatim>\<open>src/common/common.cpp\<close> (hash of a mutex address) and \<open>SampledContention::hash_code\<close> of
  \<^verbatim>\<open>src/collector.h\<close> (hash of a call stack). Memory is a list of bytes, read little-endian.
\<close>

section \<open>The functions\<close>

definition rotl32 :: "u32 \<Rightarrow> nat \<Rightarrow> u32" where
  "rotl32 x r = push_bit r x OR drop_bit (32 - r) x"

definition fmix32 :: "u32 \<Rightarrow> u32" where
  "fmix32 h =
     (let h = h XOR drop_bit 16 h;
          h = h * 0x85ebca6b;
          h = h XOR drop_bit 13 h;
          h = h * 0xc2b2ae35;
          h = h XOR drop_bit 16 h
      in h)"

definition fmix64 :: "u64 \<Rightarrow> u64" where
  "fmix64 k =
     (let k = k XOR drop_bit 33 k;
          k = k * 0xff51afd7ed558ccd;
          k = k XOR drop_bit 33 k;
          k = k * 0xc4ceb9fe1a85ec53;
          k = k XOR drop_bit 33 k
      in k)"

text \<open>
  \<open>getblock32\<close> reads the block with number \<open>i\<close> of the key. The code counts the blocks with a
  negative index from their end; \<open>body\<close> counts the same index up to zero (\<open>Suc m\<close> stands for
  \<open>i = - (m + 1)\<close>).
\<close>

definition getblock32 :: "u8 list \<Rightarrow> nat \<Rightarrow> u32" where
  "getblock32 data i =
     ucast (data ! (4 * i)) OR push_bit 8 (ucast (data ! (4 * i + 1))) OR
     push_bit 16 (ucast (data ! (4 * i + 2))) OR push_bit 24 (ucast (data ! (4 * i + 3)))"

definition mix_k1 :: "u32 \<Rightarrow> u32" where
  "mix_k1 k1 =
     (let k1 = k1 * 0xcc9e2d51;
          k1 = rotl32 k1 15
      in k1 * 0x1b873593)"

definition mix_h1 :: "u32 \<Rightarrow> u32 \<Rightarrow> u32" where
  "mix_h1 k1 h1 =
     (let h1 = h1 XOR k1;
          h1 = rotl32 h1 13
      in h1 * 5 + 0xe6546b64)"

fun body :: "u8 list \<Rightarrow> nat \<Rightarrow> nat \<Rightarrow> u32 \<Rightarrow> u32" where
  "body data nblocks 0 h1 = h1"
| "body data nblocks (Suc m) h1 =
     body data nblocks m (mix_h1 (mix_k1 (getblock32 data (nblocks - Suc m))) h1)"

text \<open>The \<open>switch\<close> falls through from 3 to 1; for 0 it does nothing.\<close>

definition tail_k1 :: "u8 list \<Rightarrow> nat \<Rightarrow> u32" where
  "tail_k1 tail n =
     (let k1 = (0 :: u32);
          k1 = (if n \<ge> 3 then k1 XOR push_bit 16 (ucast (tail ! 2)) else k1);
          k1 = (if n \<ge> 2 then k1 XOR push_bit 8 (ucast (tail ! 1)) else k1)
      in k1 XOR ucast (tail ! 0))"

definition MurmurHash3_x86_32 :: "u8 list \<Rightarrow> u32 \<Rightarrow> u32" where
  "MurmurHash3_x86_32 key seed =
     (let len = length key;
          nblocks = len div 4;
          h1 = body key nblocks nblocks seed;
          tail = drop (nblocks * 4) key;
          h1 = (if len mod 4 \<ge> 1 then h1 XOR mix_k1 (tail_k1 tail (len mod 4)) else h1);
          h1 = h1 XOR of_nat len
      in fmix32 h1)"

text \<open>The bytes of an array of 64-bit pointers on a little-endian machine.\<close>

definition ptr_bytes :: "u64 \<Rightarrow> u8 list" where
  "ptr_bytes p = map (\<lambda>i. ucast (drop_bit (8 * i) p)) [0..<8]"

definition hash_code :: "nat \<Rightarrow> u64 list \<Rightarrow> u64" where
  "hash_code frames_count stack =
     (if frames_count = 0 then 0
      else ucast (MurmurHash3_x86_32 (concat (map ptr_bytes (take frames_count stack)))
             (of_nat frames_count)))"

section \<open>Each step is reversible\<close>

lemma rotl32_rotl32:
  assumes "0 < r" and "r < 32"
  shows "rotl32 (rotl32 x r) (32 - r) = x"
proof (rule bit_word_eqI)
  fix n assume n: "n < LENGTH(32)"
  show "bit (rotl32 (rotl32 x r) (32 - r)) n = bit x n"
    using assms n by (auto simp: rotl32_def bit_or_iff bit_push_bit_iff bit_drop_bit_eq
        dest: bit_imp_le_length)
qed

interpretation rotl15: reversible "\<lambda>x. rotl32 x 15" "\<lambda>x. rotl32 x 17"
  using rotl32_rotl32 [of 15] rotl32_rotl32 [of 17] by unfold_locales simp_all

interpretation rotl13: reversible "\<lambda>x. rotl32 x 13" "\<lambda>x. rotl32 x 19"
  using rotl32_rotl32 [of 13] rotl32_rotl32 [of 19] by unfold_locales simp_all

definition unfmix32 :: "u32 \<Rightarrow> u32" where
  "unfmix32 h = xorshr 16 (0xa5cb9243 * xorshr 26 (xorshr 13 (0x7ed1b41d * xorshr 16 h)))"

definition unfmix64 :: "u64 \<Rightarrow> u64" where
  "unfmix64 k = xorshr 33 (0x4f74430c22a54005 * xorshr 33 (0x9cb4b2f8129337db * xorshr 33 k))"

lemma fmix32_steps: "fmix32 h = xorshr 16 (0xc2b2ae35 * xorshr 13 (0x85ebca6b * xorshr 16 h))"
  by (simp add: fmix32_def xorshr_def Let_def mult.commute)

lemma fmix64_steps: "fmix64 k =
    xorshr 33 (0xc4ceb9fe1a85ec53 * xorshr 33 (0xff51afd7ed558ccd * xorshr 33 k))"
  by (simp add: fmix64_def xorshr_def Let_def mult.commute)

text \<open>Each multiplier with its inverse modulo the word size.\<close>

lemma mult_inverses32:
  "0xa5cb9243 * (0x85ebca6b * x) = (x :: u32)" "0x85ebca6b * (0xa5cb9243 * x) = x"
  "0x7ed1b41d * (0xc2b2ae35 * x) = x" "0xc2b2ae35 * (0x7ed1b41d * x) = x"
  "0xdee13bb1 * (0xcc9e2d51 * x) = x" "0xcc9e2d51 * (0xdee13bb1 * x) = x"
  "0x56ed309b * (0x1b873593 * x) = x" "0x1b873593 * (0x56ed309b * x) = x"
  "0xcccccccd * (5 * x) = x"
  by (rule mult_cancel_inverse, simp)+

lemma mult_inverses64:
  "0x4f74430c22a54005 * (0xff51afd7ed558ccd * x) = (x :: u64)"
  "0xff51afd7ed558ccd * (0x4f74430c22a54005 * x) = x"
  "0x9cb4b2f8129337db * (0xc4ceb9fe1a85ec53 * x) = x"
  "0xc4ceb9fe1a85ec53 * (0x9cb4b2f8129337db * x) = x"
  by (rule mult_cancel_inverse, simp)+

interpretation fmix32: reversible fmix32 unfmix32
proof
  have xs16: "xorshr 16 (xorshr 16 x) = x" for x :: u32
    by (simp add: xorshr_xorshr xorshr_id)
  have xs26: "xorshr 26 (xorshr 13 (xorshr 13 x)) = x" "xorshr 13 (xorshr 26 (xorshr 13 x)) = x"
    for x :: u32
  proof -
    show "xorshr 26 (xorshr 13 (xorshr 13 x)) = x" by (simp add: xorshr_xorshr xorshr_id)
    then show "xorshr 13 (xorshr 26 (xorshr 13 x)) = x" by (simp only: xorshr_commute [of 13 26])
  qed
  show "unfmix32 (fmix32 x) = x" for x
    by (simp only: fmix32_steps unfmix32_def xs16 xs26 mult_inverses32)
  show "fmix32 (unfmix32 x) = x" for x
    by (simp only: fmix32_steps unfmix32_def xs16 xs26 mult_inverses32)
qed

interpretation fmix64: reversible fmix64 unfmix64
proof
  have xs33: "xorshr 33 (xorshr 33 x) = x" for x :: u64
    by (simp add: xorshr_xorshr xorshr_id)
  show "unfmix64 (fmix64 x) = x" for x
    by (simp only: fmix64_steps unfmix64_def xs33 mult_inverses64)
  show "fmix64 (unfmix64 x) = x" for x
    by (simp only: fmix64_steps unfmix64_def xs33 mult_inverses64)
qed

lemma mix_k1_steps: "mix_k1 k = 0x1b873593 * rotl32 (0xcc9e2d51 * k) 15"
  by (simp add: mix_k1_def Let_def mult.commute)

interpretation mix_k1: reversible mix_k1 "\<lambda>k. 0xdee13bb1 * rotl32 (0x56ed309b * k) 17"
  by unfold_locales
    (simp_all only: mix_k1_steps mult_inverses32 rotl15.unmix_mix rotl15.mix_unmix)

lemma mult5_eq_iff: "5 * x = 5 * y \<longleftrightarrow> x = (y :: u32)"
proof
  assume "5 * x = 5 * y"
  then have "0xcccccccd * (5 * x) = 0xcccccccd * (5 * y)" by (simp only:)
  then show "x = y" by (simp only: mult_inverses32)
qed simp

lemma mix_h1_eq_iff: "mix_h1 k h = mix_h1 k' h' \<longleftrightarrow> h XOR k = h' XOR k'"
  by (simp add: mix_h1_def Let_def mult.commute [of _ 5] mult5_eq_iff rotl13.mix_eq_iff)

lemma xor_left_eq_iff: "h XOR k = h XOR k' \<longleftrightarrow> k = (k' :: 'a :: len word)"
  by (metis xor.assoc xor_self_eq xor.left_neutral)

lemma xor_right_eq_iff: "h XOR k = h' XOR k \<longleftrightarrow> h = (h' :: 'a :: len word)"
  by (metis xor.assoc xor_self_eq xor.right_neutral)

section \<open>Differences survive\<close>

lemma body_eq_iff_seed: "body data n m h = body data n m h' \<longleftrightarrow> h = h'"
  by (induction m arbitrary: h h') (simp_all add: mix_h1_eq_iff xor_right_eq_iff)

lemma body_cong:
  "(\<And>i. n - m \<le> i \<Longrightarrow> i < n \<Longrightarrow> getblock32 data i = getblock32 data' i) \<Longrightarrow> m \<le> n \<Longrightarrow>
   body data n m h = body data' n m h"
proof (induction m arbitrary: h)
  case (Suc m)
  have "getblock32 data (n - Suc m) = getblock32 data' (n - Suc m)"
    using Suc.prems by (intro Suc.prems(1)) auto
  with Suc show ?case by simp
qed simp

lemma body_split: "a \<le> m \<Longrightarrow> m \<le> n \<Longrightarrow> \<exists>h'. body data n m h = body data n (m - a) h' \<and>
    (\<forall>data'. (\<forall>i. n - m \<le> i \<longrightarrow> i < n - m + a \<longrightarrow> getblock32 data i = getblock32 data' i) \<longrightarrow>
       body data' n m h = body data' n (m - a) h')"
proof (induction a arbitrary: m h)
  case (Suc a)
  then obtain k where m: "m = Suc k" "a \<le> k" "k \<le> n" by (cases m) auto
  obtain h' where h': "body data n k (mix_h1 (mix_k1 (getblock32 data (n - m))) h) = body data n (k - a) h'"
    "\<forall>data'. (\<forall>i. n - k \<le> i \<longrightarrow> i < n - k + a \<longrightarrow> getblock32 data i = getblock32 data' i) \<longrightarrow>
       body data' n k (mix_h1 (mix_k1 (getblock32 data (n - m))) h) = body data' n (k - a) h'"
    using Suc.IH [of k "mix_h1 (mix_k1 (getblock32 data (n - m))) h"] m by blast
  show ?case
  proof (intro exI conjI allI impI)
    show "body data n m h = body data n (m - Suc a) h'" using h'(1) by (simp add: m)
    fix data' assume eq: "\<forall>i. n - m \<le> i \<longrightarrow> i < n - m + Suc a \<longrightarrow> getblock32 data i = getblock32 data' i"
    have "getblock32 data (n - m) = getblock32 data' (n - m)" using eq by simp
    moreover have "n - k = Suc (n - m)" using m Suc.prems by simp
    with eq have "\<forall>i. n - k \<le> i \<longrightarrow> i < n - k + a \<longrightarrow> getblock32 data i = getblock32 data' i" by simp
    ultimately show "body data' n m h = body data' n (m - Suc a) h'" using h'(2) by (simp add: m)
  qed
qed auto

lemma body_differs:
  assumes b: "b < n" and same: "\<forall>i<n. i \<noteq> b \<longrightarrow> getblock32 data i = getblock32 data' i"
    and diff: "getblock32 data b \<noteq> getblock32 data' b"
  shows "body data n n h \<noteq> body data' n n h"
proof -
  obtain h' where h': "body data n n h = body data n (n - b) h'"
    "body data' n n h = body data' n (n - b) h'"
    using body_split [of b n n data h] b same by (metis add_cancel_left_left diff_self_eq_0 less_imp_le less_trans nat_neq_iff order_refl)
  obtain m where m: "n - b = Suc m" using b by (cases "n - b") auto
  then have idx: "n - Suc m = b" "\<And>i. n - m \<le> i \<Longrightarrow> i \<noteq> b" using b by auto
  have "body data n m x = body data' n m x" for x
    using same idx b m by (intro body_cong) auto
  then show ?thesis
    using diff by (simp add: h' m idx body_eq_iff_seed mix_h1_eq_iff xor_left_eq_iff mix_k1.mix_eq_iff)
qed

text \<open>The four bytes of a block can be read back from it.\<close>

lemma getblock32_bytes:
  "ucast (getblock32 data i) = data ! (4 * i)"
  "ucast (drop_bit 8 (getblock32 data i)) = data ! (4 * i + 1)"
  "ucast (drop_bit 16 (getblock32 data i)) = data ! (4 * i + 2)"
  "ucast (drop_bit 24 (getblock32 data i)) = data ! (4 * i + 3)"
  by (rule bit_word_eqI; auto simp: getblock32_def bit_simps dest: bit_imp_le_length)+

lemma getblock32_eq_iff:
  "getblock32 data i = getblock32 data' i \<longleftrightarrow> (\<forall>j<4. data ! (4 * i + j) = data' ! (4 * i + j))"
proof
  assume "getblock32 data i = getblock32 data' i"
  then have "data ! (4 * i + j) = data' ! (4 * i + j)" if "j \<in> {0, 1, 2, 3}" for j
    using that getblock32_bytes [of data i] getblock32_bytes [of data' i] by (auto simp: insert_iff)
  moreover have "j \<in> {0, 1, 2, 3}" if "j < 4" for j :: nat using that by auto
  ultimately show "\<forall>j<4. data ! (4 * i + j) = data' ! (4 * i + j)" by blast
next
  assume eq: "\<forall>j<4. data ! (4 * i + j) = data' ! (4 * i + j)"
  have "data ! (4 * i) = data' ! (4 * i)" using eq [rule_format, of 0] by simp
  moreover have "data ! (4 * i + 1) = data' ! (4 * i + 1)" using eq [rule_format, of 1] by simp
  moreover have "data ! (4 * i + 2) = data' ! (4 * i + 2)" using eq [rule_format, of 2] by simp
  moreover have "data ! (4 * i + 3) = data' ! (4 * i + 3)" using eq [rule_format, of 3] by simp
  ultimately show "getblock32 data i = getblock32 data' i" by (simp only: getblock32_def)
qed

section \<open>Properties\<close>

text \<open>
  The mutex hash \<open>fmix64\<close> is a bijection on 64-bit addresses: two mutexes collide in the
  contention map only through the reduction to the table size.
\<close>

theorem fmix64_bijective: "bij fmix64 \<and> unfmix64 (fmix64 x) = x"
  using fmix64.bij_mix fmix64.unmix_mix by blast

text \<open>
  C28. MurmurHash3 separates keys of equal length that differ inside a single aligned 4-byte block,
  whatever the seed.
\<close>

theorem murmur_separates_one_block:
  assumes len: "length key = length key'" and b: "b < length key div 4"
    and same: "\<forall>i < length key. i div 4 \<noteq> b \<longrightarrow> key ! i = key' ! i"
    and diff: "j < 4" "key ! (4 * b + j) \<noteq> key' ! (4 * b + j)"
  shows "MurmurHash3_x86_32 key seed \<noteq> MurmurHash3_x86_32 key' seed"
proof -
  let ?n = "length key div 4"
  have "\<forall>i<?n. i \<noteq> b \<longrightarrow> getblock32 key i = getblock32 key' i"
    using same by (auto simp: getblock32_eq_iff)
  moreover have "getblock32 key b \<noteq> getblock32 key' b" using diff by (auto simp: getblock32_eq_iff)
  ultimately have "body key ?n ?n seed \<noteq> body key' ?n ?n seed" using b by (intro body_differs)
  moreover have "drop (?n * 4) key = drop (?n * 4) key'"
  proof (rule nth_equalityI)
    fix i assume "i < length (drop (?n * 4) key)"
    then have "?n * 4 + i < length key" "(?n * 4 + i) div 4 \<noteq> b" using b by auto
    then show "drop (?n * 4) key ! i = drop (?n * 4) key' ! i"
      using same len by simp
  qed (use len in simp)
  ultimately show ?thesis
    using len by (auto simp: MurmurHash3_x86_32_def Let_def fmix32.mix_eq_iff xor_right_eq_iff)
qed

theorem murmur_separates_one_block_witness:
  "MurmurHash3_x86_32 [1, 2, 3, 4, 5] 7 \<noteq> MurmurHash3_x86_32 [1, 2, 9, 4, 5] 7"
  by (rule murmur_separates_one_block [of _ _ 0 2])
    (auto simp: nth_Cons' split: if_splits)

text \<open>
  For a fixed key the hash is injective in the seed (the seed is the number of frames of the
  stack), and the published test vectors of the function come out.
\<close>

theorem murmur_seed_injective:
  "(MurmurHash3_x86_32 key s = MurmurHash3_x86_32 key s' \<longleftrightarrow> s = s') \<and>
   MurmurHash3_x86_32 [] 1 = 0x514E28B7 \<and>
   MurmurHash3_x86_32 [0x74, 0x65, 0x73, 0x74] 0 = 0xba6bd213 \<and>
   MurmurHash3_x86_32 [0x21, 0x43, 0x65] 0 = 0x7E4A8634"
proof -
  have "MurmurHash3_x86_32 key s = MurmurHash3_x86_32 key s' \<longleftrightarrow> s = s'"
    by (auto simp: MurmurHash3_x86_32_def Let_def fmix32.mix_eq_iff xor_right_eq_iff body_eq_iff_seed)
  moreover have "MurmurHash3_x86_32 [] 1 = 0x514E28B7" by code_simp
  moreover have "MurmurHash3_x86_32 [0x74, 0x65, 0x73, 0x74] 0 = 0xba6bd213" by code_simp
  moreover have "MurmurHash3_x86_32 [0x21, 0x43, 0x65] 0 = 0x7E4A8634" by code_simp
  ultimately show ?thesis by blast
qed

end
