(* ===== verification/Util_Time.thy ===== *)
theory Util_Time
  imports Prelude
begin

text \<open>
  Clocks and deadlines: the time functions of \<open>Util\<close> (\<^verbatim>\<open>src/common/common.cpp\<close>) and
  \<^verbatim>\<open>src/common/time.h\<close>. What the kernel's clock returned is an argument; \<open>long\<close> arithmetic
  that would overflow is undefined (\<open>None\<close>).
\<close>

section \<open>Clocks\<close>

record timespec =
  tv_sec :: int
  tv_nsec :: int

record timeval =
  val_sec :: int
  val_usec :: int

definition get_monotonic_time_ns :: "timespec \<Rightarrow> u64" where
  "get_monotonic_time_ns now = of_int (tv_sec now) * 1000000000 + of_int (tv_nsec now)"

definition get_monotonic_time_us :: "timespec \<Rightarrow> u64" where
  "get_monotonic_time_us now = get_monotonic_time_ns now div 1000"

definition gettimeofday_us :: "timeval \<Rightarrow> int option" where
  "gettimeofday_us now = do {
     s \<leftarrow> chk_long (val_sec now * 1000000);
     chk_long (s + val_usec now) }"

section \<open>Deadlines\<close>

definition timespec_normalize :: "timespec \<Rightarrow> timespec option" where
  "timespec_normalize tm =
     (if tv_nsec tm \<ge> 1000000000 then do {
        let added_sec = c_div (tv_nsec tm) 1000000000;
        sec \<leftarrow> chk_long (tv_sec tm + added_sec);
        ns \<leftarrow> chk_long (added_sec * 1000000000);
        nsec \<leftarrow> chk_long (tv_nsec tm - ns);
        Some \<lparr>tv_sec = sec, tv_nsec = nsec\<rparr> }
      else if tv_nsec tm < 0 then do {
        low \<leftarrow> chk_long (tv_nsec tm - 999999999);
        let sub_sec = c_div low 1000000000;
        sec \<leftarrow> chk_long (tv_sec tm + sub_sec);
        ns \<leftarrow> chk_long (sub_sec * 1000000000);
        nsec \<leftarrow> chk_long (tv_nsec tm - ns);
        Some \<lparr>tv_sec = sec, tv_nsec = nsec\<rparr> }
      else Some tm)"

definition nanoseconds_from :: "timespec \<Rightarrow> int \<Rightarrow> timespec option" where
  "nanoseconds_from start_time nanoseconds = do {
     nsec \<leftarrow> chk_long (tv_nsec start_time + nanoseconds);
     timespec_normalize (start_time\<lparr>tv_nsec := nsec\<rparr>) }"

definition nanoseconds_from_now :: "timespec \<Rightarrow> int \<Rightarrow> timespec option" where
  "nanoseconds_from_now now nanoseconds = nanoseconds_from now nanoseconds"

definition microseconds_from_now :: "timespec \<Rightarrow> int \<Rightarrow> timespec option" where
  "microseconds_from_now now microseconds = do {
     ns \<leftarrow> chk_long (microseconds * 1000);
     nanoseconds_from_now now ns }"

section \<open>The memory map\<close>

text \<open>\<open>std::getline\<close>: the text up to a newline or the end; a last line that is empty is not read.\<close>

fun getline :: "string \<Rightarrow> string \<times> string" where
  "getline [] = ([], [])"
| "getline (c # cs) = (if c = CHR 0x0A then ([], cs) else (case getline cs of (line, rest) \<Rightarrow> (c # line, rest)))"

lemma length_getline: "length (snd (getline cs)) \<le> length cs - 1"
  by (induction cs) (auto split: prod.splits)

text \<open>The loop over the lines of \<^verbatim>\<open>/proc/self/maps\<close>.\<close>

function maps_loop :: "string \<Rightarrow> string" where
  "maps_loop cs = (if cs = [] then [] else (case getline cs of (line, rest) \<Rightarrow> line @ [CHR 0x0A] @ maps_loop rest))"
  by auto
termination
proof (relation "measure length")
  fix cs line rest assume "cs \<noteq> []" and "(line, rest) = getline cs"
  then show "(rest, cs) \<in> measure length"
    using length_getline [of cs] by (cases cs) (auto dest: arg_cong [of _ _ snd])
qed simp

declare maps_loop.simps [simp del]

text \<open>\<open>None\<close>: the file cannot be opened.\<close>

definition get_self_maps :: "string option \<Rightarrow> string" where
  "get_self_maps maps = (case maps of None \<Rightarrow> [] | Some cs \<Rightarrow> maps_loop cs)"

lemma getline_join:
  "getline cs = (line, rest) \<Longrightarrow> cs \<noteq> [] \<Longrightarrow> cs = line @ [CHR 0x0A] @ rest \<or> (cs = line \<and> rest = [] \<and> last cs \<noteq> CHR 0x0A)"
  by (induction cs arbitrary: line rest) (auto split: if_splits prod.splits)

text \<open>The copy is the file, with a newline added to a last line that has none.\<close>

lemma get_self_maps_copy:
  "get_self_maps (Some cs) = (if cs = [] \<or> last cs = CHR 0x0A then cs else cs @ [CHR 0x0A])"
proof (induction cs rule: maps_loop.induct)
  case (1 cs)
  show ?case
  proof (cases "cs = []")
    case False
    obtain line rest where g: "getline cs = (line, rest)" by (metis prod.exhaust)
    have IH: "maps_loop rest = (if rest = [] \<or> last rest = CHR 0x0A then rest else rest @ [CHR 0x0A])"
      using 1 [OF False g [symmetric]] by (simp add: get_self_maps_def)
    from getline_join [OF g False] show ?thesis
      using IH False by (auto simp: get_self_maps_def maps_loop.simps [of cs] g maps_loop.simps [of "[]"] split: if_splits)
  qed (simp add: get_self_maps_def maps_loop.simps)
qed

section \<open>Exactness\<close>

text \<open>The instant a \<open>timespec\<close> denotes, in nanoseconds.\<close>

definition instant :: "timespec \<Rightarrow> int" where
  "instant tm = tv_sec tm * 1000000000 + tv_nsec tm"

lemma timespec_normalize_eq:
  assumes "\<bar>tv_sec tm\<bar> \<le> 2 ^ 62" and "- (2 ^ 63) + 999999999 \<le> tv_nsec tm" and "tv_nsec tm < 2 ^ 63"
  shows "timespec_normalize tm = Some
    \<lparr>tv_sec = tv_sec tm + tv_nsec tm div 1000000000, tv_nsec = tv_nsec tm mod 1000000000\<rparr>"
proof -
  let ?q = "tv_nsec tm div 1000000000"
  have split: "tv_nsec tm - ?q * 1000000000 = tv_nsec tm mod 1000000000"
    by (simp add: minus_div_mult_eq_mod)
  have ranges: "long_range (tv_sec tm + ?q)" "long_range (?q * 1000000000)"
    "long_range (tv_nsec tm mod 1000000000)"
    using assms by (auto simp: long_range_def)
  consider "1000000000 \<le> tv_nsec tm" | "tv_nsec tm < 0" | "0 \<le> tv_nsec tm" "tv_nsec tm < 1000000000"
    by linarith
  then show ?thesis
  proof cases
    case 1
    then show ?thesis
      using ranges by (simp add: timespec_normalize_def c_div_nonneg split)
  next
    case 2
    have low: "long_range (tv_nsec tm - 999999999)" using assms 2 by (auto simp: long_range_def)
    have "c_div (tv_nsec tm - 999999999) 1000000000 = ?q"
      using 2 by (subst c_div_neg) auto
    then show ?thesis using 2 low ranges by (simp add: timespec_normalize_def split)
  next
    case 3
    then show ?thesis by (simp add: timespec_normalize_def)
  qed
qed

lemma instant_normal: "instant \<lparr>tv_sec = s + n div 1000000000, tv_nsec = n mod 1000000000\<rparr> =
    s * 1000000000 + n"
  by (simp add: instant_def algebra_simps)

section \<open>Properties\<close>

text \<open>
  C29. The deadline the grab thread sleeps to: for a valid clock reading and any delay whose
  nanoseconds fit, \<open>microseconds_from_now\<close> returns the normalized \<open>timespec\<close> that denotes
  exactly the instant that many microseconds later; no \<open>long\<close> computation overflows.
\<close>

theorem microseconds_from_now_exact:
  assumes "\<bar>tv_sec now\<bar> \<le> 2 ^ 62" and "0 \<le> tv_nsec now" and "tv_nsec now < 1000000000"
    and "\<bar>us\<bar> \<le> 2 ^ 63 div 1000 - 2000000"
  shows "\<exists>tm. microseconds_from_now now us = Some tm \<and> 0 \<le> tv_nsec tm \<and> tv_nsec tm < 1000000000 \<and>
    instant tm = instant now + us * 1000"
proof -
  have "long_range (us * 1000)" "long_range (tv_nsec now + us * 1000)"
    using assms by (auto simp: long_range_def)
  moreover have "timespec_normalize (now\<lparr>tv_nsec := tv_nsec now + us * 1000\<rparr>) = Some
      \<lparr>tv_sec = tv_sec now + (tv_nsec now + us * 1000) div 1000000000,
       tv_nsec = (tv_nsec now + us * 1000) mod 1000000000\<rparr>"
    using assms by (subst timespec_normalize_eq) auto
  ultimately have "microseconds_from_now now us = Some
      \<lparr>tv_sec = tv_sec now + (tv_nsec now + us * 1000) div 1000000000,
       tv_nsec = (tv_nsec now + us * 1000) mod 1000000000\<rparr>"
    by (simp add: microseconds_from_now_def nanoseconds_from_now_def nanoseconds_from_def)
  then show ?thesis by (simp add: instant_normal) (simp add: instant_def)
qed

theorem microseconds_from_now_exact_witness:
  "\<exists>tm. microseconds_from_now \<lparr>tv_sec = 1700000000, tv_nsec = 950000000\<rparr> 100000 = Some tm \<and>
    instant tm = 1700000001050000000"
  using microseconds_from_now_exact [of "\<lparr>tv_sec = 1700000000, tv_nsec = 950000000\<rparr>" 100000]
  by (auto simp: instant_def)

end
