(* ===== verification/Fast_Rand.thy ===== *)
theory Fast_Rand
  imports Prelude
begin

text \<open>
  \<^verbatim>\<open>src/common/fast_rand.cpp\<close> and \<^verbatim>\<open>fast_rand.h\<close>: the thread-local generator that decides which
  contentions are sampled. The thread's seed \<open>tls_seed_\<close> is passed and returned; the time that
  seeds it is an argument. Signed parameters are words read with \<open>sint\<close>; the subtraction
  \<open>max - min\<close> of \<open>fast_rand_in_64\<close> wraps (as compiled code does; the language leaves it undefined).
\<close>

section \<open>The generator\<close>

record FastRandSeed =
  s0 :: u64
  s1 :: u64

definition splitmix64_next :: "u64 \<Rightarrow> u64 \<times> u64" where
  "splitmix64_next seed =
     (let seed = seed + 0x9E3779B97F4A7C15;
          z = seed;
          z = (z XOR drop_bit 30 z) * 0xBF58476D1CE4E5B9;
          z = (z XOR drop_bit 27 z) * 0x94D049BB133111EB
      in (seed, z XOR drop_bit 31 z))"

text \<open>The local \<open>s1\<close> of the code is the old \<open>s[0]\<close> and its \<open>s0\<close> the old \<open>s[1]\<close>.\<close>

definition xorshift128_next :: "FastRandSeed \<Rightarrow> FastRandSeed \<times> u64" where
  "xorshift128_next seed =
     (let x = s0 seed;
          y = s1 seed;
          x = x XOR push_bit 23 x;
          n = x XOR y XOR drop_bit 18 x XOR drop_bit 5 y
      in (\<lparr>s0 = y, s1 = n\<rparr>, n + y))"

definition init_fast_rand_seed :: "u64 \<Rightarrow> FastRandSeed" where
  "init_fast_rand_seed now_us =
     (let (seed4seed, a) = splitmix64_next now_us;
          (seed4seed, b) = splitmix64_next seed4seed
      in \<lparr>s0 = a, s1 = b\<rparr>)"

text \<open>The rejection loop; whether it returns depends on the sequence of outputs.\<close>

partial_function (option) fast_rand_loop ::
  "u64 \<Rightarrow> u64 \<Rightarrow> FastRandSeed \<Rightarrow> (FastRandSeed \<times> u64) option" where
  "fast_rand_loop rng d seed =
     (let (seed, out) = xorshift128_next seed; result = out div d
      in if result \<ge> rng then fast_rand_loop rng d seed else Some (seed, result))"

text \<open>Division by \<open>range = 0\<close> is undefined; the callers exclude it.\<close>

definition fast_rand_impl :: "u64 \<Rightarrow> FastRandSeed \<Rightarrow> (FastRandSeed \<times> u64) option" where
  "fast_rand_impl rng seed =
     (if rng = 0 then None else fast_rand_loop rng (- 1 div rng) seed)"

definition need_init :: "FastRandSeed \<Rightarrow> bool" where
  "need_init seed \<longleftrightarrow> s0 seed = 0 \<and> s1 seed = 0"

definition init_if_needed :: "u64 \<Rightarrow> FastRandSeed \<Rightarrow> FastRandSeed" where
  "init_if_needed now_us tls = (if need_init tls then init_fast_rand_seed now_us else tls)"

definition fast_rand :: "u64 \<Rightarrow> FastRandSeed \<Rightarrow> FastRandSeed \<times> u64" where
  "fast_rand now_us tls = xorshift128_next (init_if_needed now_us tls)"

definition fast_rand_seed :: "FastRandSeed \<Rightarrow> FastRandSeed \<times> u64" where
  "fast_rand_seed seed = xorshift128_next seed"

definition fast_rand_less_than ::
  "u64 \<Rightarrow> u64 \<Rightarrow> FastRandSeed \<Rightarrow> (FastRandSeed \<times> u64) option" where
  "fast_rand_less_than rng now_us tls =
     (if rng = 0 then Some (tls, 0)
      else fast_rand_impl rng (init_if_needed now_us tls))"

definition fast_rand_in_64 ::
  "i64 \<Rightarrow> i64 \<Rightarrow> u64 \<Rightarrow> FastRandSeed \<Rightarrow> (FastRandSeed \<times> i64) option" where
  "fast_rand_in_64 lo hi now_us tls =
     (let tls = init_if_needed now_us tls
      in if sint lo = sint hi then Some (tls, lo)
         else let (lo, hi) = (if sint lo \<ge> sint hi then (hi, lo) else (lo, hi));
                  rng = hi - lo + 1
              in if rng = 0 then Some (xorshift128_next tls)
                 else do {
                   (tls, r) \<leftarrow> fast_rand_impl (hi - lo + 1) tls;
                   Some (tls, lo + r) })"

definition fast_rand_in_u64 ::
  "u64 \<Rightarrow> u64 \<Rightarrow> u64 \<Rightarrow> FastRandSeed \<Rightarrow> (FastRandSeed \<times> u64) option" where
  "fast_rand_in_u64 lo hi now_us tls =
     (let tls = init_if_needed now_us tls
      in if lo = hi then Some (tls, lo)
         else let (lo, hi) = (if lo \<ge> hi then (hi, lo) else (lo, hi));
                  rng = hi - lo + 1
              in if rng = 0 then Some (xorshift128_next tls)
                 else do {
                   (tls, r) \<leftarrow> fast_rand_impl rng tls;
                   Some (tls, lo + r) })"

text \<open>
  The template \<open>fast_rand_in<T>\<close> for an integer type of \<open>'a\<close> bits: signed types are widened with their
  sign, unsigned ones with zeros, and the draw is narrowed again.
\<close>

definition fast_rand_in ::
  "bool \<Rightarrow> 'a::len word \<Rightarrow> 'a word \<Rightarrow> u64 \<Rightarrow> FastRandSeed \<Rightarrow> (FastRandSeed \<times> 'a word) option" where
  "fast_rand_in is_signed lo hi now_us tls =
     (if is_signed then do { (tls, r) \<leftarrow> fast_rand_in_64 (scast lo) (scast hi) now_us tls; Some (tls, scast r) }
      else do { (tls, r) \<leftarrow> fast_rand_in_u64 (ucast lo) (ucast hi) now_us tls; Some (tls, ucast r) })"

section \<open>The state never degenerates\<close>

definition xorshift128_prev :: "FastRandSeed \<Rightarrow> FastRandSeed" where
  "xorshift128_prev seed =
     (let y = s0 seed;
          z = s1 seed XOR xorshr 5 y;
          x = xorshr 36 (xorshr 18 z);
          x = xorshl 46 (xorshl 23 x)
      in \<lparr>s0 = x, s1 = y\<rparr>)"

lemma xorshift128_fst:
  "fst (xorshift128_next seed) =
     \<lparr>s0 = s1 seed, s1 = xorshr 18 (xorshl 23 (s0 seed)) XOR xorshr 5 (s1 seed)\<rparr>"
  by (simp add: xorshift128_next_def Let_def xorshr_def xorshl_def ac_simps)

lemma undo18: "xorshr 36 (xorshr 18 (xorshr 18 (x :: u64))) = x"
  by (simp add: xorshr_xorshr xorshr_id)

lemma undo23: "xorshl 46 (xorshl 23 (xorshl 23 (x :: u64))) = x"
  by (simp add: xorshl_xorshl xorshl_id)

lemma redo18: "xorshr 18 (xorshr 36 (xorshr 18 (x :: u64))) = x"
  using undo18 [of x] by (simp only: xorshr_commute [of 18 36])

lemma xorshl_commute: "xorshl j (xorshl k x) = xorshl k (xorshl j x)"
  by (simp only: xorshl_def push_bit_xor push_bit_push_bit add.commute [of k j]
      xor.assoc xor.left_commute [of "push_bit k x"])

lemma redo23: "xorshl 23 (xorshl 46 (xorshl 23 (x :: u64))) = x"
  using undo23 [of x] by (simp only: xorshl_commute [of 23 46])

lemma xor_cancel_right: "(a XOR b) XOR b = (a :: 'a :: len word)"
  by (simp add: xor.assoc)

interpretation xorshift128: reversible "\<lambda>seed. fst (xorshift128_next seed)" xorshift128_prev
proof
  show "xorshift128_prev (fst (xorshift128_next seed)) = seed" for seed
    by (simp add: xorshift128_prev_def xorshift128_fst Let_def xor_cancel_right
        undo18 redo18 undo23 redo23)
  show "fst (xorshift128_next (xorshift128_prev seed)) = seed" for seed
    by (simp add: xorshift128_prev_def xorshift128_fst Let_def xor_cancel_right
        undo18 redo18 undo23 redo23)
qed

lemma xorshift128_zero: "fst (xorshift128_next \<lparr>s0 = 0, s1 = 0\<rparr>) = \<lparr>s0 = 0, s1 = 0\<rparr>"
  by (simp add: xorshift128_next_def)

lemma xorshift128_need_init: "need_init (fst (xorshift128_next seed)) \<longleftrightarrow> need_init seed"
  using xorshift128.mix_eq_iff [of seed "\<lparr>s0 = 0, s1 = 0\<rparr>"]
  by (cases seed; cases "fst (xorshift128_next seed)") (auto simp: xorshift128_zero need_init_def)

definition splitmix_out :: "u64 \<Rightarrow> u64" where
  "splitmix_out z =
     xorshr 31 (0x94D049BB133111EB * xorshr 27 (0xBF58476D1CE4E5B9 * xorshr 30 z))"

definition splitmix_un :: "u64 \<Rightarrow> u64" where
  "splitmix_un z =
     xorshr 60 (xorshr 30 (0x96de1b173f119089 * xorshr 54 (xorshr 27
       (0x319642b2d24d8ec3 * xorshr 62 (xorshr 31 z)))))"

lemma splitmix64_next_eq:
  "splitmix64_next seed = (seed + 0x9E3779B97F4A7C15, splitmix_out (seed + 0x9E3779B97F4A7C15))"
  by (simp add: splitmix64_next_def splitmix_out_def Let_def xorshr_def mult.commute)

lemma splitmix_mults:
  "0x96de1b173f119089 * (0xBF58476D1CE4E5B9 * x) = (x :: u64)"
  "0xBF58476D1CE4E5B9 * (0x96de1b173f119089 * x) = x"
  "0x319642b2d24d8ec3 * (0x94D049BB133111EB * x) = x"
  "0x94D049BB133111EB * (0x319642b2d24d8ec3 * x) = x"
  by (rule mult_cancel_inverse, simp)+

lemma xorshr_twice: "64 \<le> 4 * k \<Longrightarrow> xorshr (2 * k) (xorshr k (xorshr k (x :: u64))) = x"
  by (simp add: xorshr_xorshr xorshr_id)

lemma xorshr_twice': "64 \<le> 4 * k \<Longrightarrow> xorshr k (xorshr (2 * k) (xorshr k (x :: u64))) = x"
  using xorshr_twice [of k x] by (simp only: xorshr_commute [of k "2 * k"])

interpretation splitmix: reversible splitmix_out splitmix_un
proof
  note undo = xorshr_twice [of 30, simplified] xorshr_twice [of 27, simplified]
    xorshr_twice [of 31, simplified] xorshr_twice' [of 30, simplified]
    xorshr_twice' [of 27, simplified] xorshr_twice' [of 31, simplified]
  show "splitmix_un (splitmix_out z) = z" for z
    by (simp only: splitmix_out_def splitmix_un_def undo splitmix_mults)
  show "splitmix_out (splitmix_un z) = z" for z
    by (simp only: splitmix_out_def splitmix_un_def undo splitmix_mults)
qed

lemma init_fast_rand_seed_ok: "\<not> need_init (init_fast_rand_seed now_us)"
proof
  assume "need_init (init_fast_rand_seed now_us)"
  then have "splitmix_out (now_us + 0x9E3779B97F4A7C15) =
      splitmix_out (now_us + 0x9E3779B97F4A7C15 + 0x9E3779B97F4A7C15)"
    by (simp add: need_init_def init_fast_rand_seed_def splitmix64_next_eq)
  then have "now_us + 0x9E3779B97F4A7C15 = now_us + 0x9E3779B97F4A7C15 + 0x9E3779B97F4A7C15"
    by (simp only: splitmix.mix_eq_iff)
  then show False by simp
qed

section \<open>The rejection loop\<close>

text \<open>The \<open>n\<close>-th rand_output from a seed, counted from 0, and the seed after it.\<close>

definition seed_after :: "nat \<Rightarrow> FastRandSeed \<Rightarrow> FastRandSeed" where
  "seed_after n seed = ((\<lambda>s. fst (xorshift128_next s)) ^^ n) seed"

definition rand_output :: "nat \<Rightarrow> FastRandSeed \<Rightarrow> u64" where
  "rand_output n seed = snd (xorshift128_next (seed_after n seed))"

lemma rand_output_Suc: "rand_output (Suc n) seed = rand_output n (fst (xorshift128_next seed))"
  by (simp add: rand_output_def seed_after_def funpow_Suc_right del: funpow.simps)

lemma seed_after_Suc: "seed_after (Suc n) seed = seed_after n (fst (xorshift128_next seed))"
  by (simp add: seed_after_def funpow_Suc_right del: funpow.simps)

lemma fast_rand_loop_unfold: "fast_rand_loop rng d seed =
    (if rand_output 0 seed div d \<ge> rng then fast_rand_loop rng d (fst (xorshift128_next seed))
     else Some (fst (xorshift128_next seed), rand_output 0 seed div d))"
  by (subst fast_rand_loop.simps) (simp add: rand_output_def seed_after_def Let_def case_prod_unfold)

lemma fast_rand_loop_first:
  "rand_output n seed div d < rng \<Longrightarrow> (\<forall>m<n. \<not> rand_output m seed div d < rng) \<Longrightarrow>
   fast_rand_loop rng d seed = Some (seed_after (Suc n) seed, rand_output n seed div d)"
proof (induction n arbitrary: seed)
  case 0
  then show ?case by (subst fast_rand_loop_unfold) (auto simp: seed_after_def dest: leD)
next
  case (Suc n)
  from Suc.prems(2) have "\<not> rand_output 0 seed div d < rng" by blast
  then have "fast_rand_loop rng d seed = fast_rand_loop rng d (fst (xorshift128_next seed))"
    by (subst fast_rand_loop_unfold) (simp add: not_less)
  also have "\<dots> = Some (seed_after (Suc n) (fst (xorshift128_next seed)),
      rand_output n (fst (xorshift128_next seed)) div d)"
    using Suc.prems by (intro Suc.IH) (auto simp: rand_output_Suc [symmetric])
  finally show ?case by (simp only: rand_output_Suc seed_after_Suc)
qed

lemma fast_rand_loop_never:
  assumes "\<forall>n. rng \<le> rand_output n seed div d"
  shows "fast_rand_loop rng d seed = None"
proof (rule ccontr)
  assume "fast_rand_loop rng d seed \<noteq> None"
  then obtain y where y: "fast_rand_loop rng d seed = Some y" by auto
  have "\<exists>n. rand_output n seed div d < rng"
  proof (rule fast_rand_loop.raw_induct [where P = "\<lambda>rng d seed y. \<exists>n. rand_output n seed div d < rng", OF _ y])
    fix loop rng d seed y
    assume IH: "\<And>rng d seed y. loop rng d seed = Some y \<Longrightarrow> \<exists>n. rand_output n seed div d < rng"
      and eq: "(let (seed, out) = xorshift128_next seed; result = out div d
        in if rng \<le> result then loop rng d seed else Some (seed, result)) = Some y"
    show "\<exists>n. rand_output n seed div d < rng"
    proof (cases "rng \<le> rand_output 0 seed div d")
      case True
      then have "loop rng d (fst (xorshift128_next seed)) = Some y"
        using eq by (simp add: Let_def case_prod_unfold rand_output_def seed_after_def)
      then show ?thesis using IH rand_output_Suc by metis
    qed (auto simp: not_le)
  qed
  with assms show False by (meson leD)
qed

text \<open>
  With \<open>d = UINT64_MAX / rng\<close> fewer than \<open>rng\<close> of the \<open>2 ^ 64\<close> outputs are rejected.
\<close>

lemma accepted:
  fixes w rng :: u64
  assumes "rng \<noteq> 0" and "unat w + unat rng < 2 ^ 64"
  shows "w div (- 1 div rng) < rng"
proof -
  let ?r = "unat rng" and ?M = "2 ^ 64 - 1 :: nat"
  have r: "0 < ?r" "?r \<le> ?M" using assms(1) unat_u64_bound [of rng] by (simp_all add: unat_gt_0)
  have M: "unat (- 1 :: u64) = ?M" by (rule unat_u64_max)
  have "?M mod ?r < ?r" using r by simp
  then have lt: "unat w < ?r * (?M div ?r)"
    using assms(2) minus_mod_eq_mult_div [of ?M ?r] r by linarith
  have "0 < ?M div ?r" using r by (simp add: div_greater_zero_iff)
  then have "unat w div (?M div ?r) < ?r"
    using lt by (simp add: div_less_iff_less_mult)
  then show ?thesis by (simp only: word_less_nat_alt unat_div_distrib M)
qed

lemma fast_rand_impl_Some:
  assumes "fast_rand_impl rng seed = Some (seed', r)"
  shows "r < rng \<and> (\<exists>n. seed' = seed_after (Suc n) seed \<and> r = rand_output n seed div (- 1 div rng))"
proof -
  let ?d = "- 1 div rng"
  have ret: "fast_rand_loop rng ?d seed = Some (seed', r)"
    using assms by (auto simp: fast_rand_impl_def split: if_splits)
  then have "\<exists>n. rand_output n seed div ?d < rng"
    using fast_rand_loop_never [of rng seed ?d] by (auto simp: not_less [symmetric])
  then obtain n where "rand_output n seed div ?d < rng" "\<forall>m<n. \<not> rand_output m seed div ?d < rng"
    using exists_least_iff [of "\<lambda>n. rand_output n seed div ?d < rng"] by blast
  with fast_rand_loop_first [of n seed ?d rng] ret show ?thesis by auto
qed

lemma fast_rand_in_u64_ordered:
  fixes lo hi r :: u64
  assumes "lo < hi" and "r < hi - lo + 1"
  shows "lo \<le> lo + r \<and> lo + r \<le> hi"
proof -
  have le: "lo \<le> hi" using assms(1) by simp
  have "r \<le> hi - lo" using assms(2) by (simp add: less_plus_one_imp_le)
  then have "unat r \<le> unat hi - unat lo" using unat_sub [OF le] by (simp add: word_le_nat_alt)
  moreover have "unat lo \<le> unat hi" using le by (simp add: word_le_nat_alt)
  ultimately have "unat lo + unat r \<le> unat hi" by linarith
  moreover from this have "unat (lo + r) = unat lo + unat r"
    using unat_u64_bound [of hi] by (subst unat_add_lem [THEN iffD1]) simp_all
  ultimately show ?thesis by (simp add: word_le_nat_alt)
qed

lemma fast_rand_in_64_ordered:
  fixes lo hi r :: i64
  assumes "sint lo < sint hi" and "r < hi - lo + 1"
  shows "sint lo \<le> sint (lo + r) \<and> sint (lo + r) \<le> sint hi"
proof -
  have bounds: "- (2 ^ 63) \<le> sint lo" "sint hi < 2 ^ 63"
    by (rule sint_i64_bounds)+
  have "hi - lo = word_of_int (sint hi - sint lo)" by simp
  then have u: "uint (hi - lo) = sint hi - sint lo"
    using assms(1) bounds by (simp only: uint_word_of_int) simp
  have "r \<le> hi - lo" using assms(2) by (simp add: less_plus_one_imp_le)
  then have le: "uint r \<le> sint hi - sint lo" using u by (simp add: word_le_def)
  have "lo + r = word_of_int (sint lo + uint r)" by simp
  moreover have "sint (word_of_int (sint lo + uint r) :: i64) = sint lo + uint r"
    using le bounds uint_ge_0 [of r] by (intro sint_i64_of_int) linarith+
  ultimately have "sint (lo + r) = sint lo + uint r" by simp
  with le show ?thesis using uint_ge_0 [of r] by linarith
qed

lemma full_range_u64: "(hi :: u64) - lo + 1 = 0 \<Longrightarrow> lo \<le> hi \<Longrightarrow> lo = 0 \<and> hi = - 1"
proof -
  assume "hi - lo + 1 = 0" and le: "lo \<le> hi"
  then have d: "hi - lo = - 1" by (simp add: eq_neg_iff_add_eq_0)
  have "unat hi - unat lo = unat (- 1 :: u64)" using unat_sub [OF le] by (simp only: d)
  also have "\<dots> = 2 ^ 64 - 1" by (rule unat_u64_max)
  finally have "unat lo = 0" using unat_u64_bound [of hi] by simp
  with d show ?thesis by (simp add: unat_eq_zero)
qed

lemma full_range_64:
  assumes "(hi :: i64) - lo + 1 = 0" and "sint lo < sint hi"
  shows "sint lo = - (2 ^ 63) \<and> sint hi = 2 ^ 63 - 1"
proof -
  have bounds: "- (2 ^ 63) \<le> sint lo" "sint hi < 2 ^ 63"
    by (rule sint_i64_bounds)+
  have "hi - lo = word_of_int (sint hi - sint lo)" by simp
  then have "uint (hi - lo) = sint hi - sint lo"
    using assms(2) bounds by (simp only: uint_word_of_int) simp
  moreover have "hi - lo = - 1" using assms(1) by (simp add: eq_neg_iff_add_eq_0)
  moreover note uint_u64_max
  ultimately show ?thesis using bounds by simp
qed

lemma fast_rand_less_than_bound:
  "fast_rand_less_than rng now_us tls = Some (t', r) \<Longrightarrow> rng = 0 \<and> r = 0 \<or> r < rng"
  by (auto simp: fast_rand_less_than_def dest: fast_rand_impl_Some split: if_splits)

lemma fast_rand_in_u64_bound:
  assumes "fast_rand_in_u64 a b now_us tls = Some (t', r)"
  shows "min a b \<le> r \<and> r \<le> max a b"
proof (cases "a = b")
  case False
  obtain lo hi where lh: "lo < hi" "lo = min a b" "hi = max a b"
    and eq: "(if a \<ge> b then (b, a) else (a, b)) = (lo, hi)"
    using False by (cases "a < b") auto
  show ?thesis
  proof (cases "hi - lo + 1 = 0")
    case True
    with full_range_u64 [OF True] lh(1) have "lo = 0" "hi = - 1" by auto
    then show ?thesis using lh by (simp add: word_order.extremum)
  next
    case False
    then obtain k where "fast_rand_impl (hi - lo + 1) (init_if_needed now_us tls) = Some (t', k)" "r = lo + k"
      using assms \<open>a \<noteq> b\<close> eq by (auto simp: fast_rand_in_u64_def Let_def bind_eq_Some_conv)
    with fast_rand_impl_Some fast_rand_in_u64_ordered [OF lh(1)] lh show ?thesis by blast
  qed
qed (use assms in \<open>simp add: fast_rand_in_u64_def Let_def\<close>)

lemma fast_rand_in_64_bound:
  assumes "fast_rand_in_64 a b now_us tls = Some (t', r)"
  shows "min (sint a) (sint b) \<le> sint r \<and> sint r \<le> max (sint a) (sint b)"
proof (cases "sint a = sint b")
  case False
  obtain lo hi where lh: "sint lo < sint hi" "sint lo = min (sint a) (sint b)" "sint hi = max (sint a) (sint b)"
    and eq: "(if sint a \<ge> sint b then (b, a) else (a, b)) = (lo, hi)"
    using False by (cases "sint a < sint b") auto
  show ?thesis
  proof (cases "hi - lo + 1 = 0")
    case True
    note sint_i64_bounds [of r]
    with full_range_64 [OF True lh(1)] lh show ?thesis by linarith
  next
    case False
    then obtain k where "fast_rand_impl (hi - lo + 1) (init_if_needed now_us tls) = Some (t', k)" "r = lo + k"
      using assms \<open>sint a \<noteq> sint b\<close> eq by (auto simp: fast_rand_in_64_def Let_def bind_eq_Some_conv)
    with fast_rand_impl_Some fast_rand_in_64_ordered [OF lh(1)] lh show ?thesis by metis
  qed
qed (use assms in \<open>simp add: fast_rand_in_64_def Let_def\<close>)

section \<open>Properties\<close>

text \<open>
  C27. The thread's generator is seeded once: after any call the state is not the all-zero state
  that asks for seeding, so every later call (whatever the clock says) is one step of the
  generator, and that step is a bijection of the states.
\<close>

theorem fast_rand_seeded_once:
  "\<not> need_init (fst (fast_rand now_us tls)) \<and>
   fast_rand now_us' (fst (fast_rand now_us tls)) = xorshift128_next (fst (fast_rand now_us tls)) \<and>
   bij (\<lambda>seed. fst (xorshift128_next seed))"
proof -
  have "\<not> need_init (fst (fast_rand now_us tls))"
    by (simp add: fast_rand_def xorshift128_need_init init_if_needed_def init_fast_rand_seed_ok)
  then show ?thesis
    by (simp add: fast_rand_def [of now_us'] init_if_needed_def xorshift128.bij_mix)
qed



text \<open>
  Bounded draws stay in bounds: whenever they return, \<open>fast_rand_less_than\<close> is below its range,
  and the signed and unsigned \<open>fast_rand_in\<close> lie between their bounds in whichever order these
  are given.
\<close>

theorem fast_rand_bounded:
  "(case fast_rand_less_than rng now_us tls of None \<Rightarrow> True | Some (_, r) \<Rightarrow> rng = 0 \<and> r = 0 \<or> r < rng) \<and>
   (case fast_rand_in_u64 a b now_us tls of None \<Rightarrow> True | Some (_, r) \<Rightarrow> min a b \<le> r \<and> r \<le> max a b) \<and>
   (case fast_rand_in_64 c d now_us tls of None \<Rightarrow> True
    | Some (_, r) \<Rightarrow> min (sint c) (sint d) \<le> sint r \<and> sint r \<le> max (sint c) (sint d))"
  using fast_rand_less_than_bound fast_rand_in_u64_bound fast_rand_in_64_bound
  by (simp split: option.splits)

text \<open>The template draws between its bounds in the narrow type as well.\<close>

lemma widened_sint: "LENGTH('a) \<le> 64 \<Longrightarrow> sint (scast (x :: 'a::len word) :: i64) = sint x"
proof -
  assume "LENGTH('a) \<le> 64"
  then have "(2 :: int) ^ (LENGTH('a) - 1) \<le> 2 ^ 63" by (intro power_increasing) auto
  moreover have "- (2 ^ (LENGTH('a) - 1)) \<le> sint x" "sint x < 2 ^ (LENGTH('a) - 1)" by (rule sint_ge) (rule sint_lt)
  ultimately have "- (2 ^ 63) \<le> sint x \<and> sint x < 2 ^ 63" by linarith
  then show ?thesis by (simp add: signed_scast_eq signed_take_bit_int_eq_self)
qed

lemma narrowed_sint:
  assumes "sint (lo :: 'a::len word) \<le> sint r" and "sint r \<le> sint (hi :: 'a word)"
  shows "sint (scast (r :: i64) :: 'a word) = sint r"
proof -
  have "- (2 ^ (LENGTH('a) - 1)) \<le> sint r" "sint r < 2 ^ (LENGTH('a) - 1)"
    using sint_ge [of lo] sint_lt [of hi] assms by linarith+
  then show ?thesis by (simp add: signed_scast_eq signed_take_bit_int_eq_self)
qed

lemma widened_uint: "LENGTH('a) \<le> 64 \<Longrightarrow> uint (ucast (x :: 'a::len word) :: u64) = uint x"
proof -
  assume "LENGTH('a) \<le> 64"
  then have "(2 :: int) ^ LENGTH('a) \<le> 2 ^ 64" by (intro power_increasing) auto
  then have "uint x < 2 ^ 64" using uint_lt2p [of x] by linarith
  then show ?thesis by (simp add: unsigned_ucast_eq take_bit_int_eq_self)
qed

lemma narrowed_uint:
  assumes "uint r \<le> uint (hi :: 'a::len word)"
  shows "uint (ucast (r :: u64) :: 'a word) = uint r"
proof -
  have "uint r < 2 ^ LENGTH('a)" using assms uint_lt2p [of hi] by linarith
  then show ?thesis by (simp add: unsigned_ucast_eq take_bit_int_eq_self)
qed

theorem fast_rand_in_bounded:
  fixes lo hi :: "'a::len word"
  assumes "LENGTH('a) \<le> 64"
  shows "(case fast_rand_in True lo hi now_us tls of None \<Rightarrow> True
      | Some (_, r) \<Rightarrow> min (sint lo) (sint hi) \<le> sint r \<and> sint r \<le> max (sint lo) (sint hi)) \<and>
    (case fast_rand_in False lo hi now_us tls of None \<Rightarrow> True
      | Some (_, r) \<Rightarrow> min (uint lo) (uint hi) \<le> uint r \<and> uint r \<le> max (uint lo) (uint hi))"
proof (intro conjI)
  have "min (sint lo) (sint hi) \<le> sint (scast r :: 'a word) \<and> sint (scast r :: 'a word) \<le> max (sint lo) (sint hi)"
    if "fast_rand_in_64 (scast lo) (scast hi) now_us tls = Some (t', r)" for t' r
  proof -
    have b: "min (sint lo) (sint hi) \<le> sint r \<and> sint r \<le> max (sint lo) (sint hi)"
      using fast_rand_in_64_bound [OF that] by (simp add: widened_sint assms)
    then have "sint (scast r :: 'a word) = sint r"
      using narrowed_sint [of lo r hi] narrowed_sint [of hi r lo] by (auto simp: min_def max_def split: if_splits)
    then show ?thesis using b by simp
  qed
  then show "case fast_rand_in True lo hi now_us tls of None \<Rightarrow> True
      | Some (_, r) \<Rightarrow> min (sint lo) (sint hi) \<le> sint r \<and> sint r \<le> max (sint lo) (sint hi)"
    by (simp add: fast_rand_in_def split: option.split Option.bind_split)
  have "min (uint lo) (uint hi) \<le> uint (ucast r :: 'a word) \<and> uint (ucast r :: 'a word) \<le> max (uint lo) (uint hi)"
    if "fast_rand_in_u64 (ucast lo) (ucast hi) now_us tls = Some (t', r)" for t' r
  proof -
    have "min (ucast lo) (ucast hi) \<le> r \<and> r \<le> max (ucast lo) (ucast hi :: u64)" using fast_rand_in_u64_bound [OF that] .
    then have b: "min (uint lo) (uint hi) \<le> uint r \<and> uint r \<le> max (uint lo) (uint hi)"
      by (auto simp: min_def max_def word_le_def widened_uint assms split: if_splits)
    then have "uint (ucast r :: 'a word) = uint r"
      using narrowed_uint [of r hi] narrowed_uint [of r lo] by (auto simp: max_def split: if_splits)
    then show ?thesis using b by simp
  qed
  then show "case fast_rand_in False lo hi now_us tls of None \<Rightarrow> True
      | Some (_, r) \<Rightarrow> min (uint lo) (uint hi) \<le> uint r \<and> uint r \<le> max (uint lo) (uint hi)"
    by (simp add: fast_rand_in_def split: option.split Option.bind_split)
qed

end
