(* ===== verification/Time_Series.thy ===== *)
theory Time_Series
  imports Prelude
begin

text \<open>
  \<^verbatim>\<open>src/common/series.h\<close>: the trend of a variable over the last 60 seconds, 60 minutes, 24 hours
  and 30 days, in one array of 174 cells. A full ring of one resolution is folded with the
  operator of the variable into one value of the next. The operator is the argument \<open>opr\<close>
  (\<open>v1 := opr v1 v2\<close>); the initial cells are an argument, because the constructor zeroes them only
  for the types \<open>type_traits.h\<close> lists. The counters are \<open>char\<close>s that never exceed 60. The mutex
  makes each call atomic.
\<close>

section \<open>State and operations\<close>

record 'a series =
  nsecond :: nat
  nminute :: nat
  nhour :: nat
  nday :: nat
  array :: "'a list"

definition second :: "'a series \<Rightarrow> nat \<Rightarrow> 'a" where
  "second st index = array st ! index"

definition minute :: "'a series \<Rightarrow> nat \<Rightarrow> 'a" where
  "minute st index = array st ! (60 + index)"

definition hour :: "'a series \<Rightarrow> nat \<Rightarrow> 'a" where
  "hour st index = array st ! (120 + index)"

definition day :: "'a series \<Rightarrow> nat \<Rightarrow> 'a" where
  "day st index = array st ! (144 + index)"

definition SeriesBase_init :: "'a list \<Rightarrow> 'a series" where
  "SeriesBase_init cells = \<lparr>nsecond = 0, nminute = 0, nhour = 0, nday = 0, array = cells\<rparr>"

text \<open>
  The types a series can have, and the traits of \<^verbatim>\<open>src/common/type_traits.h\<close>; \<open>Class_type\<close> stands for
  every type that is not arithmetic.
\<close>

datatype ctype = Bool_type | Char_type | Uchar_type | Schar_type | Short_type | Ushort_type | Int_type | Uint_type
  | Long_type | Ulong_type | Longlong_type | Ulonglong_type | Float_type | Double_type | Longdouble_type | Class_type string

definition is_same :: "ctype \<Rightarrow> ctype \<Rightarrow> bool" where
  "is_same a b = (a = b)"

definition is_integral :: "ctype \<Rightarrow> bool" where
  "is_integral a = (a \<in> {Bool_type, Char_type, Uchar_type, Schar_type})"

definition is_floating_point :: "ctype \<Rightarrow> bool" where
  "is_floating_point a = (a \<in> {Float_type, Double_type, Longdouble_type})"

text \<open>The constructor of the array: \<open>memory\<close> is what the 174 cells held before.\<close>

definition Data_new :: "ctype \<Rightarrow> 'a \<Rightarrow> 'a list \<Rightarrow> 'a list" where
  "Data_new a zero memory = (if is_integral a \<or> is_floating_point a then replicate 174 zero else memory)"

lemma Data_new_zeroed:
  "Data_new a zero memory = replicate 174 zero \<or> a \<in> {Short_type, Ushort_type, Int_type, Uint_type, Long_type,
     Ulong_type, Longlong_type, Ulonglong_type} \<union> range Class_type"
  by (cases a) (simp_all add: Data_new_def is_integral_def is_floating_point_def)

text \<open>A series of \<open>long\<close> starts with whatever its memory held.\<close>

lemma Data_new_long: "Data_new Long_type zero memory = memory"
  by (simp add: Data_new_def is_integral_def is_floating_point_def)

text \<open>No specialisation of \<open>DivideOnAddition\<close> exists: the value is left alone.\<close>

definition inplace_divide :: "'a \<Rightarrow> nat \<Rightarrow> 'a" where
  "inplace_divide obj number = obj"

definition append_day :: "'a \<Rightarrow> 'a series \<Rightarrow> 'a series" where
  "append_day v st =
     (let st = st\<lparr>array := (array st)[144 + nday st := v]\<rparr>;
          st = st\<lparr>nday := nday st + 1\<rparr>
      in if nday st \<ge> 30 then st\<lparr>nday := 0\<rparr> else st)"

definition append_hour :: "('a \<Rightarrow> 'a \<Rightarrow> 'a) \<Rightarrow> 'a \<Rightarrow> 'a series \<Rightarrow> 'a series" where
  "append_hour opr v st =
     (let st = st\<lparr>array := (array st)[120 + nhour st := v]\<rparr>;
          st = st\<lparr>nhour := nhour st + 1\<rparr>
      in if nhour st \<ge> 24 then
           let st = st\<lparr>nhour := 0\<rparr>;
               tmp = foldl (\<lambda>tmp i. opr tmp (hour st i)) (hour st 0) [1..<24];
               tmp = inplace_divide tmp 24
           in append_day tmp st
         else st)"

definition append_minute :: "('a \<Rightarrow> 'a \<Rightarrow> 'a) \<Rightarrow> 'a \<Rightarrow> 'a series \<Rightarrow> 'a series" where
  "append_minute opr v st =
     (let st = st\<lparr>array := (array st)[60 + nminute st := v]\<rparr>;
          st = st\<lparr>nminute := nminute st + 1\<rparr>
      in if nminute st \<ge> 60 then
           let st = st\<lparr>nminute := 0\<rparr>;
               tmp = foldl (\<lambda>tmp i. opr tmp (minute st i)) (minute st 0) [1..<60];
               tmp = inplace_divide tmp 60
           in append_hour opr tmp st
         else st)"

definition append_second :: "('a \<Rightarrow> 'a \<Rightarrow> 'a) \<Rightarrow> 'a \<Rightarrow> 'a series \<Rightarrow> 'a series" where
  "append_second opr v st =
     (let st = st\<lparr>array := (array st)[nsecond st := v]\<rparr>;
          st = st\<lparr>nsecond := nsecond st + 1\<rparr>
      in if nsecond st \<ge> 60 then
           let st = st\<lparr>nsecond := 0\<rparr>;
               tmp = foldl (\<lambda>tmp i. opr tmp (second st i)) (second st 0) [1..<60];
               tmp = inplace_divide tmp 60
           in append_minute opr tmp st
         else st)"

definition series_append :: "('a \<Rightarrow> 'a \<Rightarrow> 'a) \<Rightarrow> 'a \<Rightarrow> 'a series \<Rightarrow> 'a series" where
  "series_append opr v st = append_second opr v st"

text \<open>
  \<open>describe\<close> prints the four rings from the coarsest to the finest, each from its oldest cell,
  numbered by the running counter \<open>c\<close>; \<open>show\<close> prints a value.
\<close>

fun print_cells :: "('a \<Rightarrow> string) \<Rightarrow> nat \<Rightarrow> 'a list \<Rightarrow> string" where
  "print_cells show c [] = ''''"
| "print_cells show c (v # vs) =
     (if c \<noteq> 0 then '','' else '''') @ ''['' @ show_nat c @ '','' @ show v @ '']'' @
     print_cells show (c + 1) vs"

definition trend :: "'a series \<Rightarrow> 'a list" where
  "trend st =
     map (\<lambda>i. day st ((i + nday st) mod 30)) [0..<30] @
     map (\<lambda>i. hour st ((i + nhour st) mod 24)) [0..<24] @
     map (\<lambda>i. minute st ((i + nminute st) mod 60)) [0..<60] @
     map (\<lambda>i. second st ((i + nsecond st) mod 60)) [0..<60]"

definition describe :: "('a \<Rightarrow> string) \<Rightarrow> 'a series \<Rightarrow> string" where
  "describe show st =
     ''{'' @ [CHR 0x22] @ ''label'' @ [CHR 0x22] @ '':'' @ [CHR 0x22] @ ''trend'' @ [CHR 0x22] @
     '','' @ [CHR 0x22] @ ''data'' @ [CHR 0x22] @ '':['' @
     print_cells show 0 (trend st) @ '']}''"

section \<open>Roll-up of a stream of values\<close>

definition fold_group :: "('a \<Rightarrow> 'a \<Rightarrow> 'a) \<Rightarrow> 'a list \<Rightarrow> 'a" where
  "fold_group opr xs = foldl opr (hd xs) (tl xs)"

text \<open>The folds of the successive complete groups of \<open>n\<close> values.\<close>

definition rollup :: "nat \<Rightarrow> ('a \<Rightarrow> 'a \<Rightarrow> 'a) \<Rightarrow> 'a list \<Rightarrow> 'a list" where
  "rollup n opr vs = map (\<lambda>k. fold_group opr (take n (drop (k * n) vs))) [0..<length vs div n]"

lemma rollup_Nil [simp]: "rollup n opr [] = []"
  by (simp add: rollup_def)

lemma rollup_snoc:
  assumes n: "0 < n"
  shows "rollup n opr (vs @ [v]) = rollup n opr vs @
    (if Suc (length vs) mod n = 0 then [fold_group opr (lastn n (vs @ [v]))] else [])"
proof -
  have old: "take n (drop (k * n) (vs @ [v])) = take n (drop (k * n) vs)" if "k < length vs div n" for k
  proof -
    have "Suc k * n \<le> length vs" using that n by (metis Suc_leI less_eq_div_iff_mult_less_eq)
    then show ?thesis by simp
  qed
  let ?F = "\<lambda>k. fold_group opr (take n (drop (k * n) (vs @ [v])))"
  have maps: "map ?F [0..<length vs div n] = rollup n opr vs"
    unfolding rollup_def using old by (intro map_cong refl) (simp only: set_upt atLeastLessThan_iff)
  have new: "rollup n opr (vs @ [v]) = map ?F [0..<Suc (length vs) div n]" by (simp add: rollup_def)
  show ?thesis
  proof (cases "Suc (length vs) mod n = 0")
    case True
    then obtain q where q: "Suc (length vs) = q * n" by (metis mod_0_imp_dvd dvd_def mult.commute)
    then obtain p where p: "q = Suc p" by (cases q) auto
    have "length vs = p * n + (n - 1)" using q n by (simp add: p)
    have d: "length vs div n = p" "Suc (length vs) div n = Suc p"
      using n q p by (auto intro!: div_nat_eqI simp: mult.commute)
    have "lastn n (vs @ [v]) = take n (drop (p * n) (vs @ [v]))"
      using q p n by (simp add: lastn_def)
    then show ?thesis using True maps d unfolding new by (simp del: take_append drop_append)
  next
    case False
    then have "Suc (length vs) div n = length vs div n" by (simp add: div_Suc)
    then show ?thesis using False maps unfolding new by (simp del: take_append drop_append)
  qed
qed


section \<open>One ring of the array\<close>

text \<open>
  The array is the concatenation of the four rings; each ring has been written with all values
  of its resolution so far.
\<close>

definition minutes :: "('a \<Rightarrow> 'a \<Rightarrow> 'a) \<Rightarrow> 'a list \<Rightarrow> 'a list" where
  "minutes opr vs = rollup 60 opr vs"

definition hours :: "('a \<Rightarrow> 'a \<Rightarrow> 'a) \<Rightarrow> 'a list \<Rightarrow> 'a list" where
  "hours opr vs = rollup 60 opr (minutes opr vs)"

definition days :: "('a \<Rightarrow> 'a \<Rightarrow> 'a) \<Rightarrow> 'a list \<Rightarrow> 'a list" where
  "days opr vs = rollup 24 opr (hours opr vs)"

definition rings :: "'a list \<Rightarrow> 'a list \<Rightarrow> 'a list \<Rightarrow> 'a list \<Rightarrow> 'a list \<Rightarrow> 'a list" where
  "rings cells ss ms hs ds =
     ring_write 60 (take 60 cells) ss @ ring_write 60 (take 60 (drop 60 cells)) ms @
     ring_write 24 (take 24 (drop 120 cells)) hs @ ring_write 30 (drop 144 cells) ds"

definition series_rel :: "'a list \<Rightarrow> 'a list \<Rightarrow> 'a list \<Rightarrow> 'a list \<Rightarrow> 'a list \<Rightarrow> 'a series \<Rightarrow> bool" where
  "series_rel cells ss ms hs ds st \<longleftrightarrow> length cells = 174 \<and>
     array st = rings cells ss ms hs ds \<and>
     nsecond st = length ss mod 60 \<and> nminute st = length ms mod 60 \<and>
     nhour st = length hs mod 24 \<and> nday st = length ds mod 30"

lemma rings_update:
  assumes "length cells = 174"
  shows "i < 60 \<Longrightarrow> (rings cells ss ms hs ds)[i := v] =
      (ring_write 60 (take 60 cells) ss)[i := v] @ drop 60 (rings cells ss ms hs ds)"
    and "i < 60 \<Longrightarrow> (rings cells ss ms hs ds)[60 + i := v] =
      ring_write 60 (take 60 cells) ss @ (ring_write 60 (take 60 (drop 60 cells)) ms)[i := v] @
      drop 120 (rings cells ss ms hs ds)"
    and "i < 24 \<Longrightarrow> (rings cells ss ms hs ds)[120 + i := v] =
      ring_write 60 (take 60 cells) ss @ ring_write 60 (take 60 (drop 60 cells)) ms @
      (ring_write 24 (take 24 (drop 120 cells)) hs)[i := v] @ ring_write 30 (drop 144 cells) ds"
    and "i < 30 \<Longrightarrow> (rings cells ss ms hs ds)[144 + i := v] =
      ring_write 60 (take 60 cells) ss @ ring_write 60 (take 60 (drop 60 cells)) ms @
      ring_write 24 (take 24 (drop 120 cells)) hs @ (ring_write 30 (drop 144 cells) ds)[i := v]"
  using assms by (auto simp: rings_def list_update_append min_def)

lemma rings_snoc:
  assumes "length cells = 174"
  shows "(rings cells ss ms hs ds)[length ss mod 60 := v] = rings cells (ss @ [v]) ms hs ds"
    and "(rings cells ss ms hs ds)[60 + length ms mod 60 := v] = rings cells ss (ms @ [v]) hs ds"
    and "(rings cells ss ms hs ds)[120 + length hs mod 24 := v] = rings cells ss ms (hs @ [v]) ds"
    and "(rings cells ss ms hs ds)[144 + length ds mod 30 := v] = rings cells ss ms hs (ds @ [v])"
  using assms by (subst rings_update, simp_all, simp add: rings_def min_def)+

lemma rings_nth:
  assumes "length cells = 174"
  shows "i < 60 \<Longrightarrow> rings cells ss ms hs ds ! i = ring_write 60 (take 60 cells) ss ! i"
    and "i < 60 \<Longrightarrow> rings cells ss ms hs ds ! (60 + i) = ring_write 60 (take 60 (drop 60 cells)) ms ! i"
    and "i < 24 \<Longrightarrow> rings cells ss ms hs ds ! (120 + i) = ring_write 24 (take 24 (drop 120 cells)) hs ! i"
    and "i < 30 \<Longrightarrow> rings cells ss ms hs ds ! (144 + i) = ring_write 30 (drop 144 cells) ds ! i"
  using assms by (auto simp: rings_def nth_append min_def)

text \<open>Folding a ring that has just come round is folding its latest \<open>n\<close> values.\<close>

lemma fold_full_ring:
  assumes "length a = n" and "0 < n" and "vs \<noteq> []" and "length vs mod n = 0"
    and "\<And>i. i < n \<Longrightarrow> f i = ring_write n a vs ! i"
  shows "foldl (\<lambda>tmp i. opr tmp (f i)) (f 0) [1..<n] = fold_group opr (lastn n vs)"
proof -
  have le: "n \<le> length vs"
  proof (rule ccontr)
    assume "\<not> n \<le> length vs"
    with assms(3,4) show False by simp
  qed
  have "map f [0..<n] = map (\<lambda>i. ring_write n a vs ! ((i + length vs) mod n)) [0..<n]"
    using assms(4,5) by (simp add: mod_add_right_eq [symmetric])
  then have last: "map f [0..<n] = lastn n vs" using ring_write_lastn [OF assms(1,2) le] by simp
  have "[0..<n] = 0 # [1..<n]" using assms(2) by (simp add: upt_conv_Cons)
  then have "lastn n vs = f 0 # map f [1..<n]" using last by simp
  then show ?thesis by (simp add: fold_group_def foldl_map)
qed

section \<open>Each resolution feeds the next\<close>

lemma append_day_rel:
  "series_rel cells ss ms hs ds st \<Longrightarrow> series_rel cells ss ms hs (ds @ [v]) (append_day v st)"
  by (auto simp: series_rel_def append_day_def Let_def rings_snoc mod_Suc)

lemma append_hour_rel:
  assumes r: "series_rel cells ss ms hs (rollup 24 opr hs) st"
  shows "series_rel cells ss ms (hs @ [v]) (rollup 24 opr (hs @ [v])) (append_hour opr v st)"
proof -
  let ?st = "st\<lparr>array := (array st)[120 + nhour st := v], nhour := (nhour st + 1) mod 24\<rparr>"
  have rel: "series_rel cells ss ms (hs @ [v]) (rollup 24 opr hs) ?st" and len: "length cells = 174"
    using r by (auto simp: series_rel_def rings_snoc mod_Suc)
  show ?thesis
  proof (cases "Suc (length hs) mod 24 = 0")
    case True
    have "foldl (\<lambda>tmp i. opr tmp (hour ?st i)) (hour ?st 0) [1..<24] = fold_group opr (lastn 24 (hs @ [v]))"
      using rel len True
      by (intro fold_full_ring [where a = "take 24 (drop 120 cells)"])
        (auto simp: series_rel_def hour_def rings_nth)
    moreover have "nhour st + 1 = 24" using r True by (auto simp: series_rel_def mod_Suc split: if_splits)
    ultimately have "append_hour opr v st = append_day (fold_group opr (lastn 24 (hs @ [v]))) ?st"
      by (simp add: append_hour_def Let_def inplace_divide_def hour_def)
    then show ?thesis using append_day_rel [OF rel] True by (simp add: rollup_snoc)
  next
    case False
    then have "nhour st + 1 < 24" using r by (auto simp: series_rel_def mod_Suc split: if_splits)
    then have "append_hour opr v st = ?st" by (simp add: append_hour_def Let_def)
    then show ?thesis using rel False by (simp add: rollup_snoc)
  qed
qed

lemma append_minute_rel:
  assumes r: "series_rel cells ss ms (rollup 60 opr ms) (rollup 24 opr (rollup 60 opr ms)) st"
  shows "series_rel cells ss (ms @ [v]) (rollup 60 opr (ms @ [v]))
    (rollup 24 opr (rollup 60 opr (ms @ [v]))) (append_minute opr v st)"
proof -
  let ?st = "st\<lparr>array := (array st)[60 + nminute st := v], nminute := (nminute st + 1) mod 60\<rparr>"
  have rel: "series_rel cells ss (ms @ [v]) (rollup 60 opr ms) (rollup 24 opr (rollup 60 opr ms)) ?st"
    and len: "length cells = 174"
    using r by (auto simp: series_rel_def rings_snoc mod_Suc)
  show ?thesis
  proof (cases "Suc (length ms) mod 60 = 0")
    case True
    have "foldl (\<lambda>tmp i. opr tmp (minute ?st i)) (minute ?st 0) [1..<60] = fold_group opr (lastn 60 (ms @ [v]))"
      using rel len True
      by (intro fold_full_ring [where a = "take 60 (drop 60 cells)"])
        (auto simp: series_rel_def minute_def rings_nth)
    moreover have "nminute st + 1 = 60" using r True by (auto simp: series_rel_def mod_Suc split: if_splits)
    ultimately have "append_minute opr v st = append_hour opr (fold_group opr (lastn 60 (ms @ [v]))) ?st"
      by (simp add: append_minute_def Let_def inplace_divide_def minute_def)
    then show ?thesis using append_hour_rel [OF rel] True by (simp add: rollup_snoc)
  next
    case False
    then have "nminute st + 1 < 60" using r by (auto simp: series_rel_def mod_Suc split: if_splits)
    then have "append_minute opr v st = ?st" by (simp add: append_minute_def Let_def)
    then show ?thesis using rel False by (simp add: rollup_snoc)
  qed
qed

lemma series_append_rel:
  assumes r: "series_rel cells vs (minutes opr vs) (hours opr vs) (days opr vs) st"
  shows "series_rel cells (vs @ [v]) (minutes opr (vs @ [v])) (hours opr (vs @ [v]))
    (days opr (vs @ [v])) (series_append opr v st)"
proof -
  let ?st = "st\<lparr>array := (array st)[nsecond st := v], nsecond := (nsecond st + 1) mod 60\<rparr>"
  have rel: "series_rel cells (vs @ [v]) (minutes opr vs) (hours opr vs) (days opr vs) ?st"
    and len: "length cells = 174"
    using r by (auto simp: series_rel_def rings_snoc mod_Suc)
  show ?thesis
  proof (cases "Suc (length vs) mod 60 = 0")
    case True
    have "foldl (\<lambda>tmp i. opr tmp (second ?st i)) (second ?st 0) [1..<60] = fold_group opr (lastn 60 (vs @ [v]))"
      using rel len True
      by (intro fold_full_ring [where a = "take 60 cells"])
        (auto simp: series_rel_def second_def rings_nth)
    moreover have "nsecond st + 1 = 60" using r True by (auto simp: series_rel_def mod_Suc split: if_splits)
    ultimately have "series_append opr v st = append_minute opr (fold_group opr (lastn 60 (vs @ [v]))) ?st"
      by (simp add: series_append_def append_second_def Let_def inplace_divide_def second_def)
    moreover have "rollup 60 opr (vs @ [v]) = rollup 60 opr vs @ [fold_group opr (lastn 60 (vs @ [v]))]"
      using True by (simp add: rollup_snoc)
    moreover note append_minute_rel [OF rel [unfolded minutes_def hours_def days_def]]
    ultimately show ?thesis by (simp only: minutes_def hours_def days_def)
  next
    case False
    then have "nsecond st + 1 < 60" using r by (auto simp: series_rel_def mod_Suc split: if_splits)
    then have "series_append opr v st = ?st" by (simp add: series_append_def append_second_def Let_def)
    then show ?thesis using rel False by (simp add: minutes_def hours_def days_def rollup_snoc)
  qed
qed

definition series_run :: "('a \<Rightarrow> 'a \<Rightarrow> 'a) \<Rightarrow> 'a list \<Rightarrow> 'a list \<Rightarrow> 'a series" where
  "series_run opr cells vs = fold (series_append opr) vs (SeriesBase_init cells)"

lemma series_run_rel:
  assumes "length cells = 174"
  shows "series_rel cells vs (minutes opr vs) (hours opr vs) (days opr vs) (series_run opr cells vs)"
proof (induction vs rule: rev_induct)
  case Nil
  have "take 60 cells @ take 60 (drop 60 cells) @ take 24 (drop 120 cells) @ drop 144 cells = cells"
    using append_take_drop_id [of 24 "drop 120 cells"] append_take_drop_id [of 60 "drop 60 cells"]
    by simp
  then show ?case using assms
    by (simp add: series_run_def SeriesBase_init_def series_rel_def rings_def minutes_def hours_def days_def)
next
  case (snoc v vs)
  then show ?case by (simp add: series_run_def series_append_rel)
qed

lemma length_rollup [simp]: "length (rollup n opr vs) = length vs div n"
  by (simp add: rollup_def)

text \<open>The last part of the trend.\<close>

lemma trend_latest:
  assumes "length cells = 174" and "60 \<le> length vs"
  shows "length (trend (series_run opr cells vs)) = 174"
    and "drop 114 (trend (series_run opr cells vs)) = lastn 60 vs"
proof -
  have "map (\<lambda>i. second (series_run opr cells vs) ((i + nsecond (series_run opr cells vs)) mod 60)) [0..<60]
      = lastn 60 vs"
    using series_run_rel [OF assms(1), of vs opr] assms ring_write_lastn [of "take 60 cells" 60 vs]
    by (simp add: series_rel_def second_def rings_nth mod_add_right_eq cong: map_cong)
  then show "length (trend (series_run opr cells vs)) = 174"
    and "drop 114 (trend (series_run opr cells vs)) = lastn 60 vs"
    using assms(2) by (simp_all add: trend_def)
qed

section \<open>Properties\<close>

text \<open>
  C20. The roll-up: after any sequence of appended values, each resolution can be read back over its
  whole window. The second cell of the \<open>j\<close>-th value holds it while it is among the latest 60;
  the minute, hour and day cells hold the folds of the complete groups of 60, 60 and 24 values of
  the resolution below, in order.
\<close>

theorem series_cells_hold_rollups:
  assumes "length cells = 174"
  shows "(j < length vs \<and> length vs \<le> j + 60 \<longrightarrow>
      second (series_run opr cells vs) (j mod 60) = vs ! j) \<and>
    (j < length (minutes opr vs) \<and> length (minutes opr vs) \<le> j + 60 \<longrightarrow>
      minute (series_run opr cells vs) (j mod 60) = minutes opr vs ! j) \<and>
    (j < length (hours opr vs) \<and> length (hours opr vs) \<le> j + 24 \<longrightarrow>
      hour (series_run opr cells vs) (j mod 24) = hours opr vs ! j) \<and>
    (j < length (days opr vs) \<and> length (days opr vs) \<le> j + 30 \<longrightarrow>
      day (series_run opr cells vs) (j mod 30) = days opr vs ! j)"
  using series_run_rel [OF assms, of vs opr] assms
  by (simp add: series_rel_def second_def minute_def hour_def day_def rings_nth ring_write_nth)

theorem series_cells_hold_rollups_witness:
  "minute (series_run (+) (replicate 174 0) (replicate 60 (1 :: nat))) 0 = 60"
proof -
  have "minutes (+) (replicate 60 (1 :: nat)) = [60]" by code_simp
  then show ?thesis
    using series_cells_hold_rollups [of "replicate 174 (0 :: nat)" 0 "replicate 60 1" "(+)"] by simp
qed

text \<open>
  The printed trend ends with the latest 60 values, oldest first, as soon as there are 60, and
  always has 174 entries.
\<close>

theorem trend_ends_with_latest_values:
  assumes "length cells = 174" and "60 \<le> length vs"
  shows "length (trend (series_run opr cells vs)) = 174 \<and>
    drop 114 (trend (series_run opr cells vs)) = lastn 60 vs"
  using trend_latest [OF assms] by blast

theorem trend_ends_with_latest_values_witness:
  "drop 114 (trend (series_run (+) (replicate 174 0) [1..<62])) = [2..<62]"
  using trend_ends_with_latest_values [of "replicate 174 0" "[1..<62]" "(+)"]
  by (simp add: lastn_def drop_upt numeral_2_eq_2 del: upt_rec_numeral)

end
