(* ===== verification/Speed_Limit.thy ===== *)
theory Speed_Limit
  imports Complex_Main Fast_Rand
begin

text \<open>
  The sampling controller of the collector: \<open>CollectorSpeedLimit\<close> (\<^verbatim>\<open>src/collector.h\<close>) and the
  functions of \<^verbatim>\<open>src/collector.cpp\<close> that decide whether a contention is sampled and that adapt
  the sampling range to the number of samples grabbed. \<open>int64_t\<close> values are integers with checked
  arithmetic; \<open>size_t\<close> values are 64-bit words that wrap. Clock readings, the random number and
  the flag \<open>collector_expected_per_second\<close> are arguments.
\<close>

section \<open>State and operations\<close>

definition COLLECTOR_SAMPLING_BASE :: u64 where
  "COLLECTOR_SAMPLING_BASE = 16384"

record CollectorSpeedLimit =
  sampling_range :: u64
  ever_grabbed :: bool
  count_before_grabbed :: i32
  first_sample_real_us :: int

definition CollectorSpeedLimit_init :: CollectorSpeedLimit where
  "CollectorSpeedLimit_init =
     \<lparr>sampling_range = COLLECTOR_SAMPLING_BASE, ever_grabbed = False, count_before_grabbed = 0,
      first_sample_real_us = 0\<rparr>"

text \<open>Division of \<open>size_t\<close> values; by zero it is undefined.\<close>

definition udiv :: "u64 \<Rightarrow> u64 \<Rightarrow> u64 option" where
  "udiv a b = (if b = 0 then None else Some (a div b))"

definition clamp_range :: "u64 \<Rightarrow> u64" where
  "clamp_range r =
     (if r = 0 then 1
      else if r > COLLECTOR_SAMPLING_BASE then COLLECTOR_SAMPLING_BASE
      else r)"

text \<open>
  The new range before clamping, in the two cases of the code. \<open>interval_us\<close> is the length of the
  grab round, already cut at zero; before the first grab it is replaced by the time since the
  first sample (\<open>now_us\<close> is \<open>gettimeofday_us()\<close>).
\<close>

definition first_range :: "int \<Rightarrow> int \<Rightarrow> int \<Rightarrow> u64 \<Rightarrow> CollectorSpeedLimit \<Rightarrow> u64 option" where
  "first_range expected now_us interval_us round_grab_count sl = do {
     interval_us \<leftarrow> (if first_sample_real_us sl \<noteq> 0 then do {
         d \<leftarrow> chk_long (now_us - first_sample_real_us sl);
         Some (if d < 0 then 0 else d) }
       else Some interval_us);
     p \<leftarrow> chk_long (expected * interval_us);
     udiv (of_int p * COLLECTOR_SAMPLING_BASE) (1000000 * round_grab_count) }"

definition next_range :: "int \<Rightarrow> int \<Rightarrow> u64 \<Rightarrow> u64 \<Rightarrow> u64 option" where
  "next_range expected interval_us old_sampling_range round_grab_count = do {
     p \<leftarrow> chk_long (expected * interval_us);
     new_sampling_range \<leftarrow> udiv (of_int p * old_sampling_range) (1000000 * round_grab_count);
     if interval_us < 1000000
     then udiv (new_sampling_range * of_int interval_us +
                old_sampling_range * of_int (1000000 - interval_us)) 1000000
     else Some new_sampling_range }"

definition update_speed_limit ::
  "int \<Rightarrow> int \<Rightarrow> CollectorSpeedLimit \<Rightarrow> u64 \<Rightarrow> u64 \<Rightarrow> int \<Rightarrow> (CollectorSpeedLimit \<times> u64) option" where
  "update_speed_limit expected now_us sl last_grab_count cur_grab_count interval_us =
     (let round_grab_count = cur_grab_count - last_grab_count
      in if round_grab_count = 0 then Some (sl, last_grab_count)
         else do {
           let last_grab_count = cur_grab_count;
           let interval_us = (if interval_us < 0 then 0 else interval_us);
           let old_sampling_range = sampling_range sl;
           new_sampling_range \<leftarrow>
             (if \<not> ever_grabbed sl
              then first_range expected now_us interval_us round_grab_count sl
              else next_range expected interval_us old_sampling_range round_grab_count);
           let new_sampling_range = clamp_range new_sampling_range;
           let sl = (if new_sampling_range \<noteq> old_sampling_range
                     then sl\<lparr>sampling_range := new_sampling_range\<rparr> else sl);
           let sl = (if \<not> ever_grabbed sl then sl\<lparr>ever_grabbed := True\<rparr> else sl);
           Some (sl, last_grab_count) })"

text \<open>
  Before the first grab every contention is collected. The result also says whether the grab
  thread is woken up.
\<close>

definition is_collectable_before_first_time_grabbed ::
  "int \<Rightarrow> u64 \<Rightarrow> CollectorSpeedLimit \<Rightarrow> CollectorSpeedLimit \<times> u64 \<times> bool" where
  "is_collectable_before_first_time_grabbed expected mono_us sl =
     (if \<not> ever_grabbed sl then
        let before_add = sint (count_before_grabbed sl);
            sl = sl\<lparr>count_before_grabbed := count_before_grabbed sl + 1\<rparr>
        in if before_add = 0
           then (sl\<lparr>first_sample_real_us := sint mono_us\<rparr>, sampling_range sl, False)
           else if before_add \<ge> expected then (sl, sampling_range sl, True)
           else (sl, sampling_range sl, False)
      else (sl, sampling_range sl, False))"

definition is_collectable ::
  "int \<Rightarrow> u64 \<Rightarrow> u64 \<Rightarrow> CollectorSpeedLimit \<Rightarrow> CollectorSpeedLimit \<times> u64 \<times> bool" where
  "is_collectable expected mono_us rand sl =
     (if ever_grabbed sl then
        let sr = sampling_range sl
        in if (rand AND (COLLECTOR_SAMPLING_BASE - 1)) \<ge> sr then (sl, 0, False)
           else (sl, sr, False)
      else is_collectable_before_first_time_grabbed expected mono_us sl)"

section \<open>The range stays between 1 and the base\<close>

definition sl_ok :: "CollectorSpeedLimit \<Rightarrow> bool" where
  "sl_ok sl \<longleftrightarrow> 1 \<le> sampling_range sl \<and> sampling_range sl \<le> COLLECTOR_SAMPLING_BASE"

lemma sl_ok_init: "sl_ok CollectorSpeedLimit_init"
  by (simp add: sl_ok_def CollectorSpeedLimit_init_def COLLECTOR_SAMPLING_BASE_def)

lemma clamp_range_bounds: "1 \<le> clamp_range r \<and> clamp_range r \<le> COLLECTOR_SAMPLING_BASE"
  by (auto simp: clamp_range_def COLLECTOR_SAMPLING_BASE_def word_le_nat_alt word_less_nat_alt
      unat_eq_zero [symmetric])

lemma unat_clamp_range: "unat (clamp_range r) = max 1 (min 16384 (unat r))"
  by (auto simp: clamp_range_def COLLECTOR_SAMPLING_BASE_def word_less_nat_alt unat_eq_zero [symmetric])

lemma update_speed_limit_Some:
  assumes "update_speed_limit expected now_us sl prev cur interval = Some (sl', prev2)"
    and "cur \<noteq> prev"
  shows "\<exists>r. (if ever_grabbed sl
       then next_range expected (max 0 interval) (sampling_range sl) (cur - prev)
       else first_range expected now_us (max 0 interval) (cur - prev) sl) = Some r \<and>
     sampling_range sl' = clamp_range r \<and> ever_grabbed sl' \<and> prev2 = cur \<and>
     count_before_grabbed sl' = count_before_grabbed sl \<and>
     first_sample_real_us sl' = first_sample_real_us sl"
  using assms
  by (auto simp: update_speed_limit_def Let_def max_def bind_eq_Some_conv split: if_splits)

lemma update_speed_limit_ok:
  assumes "sl_ok sl" and "update_speed_limit expected now_us sl prev cur interval = Some (sl', prev2)"
  shows "sl_ok sl'"
proof (cases "cur = prev")
  case False
  with update_speed_limit_Some [OF assms(2)] show ?thesis
    using clamp_range_bounds by (auto simp: sl_ok_def)
qed (use assms in \<open>simp add: update_speed_limit_def\<close>)

lemma is_collectable_ok: "sl_ok sl \<Longrightarrow> sl_ok (fst (is_collectable expected mono_us rand sl))"
  by (auto simp: is_collectable_def is_collectable_before_first_time_grabbed_def sl_ok_def Let_def)

lemma is_collectable_value:
  "fst (snd (is_collectable expected mono_us rand sl)) = 0 \<or>
   fst (snd (is_collectable expected mono_us rand sl)) = sampling_range sl"
  by (auto simp: is_collectable_def is_collectable_before_first_time_grabbed_def Let_def)

section \<open>The control law without wrap-around\<close>

text \<open>
  While the products fit, the new range is the exact quotient on natural numbers.
\<close>

definition ideal_next :: "nat \<Rightarrow> nat \<Rightarrow> nat \<Rightarrow> nat \<Rightarrow> nat" where
  "ideal_next expected interval old grabbed =
     (let n = expected * interval * old div (1000000 * grabbed)
      in if interval < 1000000 then (n * interval + old * (1000000 - interval)) div 1000000 else n)"


lemma udiv_nat:
  "b \<noteq> 0 \<Longrightarrow> udiv a b = Some (a div b)"
  by (simp add: udiv_def)

lemma mult_le_4:
  "a \<le> x \<Longrightarrow> b \<le> y \<Longrightarrow> a * b \<le> x * (y :: nat)"
  by (rule mult_le_mono)

lemma next_range_exact:
  assumes "int e * int i \<le> 2 ^ 49" and "unat old \<le> 16384"
    and "0 < unat g" and "1000000 * unat g < 2 ^ 64"
  shows "\<exists>r. next_range (int e) (int i) old g = Some r \<and> unat r = ideal_next e i (unat old) (unat g)"
proof -
  have ei: "e * i \<le> 2 ^ 49" using assms(1) by (simp flip: of_nat_mult)
  have eio: "e * i * unat old \<le> 2 ^ 63" using mult_le_mono [OF ei assms(2)] by simp
  have "0 \<le> int e * int i" by simp
  moreover have "(2 :: int) ^ 49 < 2 ^ 63" "- (2 ^ 63) \<le> (0 :: int)" by simp_all
  ultimately have lr: "long_range (int e * int i)"
    using assms(1) unfolding long_range_def by (meson order.trans order.strict_trans1)
  let ?n = "e * i * unat old div (1000000 * unat g)"
  have den: "unat (1000000 * g) = 1000000 * unat g" using assms(4) by (simp add: unat_word_ariths)
  have den0: "1000000 * g \<noteq> 0" using assms(3) den by (metis mult_is_0 unat_0 zero_neq_numeral less_irrefl)
  have num: "unat (of_int (int e * int i) * old) = e * i * unat old"
  proof -
    have eq: "of_int (int e * int i) * old = (of_nat (e * i * unat old) :: u64)" by simp
    show ?thesis unfolding eq by (rule unat_less_of_nat_bound) (use eio in simp)
  qed
  have quot: "unat (of_int (int e * int i) * old div (1000000 * g)) = ?n"
    by (simp only: unat_div_distrib num den)
  show ?thesis
  proof (cases "i < 1000000")
    case True
    have "?n * i \<le> e * i * unat old"
    proof -
      have "?n * i \<le> e * i * unat old div 1000000 * 1000000"
        using True assms(3) by (intro mult_le_mono div_le_mono2) auto
      also have "\<dots> \<le> e * i * unat old" by (simp add: div_times_less_eq_dividend)
      finally show ?thesis .
    qed
    moreover have "unat old * (1000000 - i) \<le> 16384 * 1000000"
      using assms(2) by (intro mult_le_mono) auto
    moreover have "2 ^ 63 + 16384 * 1000000 < (2 ^ 64 :: nat)" by simp
    ultimately have small: "?n * i + unat old * (1000000 - i) < 2 ^ 64" using eio by linarith
    let ?q = "of_int (int e * int i) * old div (1000000 * g)"
    have eq: "?q * of_int (int i) + old * of_int (1000000 - int i) =
        of_nat (?n * i + unat old * (1000000 - i))"
    proof -
      have "?q = of_nat ?n" by (simp only: quot [symmetric] of_nat_unat ucast_id)
      moreover have "of_int (1000000 - int i) = (of_nat (1000000 - i) :: u64)"
        using True by (simp add: of_nat_diff)
      ultimately show ?thesis by simp
    qed
    have blend: "unat (?q * of_int (int i) + old * of_int (1000000 - int i)) =
        ?n * i + unat old * (1000000 - i)"
      unfolding eq by (rule unat_less_of_nat_bound) (use small in simp)
    show ?thesis
      using True lr den0 blend
      by (simp add: next_range_def udiv_nat ideal_next_def Let_def unat_div_distrib del: of_int_of_nat_eq of_int_diff)
  next
    case False
    then show ?thesis
      using lr den0 quot
      by (simp add: next_range_def udiv_nat ideal_next_def Let_def del: of_int_mult)
  qed
qed

lemma ideal_next_le:
  assumes "e * i \<le> 1000000 * g" and "0 < g"
  shows "ideal_next e i old g \<le> old"
proof -
  let ?n = "e * i * old div (1000000 * g)"
  have n: "?n \<le> old"
  proof -
    have "e * i * old \<le> (1000000 * g) * old" using assms(1) by (rule mult_le_mono1)
    then have "?n \<le> (1000000 * g) * old div (1000000 * g)" by (rule div_le_mono)
    also have "\<dots> = old" using assms(2) by simp
    finally show ?thesis .
  qed
  have "(?n * i + old * (1000000 - i)) div 1000000 \<le> old" if "i < 1000000"
  proof -
    have "?n * i + old * (1000000 - i) \<le> old * i + old * (1000000 - i)" using n by simp
    also have "\<dots> = old * 1000000" using that by (simp flip: distrib_left)
    finally have "(?n * i + old * (1000000 - i)) div 1000000 \<le> old * 1000000 div 1000000"
      by (rule div_le_mono)
    then show ?thesis by simp
  qed
  with n show ?thesis by (simp add: ideal_next_def Let_def)
qed

lemma ideal_next_ge:
  assumes "1000000 * g \<le> e * i" and "0 < g"
  shows "old \<le> ideal_next e i old g"
proof -
  let ?n = "e * i * old div (1000000 * g)"
  have n: "old \<le> ?n"
  proof -
    have "(1000000 * g) * old \<le> e * i * old" using assms(1) by (rule mult_le_mono1)
    then have "(1000000 * g) * old div (1000000 * g) \<le> ?n" by (rule div_le_mono)
    then show ?thesis using assms(2) by simp
  qed
  have "old \<le> (?n * i + old * (1000000 - i)) div 1000000" if "i < 1000000"
  proof -
    have "old * 1000000 = old * i + old * (1000000 - i)" using that by (simp flip: distrib_left)
    also have "\<dots> \<le> ?n * i + old * (1000000 - i)" using n by simp
    finally have "old * 1000000 div 1000000 \<le> (?n * i + old * (1000000 - i)) div 1000000"
      by (rule div_le_mono)
    then show ?thesis by simp
  qed
  with n show ?thesis by (simp add: ideal_next_def Let_def)
qed

lemma update_speed_limit_exact:
  assumes "sl_ok sl" and "ever_grabbed sl" and "0 \<le> expected" and "expected * max 0 interval \<le> 2 ^ 49"
    and "prev \<noteq> cur" and "1000000 * unat (cur - prev) < 2 ^ 64"
  shows "\<exists>sl'. update_speed_limit expected now_us sl prev cur interval = Some (sl', cur) \<and>
    unat (sampling_range sl') = max 1 (min 16384
      (ideal_next (nat expected) (nat interval) (unat (sampling_range sl)) (unat (cur - prev))))"
proof -
  let ?g = "cur - prev"
  have g: "0 < unat ?g" using assms(5) by (simp add: unat_gt_0)
  have cast: "int (nat expected) = expected" "int (nat interval) = max 0 interval"
    using assms(3) by auto
  have old: "unat (sampling_range sl) \<le> 16384"
    using assms(1) by (simp add: sl_ok_def COLLECTOR_SAMPLING_BASE_def word_le_nat_alt)
  obtain r where r: "next_range expected (max 0 interval) (sampling_range sl) ?g = Some r"
    "unat r = ideal_next (nat expected) (nat interval) (unat (sampling_range sl)) (unat ?g)"
    using next_range_exact [of "nat expected" "nat interval" "sampling_range sl" ?g,
        unfolded cast, OF assms(4) old g assms(6)] by blast
  have eq: "(if interval < 0 then 0 else interval) = max 0 interval" by (simp add: max_def)
  show ?thesis
    using assms(2,5) r unat_clamp_range [of r]
    by (cases "clamp_range r = sampling_range sl") (simp_all add: update_speed_limit_def eq Let_def)
qed

section \<open>Properties\<close>

text \<open>
  C34. A range computed by the controller is always usable: starting from any speed limit whose
  range is between 1 and the sampling base (the constructor's is), every update that has a
  defined result leaves it there whatever the counts, the clocks and the wrap-around of the
  products, and an update over a round that grabbed something records the new count and ends
  the collect-everything phase. Decisions of \<open>is_collectable\<close> keep the bounds too and answer
  either 0 or the current range.
\<close>

theorem speed_limit_range_bounded:
  assumes "sl_ok sl"
  shows "sl_ok CollectorSpeedLimit_init \<and>
    (\<forall>sl' prev2. update_speed_limit expected now_us sl prev cur interval = Some (sl', prev2) \<longrightarrow>
       sl_ok sl' \<and> prev2 = cur \<and> (cur \<noteq> prev \<longrightarrow> ever_grabbed sl')) \<and>
    (\<forall>sl2 answer wake. is_collectable expected mono_us rand sl = (sl2, answer, wake) \<longrightarrow>
       sl_ok sl2 \<and> answer \<in> {0, sampling_range sl2} \<and> sampling_range sl2 = sampling_range sl)"
proof -
  have upd: "sl_ok sl' \<and> prev2 = cur \<and> (cur \<noteq> prev \<longrightarrow> ever_grabbed sl')"
    if "update_speed_limit expected now_us sl prev cur interval = Some (sl', prev2)" for sl' prev2
    using update_speed_limit_ok [OF assms that] update_speed_limit_Some [OF that] that
    by (cases "cur = prev") (auto simp: update_speed_limit_def)
  have dec: "sl_ok sl2 \<and> answer \<in> {0, sampling_range sl2} \<and> sampling_range sl2 = sampling_range sl"
    if "is_collectable expected mono_us rand sl = (sl2, answer, wake)" for sl2 answer wake
    using assms that
    by (auto simp: is_collectable_def is_collectable_before_first_time_grabbed_def sl_ok_def Let_def
        split: if_splits)
  show ?thesis using sl_ok_init upd dec by blast
qed

theorem speed_limit_range_bounded_witness:
  "sl_ok (fst (is_collectable 1000 5 77 CollectorSpeedLimit_init))"
  using speed_limit_range_bounded [OF sl_ok_init, where expected = 1000 and mono_us = 5 and rand = 77]
  by (metis prod.collapse)

text \<open>
  C16. The control law. After the first grab, while the expected number of samples of the round
  times the base fits the word, the new range is exactly the old one scaled by
  expected / grabbed, averaged with the old one in proportion when the round is shorter than a
  second, and clamped. It therefore moves in the right direction: a round that grabbed at least
  the expected number of samples never raises the range, one that grabbed at most that number
  never lowers it.
\<close>

theorem speed_limit_follows_load:
  assumes "sl_ok sl" and "ever_grabbed sl" and "0 \<le> expected" and "0 \<le> interval"
    and "expected * interval \<le> 2 ^ 49" and "prev \<noteq> cur" and "1000000 * unat (cur - prev) < 2 ^ 64"
  shows "\<exists>sl'. update_speed_limit expected now_us sl prev cur interval = Some (sl', cur) \<and>
    unat (sampling_range sl') = max 1 (min 16384
      (ideal_next (nat expected) (nat interval) (unat (sampling_range sl)) (unat (cur - prev)))) \<and>
    (expected * interval \<le> 1000000 * int (unat (cur - prev)) \<longrightarrow>
       sampling_range sl' \<le> sampling_range sl) \<and>
    (1000000 * int (unat (cur - prev)) \<le> expected * interval \<longrightarrow>
       sampling_range sl \<le> sampling_range sl')"
proof -
  let ?g = "unat (cur - prev)" and ?old = "unat (sampling_range sl)"
  obtain sl' where sl': "update_speed_limit expected now_us sl prev cur interval = Some (sl', cur)"
    "unat (sampling_range sl') = max 1 (min 16384 (ideal_next (nat expected) (nat interval) ?old ?g))"
    using update_speed_limit_exact [OF assms(1-3) _ assms(6,7), of interval now_us] assms(4,5)
    by (auto simp: max_def)
  have g: "0 < ?g" using assms(6) by (simp add: unat_gt_0)
  have old: "1 \<le> ?old" "?old \<le> 16384"
    using assms(1) by (simp_all add: sl_ok_def COLLECTOR_SAMPLING_BASE_def word_le_nat_alt)
  have prod: "int (nat expected * nat interval) = expected * interval" using assms(3,4) by simp
  have "sampling_range sl' \<le> sampling_range sl" if "expected * interval \<le> 1000000 * int ?g"
    using ideal_next_le [OF _ g, of "nat expected" "nat interval" ?old] that prod old sl'(2)
    by (auto simp: word_le_nat_alt)
  moreover have "sampling_range sl \<le> sampling_range sl'" if "1000000 * int ?g \<le> expected * interval"
    using ideal_next_ge [OF _ g, of "nat expected" "nat interval" ?old] that prod old sl'(2)
    by (auto simp: word_le_nat_alt)
  ultimately show ?thesis using sl' by blast
qed

theorem speed_limit_follows_load_witness:
  "\<exists>sl'. update_speed_limit 1000 0 \<lparr>sampling_range = 16384, ever_grabbed = True,
      count_before_grabbed = 3, first_sample_real_us = 0\<rparr> 100 5100 100000 = Some (sl', 5100) \<and>
    unat (sampling_range sl') = 14778"
  using speed_limit_follows_load [of "\<lparr>sampling_range = 16384, ever_grabbed = True,
      count_before_grabbed = 3, first_sample_real_us = 0\<rparr>" 1000 100000 100 5100 0]
  by (auto simp: sl_ok_def COLLECTOR_SAMPLING_BASE_def ideal_next_def)

text \<open>
  C25. Sampling is unbiased. Once samples have been grabbed the decision reads only the low 14
  bits of the random number; over the 16384 equally likely values of those bits exactly
  \<open>sampling_range\<close> contentions are taken, each weighted by the dumper with base / range, so that
  the weights of the taken ones add up to the number of contentions.
\<close>

theorem is_collectable_unbiased:
  assumes "sl_ok sl" and "ever_grabbed sl"
  shows "(\<Sum>k<16384. let r = fst (snd (is_collectable expected mono_us (of_nat k + 16384 * hi) sl))
      in if r = 0 then 0 else (16384 :: rat) / of_nat (unat r)) = 16384 \<and>
    card {k. k < 16384 \<and>
      fst (snd (is_collectable expected mono_us (of_nat k + 16384 * hi) sl)) \<noteq> 0} =
      unat (sampling_range sl)"
proof -
  let ?r = "unat (sampling_range sl)"
  have r: "0 < ?r" "?r \<le> 16384" "sampling_range sl \<noteq> 0"
    using assms(1) by (auto simp: sl_ok_def COLLECTOR_SAMPLING_BASE_def word_le_nat_alt)
  have low: "unat ((of_nat k + 16384 * hi :: u64) AND 16383) = k" if "k < 16384" for k
  proof -
    have "(of_nat k + 16384 * hi :: u64) AND 16383 = take_bit 14 (of_nat k + 16384 * hi)"
      by (simp add: take_bit_eq_mask mask_eq_exp_minus_1)
    then have "unat ((of_nat k + 16384 * hi :: u64) AND 16383) = unat (of_nat k + 16384 * hi :: u64) mod 16384"
      by (simp add: unsigned_take_bit_eq del: take_bit_eq_mod) (simp add: take_bit_eq_mod)
    also have "\<dots> = (k + 16384 * unat hi) mod 2 ^ 64 mod 16384"
      using that by (simp add: unat_word_ariths unat_of_nat mod_add_right_eq take_bit_eq_mod)
    also have "\<dots> = (k + 16384 * unat hi) mod 16384"
      by (rule mod_mod_cancel) simp
    finally show ?thesis using that by simp
  qed
  have value_k: "fst (snd (is_collectable expected mono_us (of_nat k + 16384 * hi) sl)) =
      (if k < ?r then sampling_range sl else 0)" if "k < 16384" for k
    using assms(2) low [OF that]
    by (simp add: is_collectable_def COLLECTOR_SAMPLING_BASE_def Let_def word_le_nat_alt)
  have set_eq: "{k. k < 16384 \<and>
      fst (snd (is_collectable expected mono_us (of_nat k + 16384 * hi) sl)) \<noteq> 0} = {..<?r}"
    using value_k r by (auto split: if_splits)
  have card: "card {k. k < 16384 \<and>
      fst (snd (is_collectable expected mono_us (of_nat k + 16384 * hi) sl)) \<noteq> 0} = ?r"
    by (simp add: set_eq)
  have "(\<Sum>k<16384. let q = fst (snd (is_collectable expected mono_us (of_nat k + 16384 * hi) sl))
      in if q = 0 then 0 else (16384 :: rat) / of_nat (unat q)) =
    (\<Sum>k\<in>{..<?r}. 16384 / of_nat ?r)"
    using value_k r by (intro sum.mono_neutral_cong_right) (auto simp: Let_def)
  also have "\<dots> = of_nat ?r * (16384 / of_nat ?r)" by simp
  also have "\<dots> = 16384" using r(1) by (simp del: of_nat_unat)
  finally show ?thesis using card by simp
qed

theorem is_collectable_unbiased_witness:
  "card {k. k < 16384 \<and> fst (snd (is_collectable 1000 5 (of_nat k + 16384 * 9)
      \<lparr>sampling_range = 327, ever_grabbed = True, count_before_grabbed = 1,
       first_sample_real_us = 5\<rparr>)) \<noteq> 0} = 327"
  using is_collectable_unbiased [of "\<lparr>sampling_range = 327, ever_grabbed = True,
      count_before_grabbed = 1, first_sample_real_us = 5\<rparr>" 1000 5 9]
  by (simp add: sl_ok_def COLLECTOR_SAMPLING_BASE_def)

text \<open>
  The first round mixes two clocks. \<open>first_sample_real_us\<close> is taken from the monotonic clock
  and subtracted from the wall clock. For 5000 contentions in the 100 ms after the first one,
  clocks with the same origin would give the range 327 that matches 1000 samples a second; with
  a monotonic clock that counts from boot (1000 s) and a wall clock that counts from 1970 the
  same round gives the full range 16384, because the product wraps around.
\<close>

theorem first_round_mixes_clocks:
  "let sl = fst (is_collectable 1000 1000000000 0 CollectorSpeedLimit_init);
       range_at = (\<lambda>wall. map_option (\<lambda>(sl', c). (uint (sampling_range sl'), uint c))
          (update_speed_limit 1000 wall sl 0 5000 100000))
   in first_sample_real_us sl = 1000000000 \<and>
      range_at 1000100000 = Some (327, 5000) \<and>
      range_at 1700000000100000 = Some (16384, 5000)"
  by (simp add: is_collectable_def is_collectable_before_first_time_grabbed_def
      CollectorSpeedLimit_init_def update_speed_limit_def first_range_def udiv_def clamp_range_def
      COLLECTOR_SAMPLING_BASE_def Let_def chk_long_def long_range_def)

end
