(* ===== verification/Binary64.thy ===== *)
theory Binary64
  imports Complex_Main "HOL-Library.Log_Nat" Prelude
begin

text \<open>
  The \<open>double\<close> values of the program (the weight of a sample). A finite \<open>double\<close> is the
  rational number it denotes, and an operation is the exact one followed by rounding to the
  nearest value with a 53-bit significand, ties to the even one. The program only forms weights
  between 1 and a few thousand millions, so the ends of the exponent range (overflow to infinity,
  subnormals) are not modelled.
\<close>

type_synonym double = rat

section \<open>Rounding\<close>

text \<open>The exponent \<open>e\<close> of a positive number: \<open>2 ^ e \<le> x < 2 ^ (e + 1)\<close>.\<close>

definition exponent :: "rat \<Rightarrow> int" where
  "exponent x = (if 1 \<le> x then int (floorlog 2 (nat \<lfloor>x\<rfloor>)) - 1
     else - int (floorlog 2 (nat (\<lceil>1 / x\<rceil> - 1))))"

definition two_pow :: "int \<Rightarrow> rat" where
  "two_pow e = (if 0 \<le> e then 2 ^ nat e else 1 / 2 ^ nat (- e))"

definition round_even :: "rat \<Rightarrow> int" where
  "round_even x =
     (let n = \<lfloor>x\<rfloor>; d = x - of_int n
      in if d < 1 / 2 then n else if 1 / 2 < d then n + 1 else if even n then n else n + 1)"

definition fl :: "rat \<Rightarrow> double" where
  "fl x = (if x = 0 then 0
     else let q = two_pow (exponent \<bar>x\<bar> - 52) in of_int (round_even (x / q)) * q)"

definition double_of_size :: "u64 \<Rightarrow> double" where
  "double_of_size n = fl (of_nat (unat n))"

definition double_add :: "double \<Rightarrow> double \<Rightarrow> double" where
  "double_add x y = fl (x + y)"

definition double_div :: "double \<Rightarrow> double \<Rightarrow> double" where
  "double_div x y = fl (x / y)"

text \<open>\<open>static_cast<size_t>(ceil(x))\<close>, for values in the range of the type.\<close>

definition ceil_size :: "double \<Rightarrow> u64" where
  "ceil_size x = of_int \<lceil>x\<rceil>"

section \<open>Error of rounding\<close>

lemma two_pow_pos: "0 < two_pow e"
  by (simp add: two_pow_def)

lemma two_pow_powr: "two_pow e = 2 powi e"
  by (cases "0 \<le> e") (simp_all add: two_pow_def power_int_def power_inverse inverse_eq_divide power_one_over)

lemma round_even_error: "\<bar>of_int (round_even x) - x\<bar> \<le> 1 / 2"
proof -
  have "of_int \<lfloor>x\<rfloor> \<le> x" "x < of_int \<lfloor>x\<rfloor> + 1" by linarith+
  then show ?thesis by (auto simp: round_even_def Let_def abs_le_iff field_simps)
qed

lemma round_even_of_int [simp]: "round_even (of_int n) = n"
  by (simp add: round_even_def Let_def)

lemma exponent_lower:
  assumes "1 \<le> x"
  shows "two_pow (exponent x) \<le> x"
proof -
  let ?n = "nat \<lfloor>x\<rfloor>"
  have n: "0 < ?n" "of_nat ?n \<le> x" using assms by (auto simp: le_floor_iff)
  have fl: "0 < floorlog 2 ?n" using n(1) by (simp add: floorlog_def)
  have "2 ^ (floorlog 2 ?n - 1) \<le> ?n" by (rule floorlog_bounds [THEN conjunct1]) (use n in auto)
  then have "(2 :: rat) ^ (floorlog 2 ?n - 1) \<le> of_nat ?n"
    by (metis of_nat_le_iff of_nat_numeral of_nat_power)
  also note n(2)
  finally show ?thesis
    using assms fl by (simp add: exponent_def two_pow_def nat_diff_distrib)
qed

lemma fl_error:
  assumes "1 \<le> x"
  shows "\<bar>fl x - x\<bar> \<le> x / 2 ^ 53"
proof -
  let ?q = "two_pow (exponent x - 52)"
  have q: "0 < ?q" by (rule two_pow_pos)
  have qx: "?q * 2 ^ 52 \<le> x"
    using exponent_lower [OF assms] by (simp add: two_pow_powr power_int_diff)
  have "fl x - x = (of_int (round_even (x / ?q)) - x / ?q) * ?q"
    using assms q by (simp add: fl_def Let_def left_diff_distrib)
  then have "\<bar>fl x - x\<bar> \<le> 1 / 2 * ?q"
    using round_even_error [of "x / ?q"] q by (simp add: abs_mult)
  also have "\<dots> \<le> x / 2 ^ 53" using qx by simp
  finally show ?thesis .
qed

lemma exponent_of_nat:
  assumes "0 < n" and "n \<le> 2 ^ 52"
  shows "exponent (of_nat n) \<le> 52"
proof -
  have "floorlog 2 n \<le> 53"
    using assms by (intro floorlog_leI) auto
  then show ?thesis using assms by (simp add: exponent_def)
qed

lemma fl_of_nat:
  assumes "n \<le> 2 ^ 52"
  shows "fl (of_nat n) = of_nat n"
proof (cases "n = 0")
  case False
  let ?e = "exponent (of_nat n)"
  have e: "?e \<le> 52" using exponent_of_nat False assms by simp
  have "of_nat n / two_pow (?e - 52) = of_int (int n * 2 ^ nat (52 - ?e))"
    using e by (cases "?e = 52") (auto simp: two_pow_def)
  then have "round_even (of_nat n / two_pow (?e - 52)) = int n * 2 ^ nat (52 - ?e)"
    by (metis round_even_of_int)
  moreover have "(2 :: rat) ^ nat (52 - ?e) * two_pow (?e - 52) = 1"
    using e by (cases "?e = 52") (auto simp: two_pow_def)
  ultimately show ?thesis using False by (simp add: fl_def Let_def mult.assoc)
qed (simp add: fl_def)

text \<open>The weight of a sample taken with the range \<open>r\<close>, and its ceiling, which is exact.\<close>

lemma weight_ceiling:
  assumes "1 \<le> r" and "r \<le> 16384"
  shows "\<lceil>fl (16384 / of_nat r)\<rceil> = int ((16384 + r - 1) div r)"
proof -
  let ?x = "16384 / of_nat r :: rat" and ?n = "(16384 + r - 1) div r"
  have r: "0 < (of_nat r :: rat)" using assms by simp
  have x: "1 \<le> ?x" "?x \<le> 16384" using assms by (simp_all add: field_simps)
  have n: "r * ?n \<le> 16384 + r - 1" "16384 + r - 1 < r * ?n + r"
    using assms dividend_less_div_times [of r "16384 + r - 1"] by (simp_all add: mult.commute)
  have n1: "1 \<le> ?n" "?n \<le> 16384"
  proof -
    show "1 \<le> ?n" using n(2) by (cases "?n = 0") auto
    show "?n \<le> 16384"
    proof (rule ccontr)
      assume "\<not> ?n \<le> 16384"
      then have "16385 \<le> ?n" by linarith
      then have "r * 16385 \<le> r * ?n" by (rule mult_le_mono2)
      with n(1) assms(1) show False by linarith
    qed
  qed
  have xlow: "of_nat (?n - 1) + 1 / of_nat r \<le> ?x"
  proof -
    have "r * (?n - 1) + 1 \<le> 16384" using n(1) n1 assms by (simp add: algebra_simps diff_mult_distrib2)
    then have "of_nat (r * (?n - 1) + 1) \<le> (16384 :: rat)" by (metis of_nat_le_iff of_nat_numeral)
    then show ?thesis using r by (simp add: field_simps)
  qed
  have xhigh: "?x \<le> of_nat ?n"
  proof -
    have "16384 \<le> r * ?n" using n(2) assms by linarith
    then have "(16384 :: rat) \<le> of_nat (r * ?n)" by (metis of_nat_le_iff of_nat_numeral)
    then show ?thesis using r by (simp add: field_simps)
  qed
  have err: "\<bar>fl ?x - ?x\<bar> \<le> 16384 / 2 ^ 53" using fl_error [OF x(1)] x(2) by simp
  have low: "of_nat (?n - 1) < fl ?x"
  proof -
    have "(16384 :: rat) / 2 ^ 53 < 1 / of_nat r" using assms r by (simp add: field_simps)
    then show ?thesis using err xlow by linarith
  qed
  have high: "fl ?x \<le> of_nat ?n"
  proof (cases "?x = of_nat ?n")
    case True
    then show ?thesis using fl_of_nat [of ?n] n1 by simp
  next
    case False
    have "of_nat r * of_nat ?n \<noteq> (16384 :: rat)" using False r by (auto simp: field_simps)
    then have "r * ?n \<noteq> 16384" by (metis of_nat_mult of_nat_numeral)
    then have "16384 + 1 \<le> r * ?n" using n(2) assms by linarith
    then have "(16384 + 1 :: rat) \<le> of_nat (r * ?n)" by (metis of_nat_1 of_nat_add of_nat_le_iff of_nat_numeral)
    then have "?x + 1 / of_nat r \<le> of_nat ?n" using r by (simp add: field_simps)
    moreover have "(16384 :: rat) / 2 ^ 53 < 1 / of_nat r" using assms r by (simp add: field_simps)
    ultimately show ?thesis using err by linarith
  qed
  show ?thesis using low high n1 by (simp add: ceiling_eq_iff of_nat_diff)
qed

end
