(* ===== verification/Contention.thy ===== *)
theory Contention
  imports "HOL-Library.Multiset" Speed_Limit Binary64 Murmur_Hash Util_Time
begin

text \<open>
  The hooks of \<^verbatim>\<open>src/contention.cpp\<close> around \<open>pthread_mutex_lock\<close> and \<open>pthread_mutex_unlock\<close>. The
  real lock functions, \<open>pthread_mutex_trylock\<close>, the clocks, \<open>backtrace\<close> and the generator are
  outside: what they answered is an argument. A hook is cut where it can block: the part of the
  lock hook before the real lock (\<open>lock_enter\<close>), the part after it (\<open>lock_finish\<close>), and the
  two parts of the unlock hook around the real unlock. The thread-local variables of a thread
  and the variables all threads share are two records.
\<close>

section \<open>State\<close>

record pthread_contention_site_t =
  csite_duration_ns :: i64
  csite_sampling_range :: u64

record MutexAndContentionSite =
  tls_mutex :: u64
  tls_csite :: pthread_contention_site_t

record TLSPthreadContentionSites =
  tls_count :: nat
  tls_cp_version :: u64
  tls_list :: "MutexAndContentionSite list"

record MutexMapEntry =
  versioned_mutex :: u64
  map_csite :: pthread_contention_site_t

definition TLS_MAX_COUNT :: nat where "TLS_MAX_COUNT = 3"
definition MUTEX_MAP_SIZE :: u64 where "MUTEX_MAP_SIZE = 1024"
definition PTR_BITS :: nat where "PTR_BITS = 48"

text \<open>Thread-local variables: \<open>tls_csites\<close> and \<open>tls_inside_lock\<close>.\<close>

record thread =
  tls_csites :: TLSPthreadContentionSites
  tls_inside_lock :: bool

text \<open>
  Shared variables; of the pointer \<open>g_cp\<close> only whether it is null is read here. The array
  \<open>g_mutex_map\<close> is indexed by words, and only by words below its size.
\<close>

record shared =
  g_cp :: bool
  g_cp_version :: u64
  g_mutex_map :: "u64 \<Rightarrow> MutexMapEntry"
  g_cp_sl :: CollectorSpeedLimit

definition zero_csite :: pthread_contention_site_t where
  "zero_csite = \<lparr>csite_duration_ns = 0, csite_sampling_range = 0\<rparr>"

definition thread_init :: thread where
  "thread_init =
     \<lparr>tls_csites = \<lparr>tls_count = 0, tls_cp_version = 0,
        tls_list = replicate TLS_MAX_COUNT \<lparr>tls_mutex = 0, tls_csite = zero_csite\<rparr>\<rparr>,
      tls_inside_lock = False\<rparr>"

definition shared_init :: shared where
  "shared_init =
     \<lparr>g_cp = False, g_cp_version = 0,
      g_mutex_map = (\<lambda>_. \<lparr>versioned_mutex = 0, map_csite = zero_csite\<rparr>),
      g_cp_sl = CollectorSpeedLimit_init\<rparr>"

text \<open>The object that is submitted. \<open>stack\<close> holds the \<open>frames_count\<close> frames that were written.\<close>

record SampledContention =
  duration_ns :: i64
  weight :: double
  frames_count :: nat
  stack :: "u64 list"

section \<open>Contention sites\<close>

definition is_contention_site_valid :: "pthread_contention_site_t \<Rightarrow> bool" where
  "is_contention_site_valid cs \<longleftrightarrow> csite_sampling_range cs \<noteq> 0"

definition make_contention_site_invalid :: "pthread_contention_site_t \<Rightarrow> pthread_contention_site_t" where
  "make_contention_site_invalid cs = cs\<lparr>csite_sampling_range := 0\<rparr>"

definition hash_mutex_ptr :: "u64 \<Rightarrow> u64" where
  "hash_mutex_ptr m = fmix64 m"

definition map_slot :: "u64 \<Rightarrow> u64" where
  "map_slot m = hash_mutex_ptr m AND (MUTEX_MAP_SIZE - 1)"

definition set_map_entry :: "u64 \<Rightarrow> MutexMapEntry \<Rightarrow> shared \<Rightarrow> shared" where
  "set_map_entry i e s = s\<lparr>g_mutex_map := (g_mutex_map s)(i := e)\<rparr>"

text \<open>
  Claim the map entry of a mutex; the returned flag says whether a site was obtained. The
  exchange fails when another thread changed the entry after it was loaded (\<open>exchanged\<close>).
\<close>

definition add_pthread_contention_site :: "bool \<Rightarrow> u64 \<Rightarrow> shared \<Rightarrow> shared \<times> bool" where
  "add_pthread_contention_site exchanged mutex s =
     (let entry = g_mutex_map s (map_slot mutex);
          expected = versioned_mutex entry
      in if expected = 0 \<or> drop_bit PTR_BITS expected \<noteq> (g_cp_version s AND (2 ^ (64 - PTR_BITS) - 1))
         then let desired = push_bit PTR_BITS (g_cp_version s) OR mutex
              in if exchanged
                 then (set_map_entry (map_slot mutex) (entry\<lparr>versioned_mutex := desired\<rparr>) s, True)
                 else (s, False)
         else (s, False))"

definition remove_pthread_contention_site ::
  "u64 \<Rightarrow> shared \<Rightarrow> shared \<times> pthread_contention_site_t option" where
  "remove_pthread_contention_site mutex s =
     (let entry = g_mutex_map s (map_slot mutex)
      in if (versioned_mutex entry AND (2 ^ PTR_BITS - 1)) \<noteq> mutex then (s, None)
         else let saved_csite = map_csite entry;
                  entry = entry\<lparr>map_csite := make_contention_site_invalid (map_csite entry)\<rparr>;
                  entry = entry\<lparr>versioned_mutex := 0\<rparr>
              in (set_map_entry (map_slot mutex) entry s, Some saved_csite))"

text \<open>
  The sample that is handed to the collector, and the microseconds it is submitted with. An
  invalid site is a division by zero. \<open>frames\<close> is what \<open>backtrace\<close> stores in an array of the
  given size. \<open>tls_inside_lock\<close> is set during the call and clear after it.
\<close>

definition submit_contention ::
  "(nat \<Rightarrow> u64 list) \<Rightarrow> pthread_contention_site_t \<Rightarrow> i64 \<Rightarrow> (SampledContention \<times> u64) option" where
  "submit_contention backtrace csite now_ns = do {
     d \<leftarrow> udiv (csite_duration_ns csite * COLLECTOR_SAMPLING_BASE) (csite_sampling_range csite);
     let c = double_div (double_of_size COLLECTOR_SAMPLING_BASE) (double_of_size (csite_sampling_range csite));
     let frames = take 26 (backtrace 26);
     Some (\<lparr>duration_ns = d, weight = c, frames_count = length frames, stack = frames\<rparr>,
           of_int (c_div (sint now_ns) 1000)) }"

section \<open>The lock hook\<close>

definition EBUSY :: int where "EBUSY = 16"

text \<open>What the hook does after its first part.\<close>

datatype lock_plan =
  Returned int
  | Real_only
  | Sampled (plan_slot: "nat option") (plan_range: u64) (plan_start: u64)

definition lock_enter ::
  "int \<Rightarrow> int \<Rightarrow> u64 \<Rightarrow> u64 \<Rightarrow> u64 \<Rightarrow> u64 \<Rightarrow> shared \<Rightarrow> thread \<Rightarrow> shared \<times> thread \<times> lock_plan" where
  "lock_enter trylock_res expected mono_us rand now_ns mutex s th =
     (if \<not> g_cp s \<or> tls_inside_lock th then (s, th, Real_only)
      else if trylock_res \<noteq> EBUSY then (s, th, Returned trylock_res)
      else
        let (sl, range_taken, wakeup) = is_collectable expected mono_us rand (g_cp_sl s);
            s = s\<lparr>g_cp_sl := sl\<rparr>;
            fast_alt = tls_csites th;
            fast_alt = (if tls_cp_version fast_alt \<noteq> g_cp_version s
                        then fast_alt\<lparr>tls_cp_version := g_cp_version s, tls_count := 0\<rparr> else fast_alt)
        in if tls_count fast_alt < TLS_MAX_COUNT then
             let i = tls_count fast_alt;
                 entry = (tls_list fast_alt ! i)\<lparr>tls_mutex := mutex\<rparr>
             in if range_taken = 0 then
                  (s, th\<lparr>tls_csites := fast_alt\<lparr>tls_count := i + 1, tls_list := (tls_list fast_alt)[i :=
                        entry\<lparr>tls_csite := make_contention_site_invalid (tls_csite entry)\<rparr>]\<rparr>\<rparr>,
                   Real_only)
                else
                  (s, th\<lparr>tls_csites := fast_alt\<lparr>tls_count := i + 1,
                        tls_list := (tls_list fast_alt)[i := entry]\<rparr>\<rparr>,
                   Sampled (Some i) range_taken now_ns)
           else if range_taken = 0 then (s, th\<lparr>tls_csites := fast_alt\<rparr>, Real_only)
           else (s, th\<lparr>tls_csites := fast_alt\<rparr>, Sampled None range_taken now_ns))"

text \<open>After the real lock returned \<open>res\<close>, at the time \<open>now_ns\<close>.\<close>

definition lock_finish ::
  "bool \<Rightarrow> int \<Rightarrow> u64 \<Rightarrow> u64 \<Rightarrow> lock_plan \<Rightarrow> shared \<Rightarrow> thread \<Rightarrow> shared \<times> thread \<times> int" where
  "lock_finish exchanged res now_ns mutex plan s th = (case plan of
       Returned r \<Rightarrow> (s, th, r)
     | Real_only \<Rightarrow> (s, th, res)
     | Sampled csite range_taken start_time_ns \<Rightarrow>
         let filled = \<lparr>csite_duration_ns = now_ns - start_time_ns, csite_sampling_range = range_taken\<rparr>
         in if res = 0 then
              case csite of
                Some i \<Rightarrow>
                  let fast_alt = tls_csites th
                  in (s, th\<lparr>tls_csites := fast_alt\<lparr>tls_list := (tls_list fast_alt)[i :=
                        (tls_list fast_alt ! i)\<lparr>tls_csite := filled\<rparr>]\<rparr>\<rparr>, res)
              | None \<Rightarrow>
                  (case add_pthread_contention_site exchanged mutex s of
                     (s, False) \<Rightarrow> (s, th, res)
                   | (s, True) \<Rightarrow>
                       let entry = g_mutex_map s (map_slot mutex)
                       in (set_map_entry (map_slot mutex) (entry\<lparr>map_csite := filled\<rparr>) s, th, res))
            else (s, th, res))"

text \<open>The whole hook, when no other thread runs in between.\<close>

definition pthread_mutex_lock_impl ::
  "int \<Rightarrow> int \<Rightarrow> u64 \<Rightarrow> u64 \<Rightarrow> u64 \<Rightarrow> int \<Rightarrow> u64 \<Rightarrow> u64 \<Rightarrow> shared \<Rightarrow> thread \<Rightarrow> shared \<times> thread \<times> int" where
  "pthread_mutex_lock_impl trylock_res expected mono_us rand start_ns real_res end_ns mutex s th =
     (case lock_enter trylock_res expected mono_us rand start_ns mutex s th of
        (s, th, plan) \<Rightarrow> lock_finish True real_res end_ns mutex plan s th)"

section \<open>The unlock hook\<close>

text \<open>The search runs from the last record of the thread down to the first.\<close>

fun find_record :: "MutexAndContentionSite list \<Rightarrow> u64 \<Rightarrow> nat \<Rightarrow> nat option" where
  "find_record l mutex 0 = None"
| "find_record l mutex (Suc i) = (if tls_mutex (l ! i) = mutex then Some i else find_record l mutex i)"

definition drop_record :: "nat \<Rightarrow> TLSPthreadContentionSites \<Rightarrow> TLSPthreadContentionSites" where
  "drop_record i fast_alt =
     (let n = tls_count fast_alt - 1
      in fast_alt\<lparr>tls_count := n, tls_list := (tls_list fast_alt)[i := tls_list fast_alt ! n]\<rparr>)"

text \<open>
  Before the real unlock: the site that was saved, and the time taken when it is to be submitted
  (0 if there is nothing to submit). \<open>None\<close> stands for the hook that only calls the real unlock.
\<close>

definition unlock_begin ::
  "u64 \<Rightarrow> u64 \<Rightarrow> shared \<Rightarrow> thread \<Rightarrow> shared \<times> thread \<times> (u64 \<times> pthread_contention_site_t) option" where
  "unlock_begin now_ns mutex s th =
     (if \<not> g_cp s \<or> tls_inside_lock th then (s, th, None)
      else
        let fast_alt = tls_csites th
        in case find_record (tls_list fast_alt) mutex (tls_count fast_alt) of
             Some i \<Rightarrow>
               let cs = tls_csite (tls_list fast_alt ! i);
                   saved = (if is_contention_site_valid cs then (now_ns, cs) else (0, zero_csite))
               in (s, th\<lparr>tls_csites := drop_record i fast_alt\<rparr>, Some saved)
           | None \<Rightarrow>
               (case remove_pthread_contention_site mutex s of
                  (s, Some saved_csite) \<Rightarrow> (s, th, Some (now_ns, saved_csite))
                | (s, None) \<Rightarrow> (s, th, Some (0, zero_csite))))"

text \<open>After the real unlock: the sample that is submitted, if any.\<close>

definition unlock_finish ::
  "(nat \<Rightarrow> u64 list) \<Rightarrow> u64 \<Rightarrow> (u64 \<times> pthread_contention_site_t) option \<Rightarrow>
     (SampledContention \<times> u64) option option" where
  "unlock_finish backtrace now_ns saved = (case saved of
       None \<Rightarrow> Some None
     | Some (unlock_start_time_ns, saved_csite) \<Rightarrow>
         if unlock_start_time_ns \<noteq> 0 then
           let saved_csite = saved_csite\<lparr>csite_duration_ns :=
                 csite_duration_ns saved_csite + (now_ns - unlock_start_time_ns)\<rparr>
           in map_option Some (submit_contention backtrace saved_csite now_ns)
         else Some None)"

definition pthread_mutex_unlock_impl ::
  "(nat \<Rightarrow> u64 list) \<Rightarrow> u64 \<Rightarrow> int \<Rightarrow> u64 \<Rightarrow> u64 \<Rightarrow> shared \<Rightarrow> thread \<Rightarrow>
     (shared \<times> thread \<times> (SampledContention \<times> u64) option \<times> int) option" where
  "pthread_mutex_unlock_impl backtrace start_ns real_res end_ns mutex s th =
     (case unlock_begin start_ns mutex s th of
        (s, th, saved) \<Rightarrow> do {
          sample \<leftarrow> unlock_finish backtrace end_ns saved;
          Some (s, th, sample, real_res) })"

section \<open>The records of a thread\<close>

definition tls_ok :: "thread \<Rightarrow> bool" where
  "tls_ok th \<longleftrightarrow> length (tls_list (tls_csites th)) = TLS_MAX_COUNT \<and> tls_count (tls_csites th) \<le> TLS_MAX_COUNT"

text \<open>The records in use, the latest last.\<close>

definition live :: "thread \<Rightarrow> MutexAndContentionSite list" where
  "live th = take (tls_count (tls_csites th)) (tls_list (tls_csites th))"

text \<open>The records a contended lock starts from: those of an earlier session are discarded.\<close>

definition live_in :: "shared \<Rightarrow> thread \<Rightarrow> MutexAndContentionSite list" where
  "live_in s th = (if tls_cp_version (tls_csites th) = g_cp_version s then live th else [])"

text \<open>Position of the last record of a mutex.\<close>

lemma find_record_Some:
  "find_record l m n = Some i \<longleftrightarrow>
     i < n \<and> tls_mutex (l ! i) = m \<and> (\<forall>j. i < j \<and> j < n \<longrightarrow> tls_mutex (l ! j) \<noteq> m)"
  by (induction n) (auto simp: less_Suc_eq)

lemma find_record_None: "find_record l m n = None \<longleftrightarrow> (\<forall>j<n. tls_mutex (l ! j) \<noteq> m)"
  by (induction n) (auto simp: less_Suc_eq)

lemma find_record_take: "n \<le> k \<Longrightarrow> find_record (take k l) m n = find_record l m n"
  by (induction n) auto

lemma find_record_live:
  "tls_ok th \<Longrightarrow>
   find_record (tls_list (tls_csites th)) m (tls_count (tls_csites th)) =
   find_record (live th) m (length (live th))"
  by (simp add: tls_ok_def live_def min_absorb2 find_record_take)

lemma find_record_snoc: "find_record (xs @ [r]) m (Suc (length xs)) =
    (if tls_mutex r = m then Some (length xs) else find_record xs m (length xs))"
proof -
  have "n \<le> length xs \<Longrightarrow> find_record (xs @ [r]) m n = find_record xs m n" for n
    by (induction n) (auto simp: nth_append)
  then show ?thesis by simp
qed

lemma live_nth: "tls_ok th \<Longrightarrow> i < length (live th) \<Longrightarrow> live th ! i = tls_list (tls_csites th) ! i"
  by (simp add: live_def tls_ok_def)

lemma length_live: "tls_ok th \<Longrightarrow> length (live th) = tls_count (tls_csites th)"
  by (simp add: live_def tls_ok_def)

lemma drop_record_live:
  assumes "tls_ok th" and "i < length (live th)"
  shows "live (th\<lparr>tls_csites := drop_record i (tls_csites th)\<rparr>) = butlast ((live th)[i := last (live th)])"
    and "tls_ok (th\<lparr>tls_csites := drop_record i (tls_csites th)\<rparr>)"
proof -
  let ?f = "tls_csites th"
  have n: "0 < tls_count ?f" "tls_count ?f \<le> length (tls_list ?f)" "i < tls_count ?f"
    using assms by (auto simp: live_def tls_ok_def)
  have "last (live th) = tls_list ?f ! (tls_count ?f - 1)"
    using n by (subst last_conv_nth) (auto simp: live_def min_def)
  moreover have "butlast ((take (tls_count ?f) (tls_list ?f))[i := x]) =
      take (tls_count ?f - 1) ((tls_list ?f)[i := x])" for x
    using n by (simp add: butlast_conv_take take_update_swap min_def)
  ultimately show "live (th\<lparr>tls_csites := drop_record i ?f\<rparr>) = butlast ((live th)[i := last (live th)])"
    by (simp add: live_def drop_record_def Let_def)
  show "tls_ok (th\<lparr>tls_csites := drop_record i ?f\<rparr>)"
    using assms(1) by (auto simp: tls_ok_def drop_record_def Let_def)
qed

lemma mset_swap_remove:
  assumes "i < length xs"
  shows "mset (butlast (xs[i := last xs])) = mset xs - {#xs ! i#}"
proof (cases "i = length xs - 1")
  case True
  then have "butlast (xs[i := last xs]) = butlast xs" "xs ! i = last xs"
    using assms by (auto simp: butlast_list_update) (metis One_nat_def last_conv_nth length_0_conv less_nat_zero_code)
  then show ?thesis using assms by (cases xs rule: rev_cases) auto
next
  case False
  obtain ys y where xs: "xs = ys @ [y]" using assms by (cases xs rule: rev_cases) auto
  with False assms have i: "i < length ys" by simp
  then show ?thesis by (simp add: xs list_update_append nth_append mset_update)
qed

lemma mset_without_nth:
  assumes "i < length xs"
  shows "mset xs - {#xs ! i#} = mset (take i xs @ drop (Suc i) xs)"
proof -
  have "mset xs = mset (take i xs @ xs ! i # drop (Suc i) xs)"
    using assms by (simp only: id_take_nth_drop [symmetric])
  then show ?thesis by simp
qed

lemma lock_enter_live:
  assumes "tls_ok th" and "lock_enter tr ex us rand now m s th = (s', th', plan)"
  shows "tls_ok th' \<and> tls_inside_lock th' = tls_inside_lock th \<and>
    (case plan of Sampled (Some i) r t \<Rightarrow> i < TLS_MAX_COUNT | _ \<Rightarrow> True)"
  using assms
  by (auto simp: lock_enter_def tls_ok_def TLS_MAX_COUNT_def Let_def split: if_splits prod.splits)

lemma lock_finish_tls_ok:
  assumes "tls_ok th" and "lock_finish x res now m plan s th = (s', th', r)"
  shows "tls_ok th' \<and> tls_inside_lock th' = tls_inside_lock th"
  using assms
  by (auto simp: lock_finish_def tls_ok_def Let_def split: if_splits prod.splits lock_plan.splits
      option.splits bool.splits)

lemma unlock_begin_tls_ok:
  assumes "tls_ok th" and "unlock_begin now m s th = (s', th', saved)"
  shows "tls_ok th' \<and> tls_inside_lock th' = tls_inside_lock th"
  using assms
  by (auto simp: unlock_begin_def tls_ok_def drop_record_def Let_def split: if_splits prod.splits option.splits)

section \<open>The map of mutexes\<close>

text \<open>An entry that is in use has a valid site.\<close>

definition map_ok :: "shared \<Rightarrow> bool" where
  "map_ok s \<longleftrightarrow> (\<forall>i. versioned_mutex (g_mutex_map s i) \<noteq> 0 \<longrightarrow>
     is_contention_site_valid (map_csite (g_mutex_map s i)))"

definition plan_ok :: "lock_plan \<Rightarrow> bool" where
  "plan_ok plan \<longleftrightarrow> (case plan of Sampled i r t \<Rightarrow> r \<noteq> 0 | _ \<Rightarrow> True)"

lemma ptr_mask: "w AND (2 ^ PTR_BITS - 1) = take_bit 48 (w :: u64)"
  by (simp add: PTR_BITS_def take_bit_eq_mask mask_eq_exp_minus_1)

lemma version_mask: "w AND (2 ^ (64 - PTR_BITS) - 1) = take_bit 16 (w :: u64)"
  by (simp add: PTR_BITS_def take_bit_eq_mask mask_eq_exp_minus_1)

lemma take_bit_small: "m < 2 ^ 48 \<Longrightarrow> take_bit 48 m = (m :: u64)"
  by (simp add: word_unat_eq_iff unsigned_take_bit_eq take_bit_nat_eq_self_iff word_less_nat_alt)

lemma versioned_mutex_parts:
  assumes "m < 2 ^ 48"
  shows "take_bit 48 (push_bit 48 v OR m) = m" and "drop_bit 48 (push_bit 48 v OR m) = take_bit 16 (v :: u64)"
proof -
  show "take_bit 48 (push_bit 48 v OR m) = m"
    using take_bit_small [OF assms] by (simp add: take_bit_push_bit)
  have "drop_bit 48 m = drop_bit 48 (take_bit 48 m)" using take_bit_small [OF assms] by simp
  also have "\<dots> = 0" by (rule bit_eqI) (simp add: bit_simps)
  finally have "drop_bit 48 m = 0" .
  moreover have "drop_bit 48 (push_bit 48 v) = take_bit 16 v"
    by (rule bit_eqI) (auto simp: bit_simps)
  ultimately show "drop_bit 48 (push_bit 48 v OR m) = take_bit 16 v"
    by simp
qed

lemma lock_enter_shared:
  assumes "lock_enter tr ex us rand now m s th = (s', th', plan)"
  shows "g_cp s' = g_cp s \<and> g_cp_version s' = g_cp_version s \<and> g_mutex_map s' = g_mutex_map s \<and> plan_ok plan"
  using assms
  by (auto simp: lock_enter_def plan_ok_def Let_def split: if_splits prod.splits)

lemma lock_finish_map_ok:
  assumes "map_ok s" and "plan_ok plan" and "lock_finish x res now m plan s th = (s', th', r)"
  shows "map_ok s'"
  using assms
  by (auto simp: lock_finish_def map_ok_def plan_ok_def add_pthread_contention_site_def set_map_entry_def
      is_contention_site_valid_def Let_def
      split: if_splits prod.splits lock_plan.splits option.splits bool.splits)

lemma remove_map_ok:
  assumes "map_ok s" and "remove_pthread_contention_site m s = (s', r)"
  shows "map_ok s'"
  using assms
  by (auto simp: remove_pthread_contention_site_def map_ok_def set_map_entry_def Let_def split: if_splits)

lemma remove_valid:
  assumes "map_ok s" and "m \<noteq> 0" and "remove_pthread_contention_site m s = (s', Some cs)"
  shows "is_contention_site_valid cs"
proof -
  have "versioned_mutex (g_mutex_map s (map_slot m)) \<noteq> 0"
    using assms(2,3) by (auto simp: remove_pthread_contention_site_def ptr_mask Let_def split: if_splits)
  with assms(1) have "is_contention_site_valid (map_csite (g_mutex_map s (map_slot m)))"
    by (simp add: map_ok_def)
  then show ?thesis
    using assms(3) by (auto simp: remove_pthread_contention_site_def Let_def split: if_splits)
qed

lemma unlock_begin_map_ok:
  assumes "map_ok s" and "m \<noteq> 0" and "unlock_begin now m s th = (s', th', saved)"
  shows "map_ok s' \<and> (case saved of Some (t, cs) \<Rightarrow> t \<noteq> 0 \<longrightarrow> is_contention_site_valid cs | None \<Rightarrow> True)"
  using assms remove_map_ok remove_valid
  by (fastforce simp: unlock_begin_def Let_def split: if_splits prod.splits option.splits)

lemma submit_contention_valid:
  "is_contention_site_valid cs \<Longrightarrow> \<exists>out. submit_contention bt cs now = Some out"
  by (simp add: submit_contention_def is_contention_site_valid_def udiv_def Let_def)

lemma unlock_finish_valid:
  assumes "case saved of Some (t, cs) \<Rightarrow> t \<noteq> 0 \<longrightarrow> is_contention_site_valid cs | None \<Rightarrow> True"
  shows "\<exists>out. unlock_finish bt now saved = Some out"
proof (cases saved)
  case (Some p)
  obtain t cs where "saved = Some (t, cs)" using Some by (cases p) auto
  with assms show ?thesis
    using submit_contention_valid [of "cs\<lparr>csite_duration_ns := csite_duration_ns cs + (now - t)\<rparr>" bt now]
    by (auto simp: unlock_finish_def Let_def is_contention_site_valid_def)
qed (simp add: unlock_finish_def)

section \<open>Threads and sessions\<close>

text \<open>
  What starting and stopping the profiler changes here (\<open>contention_profiler_start\<close> and
  \<open>contention_profiler_stop\<close>, under \<open>g_cp_mutex\<close>).
\<close>

definition profiler_on :: "shared \<Rightarrow> shared" where
  "profiler_on s = s\<lparr>g_cp := True, g_cp_version := g_cp_version s + 1\<rparr>"

definition profiler_off :: "shared \<Rightarrow> shared" where
  "profiler_off s = s\<lparr>g_cp := False\<rparr>"

text \<open>Where a thread is: outside the hooks, in the real lock, or in the real unlock.\<close>

datatype hook_state =
  Outside
  | Locking u64 lock_plan
  | Unlocking "(u64 \<times> pthread_contention_site_t) option"

record world =
  w_shared :: shared
  w_thread :: "nat \<Rightarrow> thread"
  w_hook :: "nat \<Rightarrow> hook_state"

definition world_init :: world where
  "world_init = \<lparr>w_shared = shared_init, w_thread = (\<lambda>_. thread_init), w_hook = (\<lambda>_. Outside)\<rparr>"

text \<open>
  The steps of any number of threads: the two parts of each hook, start and stop of the
  profiler, and the grab thread's update of the speed limit. A mutex is at a user address,
  neither null nor above 48 bits.
\<close>

definition user_address :: "u64 \<Rightarrow> bool" where
  "user_address m \<longleftrightarrow> m \<noteq> 0 \<and> m < 2 ^ 48"

inductive world_step :: "world \<Rightarrow> world \<Rightarrow> bool" where
  enter: "w_hook w t = Outside \<Longrightarrow> user_address m \<Longrightarrow>
    lock_enter tr ex us rand now m (w_shared w) (w_thread w t) = (s', th', plan) \<Longrightarrow>
    world_step w (w\<lparr>w_shared := s', w_thread := (w_thread w)(t := th'),
      w_hook := (w_hook w)(t := Locking m plan)\<rparr>)"
| finish: "w_hook w t = Locking m plan \<Longrightarrow>
    lock_finish x res now m plan (w_shared w) (w_thread w t) = (s', th', r) \<Longrightarrow>
    world_step w (w\<lparr>w_shared := s', w_thread := (w_thread w)(t := th'), w_hook := (w_hook w)(t := Outside)\<rparr>)"
| unlock: "w_hook w t = Outside \<Longrightarrow> user_address m \<Longrightarrow>
    unlock_begin now m (w_shared w) (w_thread w t) = (s', th', saved) \<Longrightarrow>
    world_step w (w\<lparr>w_shared := s', w_thread := (w_thread w)(t := th'),
      w_hook := (w_hook w)(t := Unlocking saved)\<rparr>)"
| submitted: "w_hook w t = Unlocking saved \<Longrightarrow> unlock_finish bt now saved = Some out \<Longrightarrow>
    world_step w (w\<lparr>w_hook := (w_hook w)(t := Outside)\<rparr>)"
| start: "\<not> g_cp (w_shared w) \<Longrightarrow> world_step w (w\<lparr>w_shared := profiler_on (w_shared w)\<rparr>)"
| stop: "g_cp (w_shared w) \<Longrightarrow> world_step w (w\<lparr>w_shared := profiler_off (w_shared w)\<rparr>)"
| grab: "update_speed_limit ex now (g_cp_sl (w_shared w)) last_count cur interval = Some (sl', c) \<Longrightarrow>
    world_step w (w\<lparr>w_shared := (w_shared w)\<lparr>g_cp_sl := sl'\<rparr>\<rparr>)"

inductive reachable :: "world \<Rightarrow> bool" where
  init: "reachable world_init"
| more: "reachable w \<Longrightarrow> world_step w w' \<Longrightarrow> reachable w'"

definition hook_ok :: "hook_state \<Rightarrow> bool" where
  "hook_ok h \<longleftrightarrow> (case h of
      Outside \<Rightarrow> True
    | Locking m plan \<Rightarrow> plan_ok plan
    | Unlocking saved \<Rightarrow> (case saved of Some (t, cs) \<Rightarrow> t \<noteq> 0 \<longrightarrow> is_contention_site_valid cs | None \<Rightarrow> True))"

definition world_ok :: "world \<Rightarrow> bool" where
  "world_ok w \<longleftrightarrow> map_ok (w_shared w) \<and> sl_ok (g_cp_sl (w_shared w)) \<and>
     (\<forall>t. tls_ok (w_thread w t) \<and> hook_ok (w_hook w t))"

lemma lock_enter_sl_ok:
  assumes "sl_ok (g_cp_sl s)" and "lock_enter tr ex us rand now m s th = (s', th', plan)"
  shows "sl_ok (g_cp_sl s')"
proof -
  have "sl_ok (fst (is_collectable ex us rand (g_cp_sl s)))" using is_collectable_ok assms(1) .
  then show ?thesis using assms
    by (auto simp: lock_enter_def Let_def split: if_splits prod.splits)
qed

lemma lock_finish_sl:
  "lock_finish x res now m plan s th = (s', th', r) \<Longrightarrow> g_cp_sl s' = g_cp_sl s"
  by (auto simp: lock_finish_def add_pthread_contention_site_def set_map_entry_def Let_def
      split: if_splits prod.splits lock_plan.splits option.splits bool.splits)

lemma unlock_begin_sl:
  "unlock_begin now m s th = (s', th', saved) \<Longrightarrow> g_cp_sl s' = g_cp_sl s"
  by (auto simp: unlock_begin_def remove_pthread_contention_site_def set_map_entry_def Let_def
      split: if_splits prod.splits option.splits)

lemma world_ok_init: "world_ok world_init"
  by (simp add: world_ok_def world_init_def map_ok_def shared_init_def sl_ok_init tls_ok_def
      thread_init_def hook_ok_def)

lemma world_ok_step: "world_step w w' \<Longrightarrow> world_ok w \<Longrightarrow> world_ok w'"
proof (induction rule: world_step.induct)
  case (enter w t m tr ex us rand now s' th' plan)
  have "map_ok s'" using lock_enter_shared [OF enter(3)] enter(4) by (simp add: world_ok_def map_ok_def)
  then show ?case
    using enter(4) lock_enter_shared [OF enter(3)] lock_enter_live [OF _ enter(3)] lock_enter_sl_ok [OF _ enter(3)]
    by (simp add: world_ok_def hook_ok_def)
next
  case (finish w t m plan x res now s' th' r)
  have "plan_ok plan" using finish(1,3) by (auto simp: world_ok_def hook_ok_def dest!: spec [of _ t])
  then show ?case
    using finish(3) lock_finish_map_ok [OF _ _ finish(2)] lock_finish_tls_ok [OF _ finish(2)]
      lock_finish_sl [OF finish(2)]
    by (simp add: world_ok_def hook_ok_def)
next
  case (unlock w t m now s' th' saved)
  then have "m \<noteq> 0" by (simp add: user_address_def)
  then show ?case
    using unlock(4) unlock_begin_map_ok [OF _ _ unlock(3)] unlock_begin_tls_ok [OF _ unlock(3)]
      unlock_begin_sl [OF unlock(3)]
    by (simp add: world_ok_def hook_ok_def)
next
  case (grab ex now w last_count cur interval sl' c)
  then show ?case using update_speed_limit_ok by (auto simp: world_ok_def map_ok_def)
qed (auto simp: world_ok_def hook_ok_def map_ok_def profiler_on_def profiler_off_def)

lemma reachable_ok: "reachable w \<Longrightarrow> world_ok w"
  by (induction rule: reachable.induct) (use world_ok_init world_ok_step in auto)

section \<open>What a sampled lock leaves behind\<close>

text \<open>The answer of the sampling decision, and the site a sampled wait leaves.\<close>

definition range_answer :: "int \<Rightarrow> u64 \<Rightarrow> u64 \<Rightarrow> shared \<Rightarrow> u64" where
  "range_answer ex us rand s = fst (snd (is_collectable ex us rand (g_cp_sl s)))"

definition waited :: "u64 \<Rightarrow> u64 \<Rightarrow> u64 \<Rightarrow> pthread_contention_site_t" where
  "waited r t0 t1 = \<lparr>csite_duration_ns = t1 - t0, csite_sampling_range = r\<rparr>"

lemma take_Suc_update: "i < length l \<Longrightarrow> take (Suc i) (l[i := x]) = take i l @ [x]"
  by (simp add: take_Suc_conv_app_nth)

lemma record_update_both: "e\<lparr>tls_mutex := m, tls_csite := c\<rparr> = \<lparr>tls_mutex = m, tls_csite = c\<rparr>"
  by (cases e) simp

text \<open>A contended lock of a thread with room appends one record; otherwise it appends none.\<close>

lemma contended_lock_live:
  assumes "tls_ok th" and "g_cp s" and "\<not> tls_inside_lock th"
    and "pthread_mutex_lock_impl EBUSY ex us rand t0 0 t1 m s th = (s', th', r)"
  shows "tls_ok th' \<and> tls_inside_lock th' = False \<and> g_cp s' = g_cp s \<and>
    (if length (live_in s th) < TLS_MAX_COUNT
     then \<exists>cs. live th' = live_in s th @ [\<lparr>tls_mutex = m, tls_csite = cs\<rparr>] \<and>
       (if range_answer ex us rand s = 0 then \<not> is_contention_site_valid cs
        else cs = waited (range_answer ex us rand s) t0 t1)
     else live th' = live_in s th)"
proof -
  obtain sl r' wk where c: "is_collectable ex us rand (g_cp_sl s) = (sl, r', wk)"
    by (metis prod_cases3)
  obtain f ins where th: "th = \<lparr>tls_csites = f, tls_inside_lock = ins\<rparr>" by (cases th) auto
  show ?thesis
    using assms
    by (auto simp: th c pthread_mutex_lock_impl_def lock_enter_def lock_finish_def live_def live_in_def
        tls_ok_def TLS_MAX_COUNT_def waited_def range_answer_def take_Suc_update Let_def
        record_update_both is_contention_site_valid_def make_contention_site_invalid_def
        add_pthread_contention_site_def set_map_entry_def
        split: if_splits prod.splits bool.splits)
qed

lemma unlock_begin_live:
  assumes "tls_ok th" and "g_cp s" and "\<not> tls_inside_lock th"
    and "unlock_begin now m s th = (s', th', saved)"
  shows "case find_record (live th) m (length (live th)) of
      Some i \<Rightarrow> live th' = butlast ((live th)[i := last (live th)]) \<and> s' = s \<and>
        saved = Some (if is_contention_site_valid (tls_csite (live th ! i))
                      then (now, tls_csite (live th ! i)) else (0, zero_csite))
    | None \<Rightarrow> th' = th \<and> s' = fst (remove_pthread_contention_site m s) \<and>
        saved = Some (case snd (remove_pthread_contention_site m s) of
                        Some cs \<Rightarrow> (now, cs) | None \<Rightarrow> (0, zero_csite))"
proof (cases "find_record (live th) m (length (live th))")
  case None
  then show ?thesis
    using assms find_record_live [OF assms(1), of m]
    by (auto simp: unlock_begin_def Let_def split: prod.splits option.splits)
next
  case (Some i)
  then have i: "i < length (live th)" by (simp add: find_record_Some)
  show ?thesis
    using assms find_record_live [OF assms(1), of m] drop_record_live(1) [OF assms(1) i]
      live_nth [OF assms(1) i] Some
    by (auto simp: unlock_begin_def Let_def split: if_splits)
qed

text \<open>The sample that a site gives, when the unlock took from \<open>t2\<close> to \<open>t3\<close>.\<close>

definition sample_of ::
  "(nat \<Rightarrow> u64 list) \<Rightarrow> pthread_contention_site_t \<Rightarrow> u64 \<Rightarrow> u64 \<Rightarrow> SampledContention \<times> u64" where
  "sample_of bt cs t2 t3 =
     (\<lparr>duration_ns = (csite_duration_ns cs + (t3 - t2)) * 16384 div csite_sampling_range cs,
       weight = fl (16384 / double_of_size (csite_sampling_range cs)),
       frames_count = length (take 26 (bt 26)), stack = take 26 (bt 26)\<rparr>,
      of_int (c_div (sint t3) 1000))"

lemma unlock_finish_sample:
  "t2 \<noteq> 0 \<Longrightarrow> is_contention_site_valid cs \<Longrightarrow>
   unlock_finish bt t3 (Some (t2, cs)) = Some (Some (sample_of bt cs t2 t3))"
  using fl_of_nat [of 16384]
  by (simp add: unlock_finish_def submit_contention_def is_contention_site_valid_def udiv_def
      sample_of_def COLLECTOR_SAMPLING_BASE_def double_div_def double_of_size_def Let_def)

text \<open>The unlock after a sampled lock finds its record.\<close>

lemma unlock_after_sampled_lock:
  assumes "tls_ok th" and "g_cp s" and "\<not> tls_inside_lock th" and "length (live_in s th) < 3"
    and "range_answer ex us rand s = r" and "r \<noteq> 0"
    and "pthread_mutex_lock_impl EBUSY ex us rand t0 0 t1 m s th = (sa, th1, 0)" and "g_cp s2"
  shows "\<exists>th2. unlock_begin t2 m s2 th1 = (s2, th2, Some (t2, waited r t0 t1)) \<and> live th2 = live_in s th"
proof -
  have l: "tls_ok th1" "\<not> tls_inside_lock th1"
    "live th1 = live_in s th @ [\<lparr>tls_mutex = m, tls_csite = waited r t0 t1\<rparr>]"
    using contended_lock_live [OF assms(1,2,3,7)] assms(4,5,6) by (auto simp: TLS_MAX_COUNT_def)
  obtain s3 th2 saved where u: "unlock_begin t2 m s2 th1 = (s3, th2, saved)" by (metis prod_cases3)
  have "find_record (live th1) m (length (live th1)) = Some (length (live_in s th))"
    by (simp add: l(3) find_record_snoc)
  from unlock_begin_live [OF l(1) assms(8) l(2) u, unfolded this]
  have "live th2 = live_in s th" "s3 = s2" "saved = Some (t2, waited r t0 t1)"
    using assms(6) by (simp_all add: l(3) is_contention_site_valid_def waited_def)
  then show ?thesis using u by blast
qed

text \<open>With clocks that do not run backwards and no overflow the reported duration is exact.\<close>

lemma sample_duration_exact:
  assumes "t0 \<le> t1" and "t2 \<le> t3" and "r \<noteq> 0"
    and "(unat t1 - unat t0 + (unat t3 - unat t2)) * 16384 < 2 ^ 64"
  shows "unat (duration_ns (fst (sample_of bt (waited r t0 t1) t2 t3))) =
    (unat t1 - unat t0 + (unat t3 - unat t2)) * 16384 div unat r"
proof -
  let ?n = "unat t1 - unat t0 + (unat t3 - unat t2)"
  have "t1 - t0 = of_nat (unat t1 - unat t0)" "t3 - t2 = of_nat (unat t3 - unat t2)"
    using assms(1,2) by (simp_all add: word_le_nat_alt of_nat_diff)
  then have eq: "(t1 - t0 + (t3 - t2)) * 16384 = of_nat (?n * 16384)" by simp
  have "unat ((t1 - t0 + (t3 - t2)) * 16384) = ?n * 16384"
    unfolding eq by (rule unat_less_of_nat_bound) (use assms(4) in simp)
  then show ?thesis by (simp add: sample_of_def waited_def unat_div_distrib)
qed

lemma sample_weight_exact:
  assumes "r \<noteq> 0" and "r \<le> 16384"
  shows "\<lceil>weight (fst (sample_of bt (waited r t0 t1) t2 t3))\<rceil> = int ((16384 + unat r - 1) div unat r)"
proof -
  have r: "1 \<le> unat r" "unat r \<le> 16384" using assms
    by (simp_all add: word_le_nat_alt Suc_le_eq unat_gt_0)
  then have "double_of_size r = of_nat (unat r)" by (simp add: double_of_size_def fl_of_nat del: of_nat_unat)
  then show ?thesis using weight_ceiling [OF r] by (simp add: sample_of_def waited_def del: of_nat_unat)
qed

text \<open>A mutex map entry is free for a session when it is empty or from another one.\<close>

definition entry_free :: "shared \<Rightarrow> u64 \<Rightarrow> bool" where
  "entry_free s m \<longleftrightarrow> (let v = versioned_mutex (g_mutex_map s (map_slot m))
     in v = 0 \<or> drop_bit 48 v \<noteq> take_bit 16 (g_cp_version s))"

lemma add_free:
  assumes "entry_free s m"
  shows "add_pthread_contention_site True m s =
    (set_map_entry (map_slot m) ((g_mutex_map s (map_slot m))\<lparr>versioned_mutex :=
       push_bit 48 (g_cp_version s) OR m\<rparr>) s, True)"
  using assms by (auto simp: add_pthread_contention_site_def entry_free_def version_mask Let_def PTR_BITS_def
    take_bit_eq_mask mask_eq_exp_minus_1)

lemma add_taken:
  "\<not> entry_free s m \<Longrightarrow> add_pthread_contention_site x m s = (s, False)"
  by (auto simp: add_pthread_contention_site_def entry_free_def version_mask Let_def PTR_BITS_def
    take_bit_eq_mask mask_eq_exp_minus_1)

text \<open>
  The four accesses of \<open>remove_pthread_contention_site\<close> to the shared entry, which other threads
  can run between: the comparison, the copy, the invalidation and the reset.
\<close>

definition remove_check :: "u64 \<Rightarrow> shared \<Rightarrow> bool" where
  "remove_check mutex s \<longleftrightarrow> (versioned_mutex (g_mutex_map s (map_slot mutex)) AND (2 ^ PTR_BITS - 1)) = mutex"

definition remove_copy :: "u64 \<Rightarrow> shared \<Rightarrow> pthread_contention_site_t" where
  "remove_copy mutex s = map_csite (g_mutex_map s (map_slot mutex))"

definition remove_invalidate :: "u64 \<Rightarrow> shared \<Rightarrow> shared" where
  "remove_invalidate mutex s = (let entry = g_mutex_map s (map_slot mutex)
     in set_map_entry (map_slot mutex) (entry\<lparr>map_csite := make_contention_site_invalid (map_csite entry)\<rparr>) s)"

definition remove_reset :: "u64 \<Rightarrow> shared \<Rightarrow> shared" where
  "remove_reset mutex s = (let entry = g_mutex_map s (map_slot mutex)
     in set_map_entry (map_slot mutex) (entry\<lparr>versioned_mutex := 0\<rparr>) s)"

lemma remove_in_steps:
  "remove_pthread_contention_site mutex s =
     (if remove_check mutex s
      then (remove_reset mutex (remove_invalidate mutex s), Some (remove_copy mutex s)) else (s, None))"
  by (auto simp: remove_pthread_contention_site_def remove_check_def remove_copy_def remove_invalidate_def
      remove_reset_def set_map_entry_def Let_def)

lemma hooks_result:
  "snd (snd (pthread_mutex_lock_impl tr ex us rand t0 res t1 m s th)) =
     (if g_cp s \<and> \<not> tls_inside_lock th \<and> tr \<noteq> EBUSY then tr else res)"
proof -
  have "snd (snd (lock_finish x res t1 m plan s2 th2)) = (case plan of Returned r \<Rightarrow> r | _ \<Rightarrow> res)" for x plan s2 th2
    by (auto simp: lock_finish_def Let_def split: lock_plan.splits option.splits prod.splits bool.splits)
  then show ?thesis
    by (auto simp: pthread_mutex_lock_impl_def lock_enter_def Let_def split: prod.splits)
qed

lemma unlock_bypassed:
  "\<not> g_cp s \<or> tls_inside_lock th \<Longrightarrow> pthread_mutex_unlock_impl bt t0 res t1 m s th = Some (s, th, None, res)"
  by (auto simp: pthread_mutex_unlock_impl_def unlock_begin_def unlock_finish_def)

lemma unlock_impl_result:
  "pthread_mutex_unlock_impl bt t0 res t1 m s th = Some (s', th', sample, r) \<Longrightarrow> r = res"
  by (auto simp: pthread_mutex_unlock_impl_def split: prod.splits Option.bind_splits)

lemma lock_bypassed:
  "\<not> g_cp s \<or> tls_inside_lock th \<Longrightarrow> pthread_mutex_lock_impl tr ex us rand t0 res t1 m s th = (s, th, res)"
  by (auto simp: pthread_mutex_lock_impl_def lock_enter_def lock_finish_def)

lemma lock_uncontended:
  "g_cp s \<Longrightarrow> \<not> tls_inside_lock th \<Longrightarrow> tr \<noteq> EBUSY \<Longrightarrow>
   pthread_mutex_lock_impl tr ex us rand t0 res t1 m s th = (s, th, tr)"
  by (simp add: pthread_mutex_lock_impl_def lock_enter_def lock_finish_def)

lemma lock_impl_version:
  "pthread_mutex_lock_impl tr ex us rand t0 res t1 m s th = (s', th', r) \<Longrightarrow> g_cp_version s' = g_cp_version s"
  by (auto simp: pthread_mutex_lock_impl_def lock_enter_def lock_finish_def add_pthread_contention_site_def
      set_map_entry_def Let_def split: if_splits prod.splits lock_plan.splits option.splits bool.splits)

section \<open>Properties\<close>



text \<open>
  The hooks do not change what the program observes of its locks: the lock hook returns
  what the real lock returned, or what \<open>pthread_mutex_trylock\<close> returned where that settled it,
  the unlock hook returns what the real unlock returned; and when the profiler is off, when the
  thread is inside the profiler, or when the lock is free, nothing is recorded.
\<close>

theorem hooks_transparent:
  "snd (snd (pthread_mutex_lock_impl tr ex us rand t0 res t1 m s th)) =
     (if g_cp s \<and> \<not> tls_inside_lock th \<and> tr \<noteq> EBUSY then tr else res) \<and>
   (pthread_mutex_unlock_impl bt t0 res t1 m s th = Some (s', th', sample, r) \<longrightarrow> r = res) \<and>
   (\<not> g_cp s \<or> tls_inside_lock th \<longrightarrow>
      pthread_mutex_lock_impl tr ex us rand t0 res t1 m s th = (s, th, res) \<and>
      pthread_mutex_unlock_impl bt t0 res t1 m s th = Some (s, th, None, res)) \<and>
   (g_cp s \<and> \<not> tls_inside_lock th \<and> tr \<noteq> EBUSY \<longrightarrow>
      pthread_mutex_lock_impl tr ex us rand t0 res t1 m s th = (s, th, tr))"
  using hooks_result [of tr ex us rand t0 res t1 m s th]
  using unlock_impl_result [of bt t0 res t1 m s th s' th' sample r]
  by (auto simp: unlock_bypassed lock_bypassed lock_uncontended)

theorem hooks_transparent_witness:
  "pthread_mutex_lock_impl 0 1000 5 6 7 0 8 4096 (profiler_on shared_init) thread_init =
    (profiler_on shared_init, thread_init, 0)"
  using hooks_transparent [where tr = 0 and ex = 1000 and us = 5 and rand = 6 and ?t0.0 = 7 and res = 0
      and ?t1.0 = 8 and m = 4096 and s = "profiler_on shared_init" and th = thread_init]
  by (simp add: profiler_on_def thread_init_def EBUSY_def)

text \<open>The record found is the last one of its mutex.\<close>

lemma find_record_absent: "find_record rs m (length rs) = None \<longleftrightarrow> m \<notin> tls_mutex ` set rs"
proof -
  have "m \<notin> tls_mutex ` set rs \<longleftrightarrow> (\<forall>rec\<in>set rs. tls_mutex rec \<noteq> m)" by auto
  then show ?thesis by (simp add: find_record_None all_set_conv_all_nth)
qed

lemma find_record_last:
  assumes "find_record rs m (length rs) = Some i"
  shows "i < length rs" and "rs = take i rs @ rs ! i # drop (Suc i) rs" and "tls_mutex (rs ! i) = m"
    and "m \<notin> tls_mutex ` set (drop (Suc i) rs)"
proof -
  have i: "i < length rs" "tls_mutex (rs ! i) = m" "\<forall>j. i < j \<and> j < length rs \<longrightarrow> tls_mutex (rs ! j) \<noteq> m"
    using assms by (auto simp: find_record_Some)
  show "i < length rs" "tls_mutex (rs ! i) = m" by (rule i)+
  show "rs = take i rs @ rs ! i # drop (Suc i) rs" using i(1) by (simp add: id_take_nth_drop [symmetric])
  have "tls_mutex rec \<noteq> m" if mem: "rec \<in> set (drop (Suc i) rs)" for rec
  proof -
    obtain k where "k < length rs - Suc i" "rec = rs ! (Suc i + k)" using mem i(1) by (auto simp: in_set_conv_nth)
    then show ?thesis using i(3) [rule_format, of "Suc i + k"] by simp
  qed
  then show "m \<notin> tls_mutex ` set (drop (Suc i) rs)" by auto
qed



text \<open>
  C9. A sampled wait is reported exactly once, by the unlock that ends it. If a contended lock of
  a thread with room is taken by the sampler with range \<open>r\<close>, then the thread's unlock of that
  mutex, whatever the other threads did to the shared state in between, submits the sample of
  this wait and leaves the records as they were before the lock. Its duration is the time waited
  plus the time the unlock took, scaled by base / r without loss when it fits the word, and its
  weight has the exact ceiling of base / r.
\<close>

theorem sampled_wait_reported:
  assumes "tls_ok th" and "g_cp s" and "\<not> tls_inside_lock th" and "length (live_in s th) < 3"
    and "range_answer ex us rand s = r" and "r \<noteq> 0" and "r \<le> 16384"
    and "pthread_mutex_lock_impl EBUSY ex us rand t0 0 t1 m s th = (sa, th1, 0)"
    and "g_cp s2" and "t2 \<noteq> 0" and "t0 \<le> t1" and "t2 \<le> t3"
    and "(unat t1 - unat t0 + (unat t3 - unat t2)) * 16384 < 2 ^ 64"
  shows "\<exists>th2 sample cpu_us. pthread_mutex_unlock_impl bt t2 res t3 m s2 th1 = Some (s2, th2, Some (sample, cpu_us), res) \<and>
    live th2 = live_in s th \<and>
    unat (duration_ns sample) = (unat t1 - unat t0 + (unat t3 - unat t2)) * 16384 div unat r \<and>
    \<lceil>weight sample\<rceil> = int ((16384 + unat r - 1) div unat r)"
proof -
  obtain th2 where "unlock_begin t2 m s2 th1 = (s2, th2, Some (t2, waited r t0 t1))" "live th2 = live_in s th"
    using unlock_after_sampled_lock [OF assms(1-6,8,9)] by blast
  then show ?thesis
    using unlock_finish_sample [OF assms(10), of "waited r t0 t1" bt t3] assms(6)
      sample_duration_exact [OF assms(11,12,6,13), of bt] sample_weight_exact [OF assms(6,7), of bt t0 t1 t2 t3]
    by (cases "sample_of bt (waited r t0 t1) t2 t3")
       (simp add: pthread_mutex_unlock_impl_def is_contention_site_valid_def waited_def)
qed

theorem sampled_wait_reported_witness:
  "\<exists>th2 sample cpu_us. pthread_mutex_unlock_impl (\<lambda>n. [11, 22, 33]) 900 0 950 4096 (profiler_on shared_init)
     (fst (snd (pthread_mutex_lock_impl EBUSY 1000 5 6 100 0 350 4096 (profiler_on shared_init) thread_init))) =
     Some (profiler_on shared_init, th2, Some (sample, cpu_us), 0) \<and> unat (duration_ns sample) = 300"
proof -
  let ?s = "profiler_on shared_init"
  let ?l = "pthread_mutex_lock_impl EBUSY 1000 5 6 100 0 350 4096 ?s thread_init"
  obtain sa th1 r where l: "?l = (sa, th1, r)" by (metis prod_cases3)
  have "r = 0" using arg_cong [OF l, of "\<lambda>x. snd (snd x)"]
    by (simp add: pthread_mutex_lock_impl_def lock_enter_def lock_finish_def profiler_on_def thread_init_def
        shared_init_def is_collectable_def is_collectable_before_first_time_grabbed_def
        CollectorSpeedLimit_init_def COLLECTOR_SAMPLING_BASE_def TLS_MAX_COUNT_def EBUSY_def Let_def)
  have a: "tls_ok thread_init" "g_cp ?s" "\<not> tls_inside_lock thread_init"
    "length (live_in ?s thread_init) < 3" "range_answer 1000 5 6 ?s = 16384"
    by (simp_all add: tls_ok_def thread_init_def profiler_on_def live_in_def shared_init_def range_answer_def
        is_collectable_def is_collectable_before_first_time_grabbed_def CollectorSpeedLimit_init_def
        COLLECTOR_SAMPLING_BASE_def Let_def)
  from sampled_wait_reported [OF a _ _ l [unfolded \<open>r = 0\<close>] a(2), of 900 950 "\<lambda>n. [11, 22, 33]" 0]
  show ?thesis by (auto simp: l)
qed

text \<open>A wait beyond the records goes to the entry of the mutex, if it is free.\<close>

lemma lock_beyond_records:
  assumes "tls_ok th" and "g_cp s" and "\<not> tls_inside_lock th" and "3 \<le> length (live_in s th)"
    and "range_answer ex us rand s = r" and "r \<noteq> 0"
    and "pthread_mutex_lock_impl EBUSY ex us rand t0 0 t1 m s th = (sa, th1, 0)"
  shows "\<exists>sl. sa = (if entry_free s m
    then set_map_entry (map_slot m)
      (g_mutex_map s (map_slot m) \<lparr>versioned_mutex := push_bit 48 (g_cp_version s) OR m, map_csite := waited r t0 t1\<rparr>)
      (s\<lparr>g_cp_sl := sl\<rparr>) else s\<lparr>g_cp_sl := sl\<rparr>)"
proof -
  obtain sl wk where c: "is_collectable ex us rand (g_cp_sl s) = (sl, r, wk)"
    using assms(5) by (metis range_answer_def prod.collapse)
  have count: "\<not> tls_count (tls_csites th) < 3" "tls_cp_version (tls_csites th) = g_cp_version s"
    using assms(1,4) length_live [OF assms(1)] by (auto simp: live_in_def split: if_splits)
  show ?thesis
  proof (cases "entry_free s m")
    case True
    then have "entry_free (s\<lparr>g_cp_sl := sl\<rparr>) m" by (simp add: entry_free_def)
    from add_free [OF this] show ?thesis
      using assms(2,3,6,7) c count True
      by (intro exI [of _ sl]) (auto simp: pthread_mutex_lock_impl_def lock_enter_def lock_finish_def TLS_MAX_COUNT_def Let_def
          set_map_entry_def waited_def)
  next
    case False
    then have "\<not> entry_free (s\<lparr>g_cp_sl := sl\<rparr>) m" by (simp add: entry_free_def)
    from add_taken [OF this] show ?thesis
      using assms(2,3,6,7) c count False
      by (intro exI [of _ sl]) (auto simp: pthread_mutex_lock_impl_def lock_enter_def lock_finish_def TLS_MAX_COUNT_def Let_def)
  qed
qed

text \<open>
  C26. Waits beyond the three records of a thread go through the mutex map. If the entry of the
  mutex is free for this session the wait is stored there, and the unlock of the mutex by any
  state of the thread that holds no record of it submits the sample of exactly this wait and
  frees the entry. If another mutex of this session holds the entry, the wait is dropped: lock
  and unlock leave the map alone and nothing is submitted.
\<close>

theorem map_wait_reported:
  assumes "tls_ok th" and "g_cp s" and "\<not> tls_inside_lock th" and "3 \<le> length (live_in s th)"
    and "range_answer ex us rand s = r" and "r \<noteq> 0" and "user_address m"
    and "m \<notin> tls_mutex ` set (live_in s th)"
    and "pthread_mutex_lock_impl EBUSY ex us rand t0 0 t1 m s th = (sa, th1, 0)"
    and "g_cp s2" and "g_mutex_map s2 (map_slot m) = g_mutex_map sa (map_slot m)" and "t2 \<noteq> 0"
    and "entry_free s m \<or> take_bit 48 (versioned_mutex (g_mutex_map s (map_slot m))) \<noteq> m"
  shows "if entry_free s m
    then \<exists>s3. pthread_mutex_unlock_impl bt t2 res t3 m s2 th1 =
        Some (s3, th1, Some (sample_of bt (waited r t0 t1) t2 t3), res) \<and>
      versioned_mutex (g_mutex_map s3 (map_slot m)) = 0
    else g_mutex_map sa = g_mutex_map s \<and>
      pthread_mutex_unlock_impl bt t2 res t3 m s2 th1 = Some (s2, th1, None, res)"
proof -
  have l: "tls_ok th1" "\<not> tls_inside_lock th1" "live th1 = live_in s th"
    using contended_lock_live [OF assms(1,2,3,9)] assms(4) by (auto simp: TLS_MAX_COUNT_def)
  obtain s3 th2 saved where u: "unlock_begin t2 m s2 th1 = (s3, th2, saved)" by (metis prod_cases3)
  have "\<forall>rec\<in>set (live th1). tls_mutex rec \<noteq> m" using assms(8) l(3) by auto
  then have none: "find_record (live th1) m (length (live th1)) = None"
    by (simp add: find_record_None all_set_conv_all_nth)
  note ub = unlock_begin_live [OF l(1) assms(10) l(2) u, unfolded none, simplified]
  let ?e = "g_mutex_map s (map_slot m)"
  obtain sl where lock: "sa = (if entry_free s m
      then set_map_entry (map_slot m)
        (?e\<lparr>versioned_mutex := push_bit 48 (g_cp_version s) OR m, map_csite := waited r t0 t1\<rparr>)
        (s\<lparr>g_cp_sl := sl\<rparr>) else s\<lparr>g_cp_sl := sl\<rparr>)"
    using lock_beyond_records [OF assms(1-6,9)] by blast
  have m: "m < 2 ^ 48" using assms(7) by (simp add: user_address_def)
  show ?thesis
  proof (cases "entry_free s m")
    case True
    then have e2: "g_mutex_map s2 (map_slot m) =
        ?e\<lparr>versioned_mutex := push_bit 48 (g_cp_version s) OR m, map_csite := waited r t0 t1\<rparr>"
      using assms(11) lock by (simp add: set_map_entry_def)
    then have rem: "remove_pthread_contention_site m s2 =
        (remove_reset m (remove_invalidate m s2), Some (waited r t0 t1))"
      using versioned_mutex_parts(1) [OF m] by (simp add: remove_in_steps remove_check_def remove_copy_def ptr_mask)
    have "versioned_mutex (g_mutex_map (remove_reset m (remove_invalidate m s2)) (map_slot m)) = 0"
      by (simp add: remove_reset_def set_map_entry_def Let_def)
    moreover have "is_contention_site_valid (waited r t0 t1)"
      using assms(6) by (simp add: is_contention_site_valid_def waited_def)
    ultimately show ?thesis
      using True u ub rem unlock_finish_sample [OF assms(12), of "waited r t0 t1" bt t3]
      by (simp add: pthread_mutex_unlock_impl_def)
  next
    case False
    then have "remove_pthread_contention_site m s2 = (s2, None)"
      using assms(11,13) lock by (simp add: remove_in_steps remove_check_def ptr_mask)
    then show ?thesis
      using False u ub lock by (simp add: pthread_mutex_unlock_impl_def unlock_finish_def)
  qed
qed

theorem map_wait_reported_witness:
  "\<exists>sa th1 s3. pthread_mutex_lock_impl EBUSY 1000 5 6 100 0 350 4096 (profiler_on shared_init)
      \<lparr>tls_csites = \<lparr>tls_count = 3, tls_cp_version = 1,
         tls_list = replicate 3 \<lparr>tls_mutex = 8192, tls_csite = zero_csite\<rparr>\<rparr>, tls_inside_lock = False\<rparr> =
      (sa, th1, 0) \<and>
    pthread_mutex_unlock_impl (\<lambda>n. []) 900 0 950 4096 sa th1 =
      Some (s3, th1, Some (sample_of (\<lambda>n. []) (waited 16384 100 350) 900 950), 0) \<and>
    versioned_mutex (g_mutex_map s3 (map_slot 4096)) = 0"
proof -
  let ?s = "profiler_on shared_init"
  let ?th = "\<lparr>tls_csites = \<lparr>tls_count = 3, tls_cp_version = 1,
         tls_list = replicate 3 \<lparr>tls_mutex = 8192, tls_csite = zero_csite\<rparr>\<rparr>, tls_inside_lock = False\<rparr>"
  obtain sa th1 r where l: "pthread_mutex_lock_impl EBUSY 1000 5 6 100 0 350 4096 ?s ?th = (sa, th1, r)"
    by (metis prod_cases3)
  have r: "r = 0" using hooks_result [of EBUSY 1000 5 6 100 0 350 4096 ?s ?th] l by simp
  have live: "live_in ?s ?th = replicate 3 \<lparr>tls_mutex = 8192, tls_csite = zero_csite\<rparr>"
    by (simp add: live_in_def live_def profiler_on_def shared_init_def)
  have a: "tls_ok ?th" "g_cp ?s" "\<not> tls_inside_lock ?th" "3 \<le> length (live_in ?s ?th)"
    "range_answer 1000 5 6 ?s = 16384" "(16384 :: u64) \<noteq> 0" "user_address 4096"
    "4096 \<notin> tls_mutex ` set (live_in ?s ?th)"
    unfolding live
    by (simp_all add: tls_ok_def TLS_MAX_COUNT_def profiler_on_def shared_init_def range_answer_def
        is_collectable_def is_collectable_before_first_time_grabbed_def CollectorSpeedLimit_init_def
        COLLECTOR_SAMPLING_BASE_def user_address_def Let_def)
  have free: "entry_free ?s 4096" by (simp add: entry_free_def profiler_on_def shared_init_def)
  have "g_cp sa" using contended_lock_live [OF a(1,2,3) l [unfolded r]] a(2) by simp
  from map_wait_reported [OF a l [unfolded r] this refl _ disjI1 [OF free], of 900 "\<lambda>n. []" 0 950] free
  show ?thesis using l r by auto
qed

text \<open>
  C32. Sites outlive their session. A wait that was sampled in one profiling session, whose
  mutex is released while the profiler is off, keeps its record; when a later session has begun
  and the thread takes and releases the same mutex without any contention, the old wait is
  submitted as a contention of the new session: the unlock hook does not compare the version.
\<close>

theorem stale_wait_reported_in_next_session:
  assumes "tls_ok th" and "g_cp s" and "\<not> tls_inside_lock th" and "length (live_in s th) < 3"
    and "range_answer ex us rand s = r" and "r \<noteq> 0"
    and "pthread_mutex_lock_impl EBUSY ex us rand t0 0 t1 m s th = (sa, th1, 0)" and "t4 \<noteq> 0"
  shows "let s_off = profiler_off sa; s_on = profiler_on s_off in
    pthread_mutex_unlock_impl bt t2 0 t3 m s_off th1 = Some (s_off, th1, None, 0) \<and>
    g_cp_version s_on = g_cp_version s + 1 \<and>
    pthread_mutex_lock_impl 0 ex us2 rand2 t2 0 t3 m s_on th1 = (s_on, th1, 0) \<and>
    (\<exists>th2. pthread_mutex_unlock_impl bt t4 0 t5 m s_on th1 =
       Some (s_on, th2, Some (sample_of bt (waited r t0 t1) t4 t5), 0))"
proof -
  have l: "tls_ok th1" "\<not> tls_inside_lock th1"
    "live th1 = live_in s th @ [\<lparr>tls_mutex = m, tls_csite = waited r t0 t1\<rparr>]"
    using contended_lock_live [OF assms(1,2,3,7)] assms(4,5,6) by (auto simp: TLS_MAX_COUNT_def)
  have version: "g_cp_version sa = g_cp_version s" using lock_impl_version [OF assms(7)] .
  let ?on = "profiler_on (profiler_off sa)"
  have on: "g_cp ?on" by (simp add: profiler_on_def)
  obtain s3 th2 saved where u: "unlock_begin t4 m ?on th1 = (s3, th2, saved)" by (metis prod_cases3)
  have "find_record (live th1) m (length (live th1)) = Some (length (live_in s th))"
    by (simp add: l(3) find_record_snoc)
  from unlock_begin_live [OF l(1) on l(2) u, unfolded this]
  have "s3 = ?on" "saved = Some (t4, waited r t0 t1)"
    using assms(6) by (simp_all add: l(3) is_contention_site_valid_def waited_def)
  then have "pthread_mutex_unlock_impl bt t4 0 t5 m ?on th1 =
      Some (?on, th2, Some (sample_of bt (waited r t0 t1) t4 t5), 0)"
    using u unlock_finish_sample [OF assms(8), of "waited r t0 t1" bt t5] assms(6)
    by (simp add: pthread_mutex_unlock_impl_def is_contention_site_valid_def waited_def)
  moreover have "\<not> g_cp (profiler_off sa)" by (simp add: profiler_off_def)
  moreover have "g_cp_version ?on = g_cp_version s + 1"
    using version by (simp add: profiler_on_def profiler_off_def)
  ultimately show ?thesis
    using on l(2) by (simp add: Let_def unlock_bypassed lock_uncontended EBUSY_def)
qed

theorem stale_wait_reported_in_next_session_witness:
  "\<exists>sa th1 th2. pthread_mutex_lock_impl EBUSY 1000 5 6 100 0 350 4096 (profiler_on shared_init) thread_init =
      (sa, th1, 0) \<and>
    pthread_mutex_unlock_impl (\<lambda>n. []) 900 0 950 4096 (profiler_on (profiler_off sa)) th1 =
      Some (profiler_on (profiler_off sa), th2, Some (sample_of (\<lambda>n. []) (waited 16384 100 350) 900 950), 0)"
proof -
  let ?s = "profiler_on shared_init"
  obtain sa th1 r where l: "pthread_mutex_lock_impl EBUSY 1000 5 6 100 0 350 4096 ?s thread_init = (sa, th1, r)"
    by (metis prod_cases3)
  have r: "r = 0" using hooks_result [of EBUSY 1000 5 6 100 0 350 4096 ?s thread_init] l by simp
  have a: "tls_ok thread_init" "g_cp ?s" "\<not> tls_inside_lock thread_init"
    "length (live_in ?s thread_init) < 3" "range_answer 1000 5 6 ?s = 16384"
    by (simp_all add: tls_ok_def thread_init_def profiler_on_def live_in_def shared_init_def range_answer_def
        is_collectable_def is_collectable_before_first_time_grabbed_def CollectorSpeedLimit_init_def
        COLLECTOR_SAMPLING_BASE_def Let_def)
  from stale_wait_reported_in_next_session [OF a _ l [unfolded r], of 900 "\<lambda>n. []" 0 0 0 0 950] l r
  show ?thesis by (auto simp: Let_def)
qed




end
