(* ===== verification/Profiler.thy ===== *)
theory Profiler
  imports Contention
begin

text \<open>
  \<^verbatim>\<open>src/profiler.cpp\<close>, \<^verbatim>\<open>src/profiler.h\<close> and \<open>SampledContention::dump_and_destroy\<close> of
  \<^verbatim>\<open>src/collector.h\<close>: the session of the profiler, its cache of samples and the file it writes.
  Samples are addresses into a heap of objects, because the cache is keyed by the address;
  \<open>destroy\<close> returns an address to the object pool. The iteration order of the
  \<open>unordered_set\<close> is an argument (\<open>order\<close>), and so are what the file system answered and the text of
  \<open>Util::get_self_maps\<close>.
\<close>

section \<open>Output format\<close>

definition newline :: string where "newline = [char_of (10 :: nat)]"

definition hex_char :: "nat \<Rightarrow> char" where
  "hex_char k = (if k < 10 then digit_char k else char_of (87 + k))"

definition hex_nat :: "nat \<Rightarrow> string" where
  "hex_nat n = digits 16 hex_char n"

text \<open>A stream prints a pointer in hexadecimal with a prefix, except the null pointer.\<close>

definition show_ptr :: "u64 \<Rightarrow> string" where
  "show_ptr p = (if p = 0 then ''0'' else ''0x'' @ hex_nat (unat p))"

definition SKIPPED_STACK_FRAMES :: nat where "SKIPPED_STACK_FRAMES = 2"
definition MAX_CACHED_CONTENTIONS :: nat where "MAX_CACHED_CONTENTIONS = 512"

definition sample_line :: "SampledContention \<Rightarrow> string" where
  "sample_line c =
     show_int (sint (duration_ns c)) @ '' '' @ show_nat (unat (ceil_size (weight c))) @ '' @'' @
     concat (map (\<lambda>i. '' '' @ show_ptr (stack c ! i)) [SKIPPED_STACK_FRAMES ..< frames_count c]) @ newline"

definition profile_header :: string where
  "profile_header = ''--- contention'' @ newline @ ''cycles/second=10000000000'' @ newline"

section \<open>State\<close>

record ContentionProfiler =
  cp_init :: bool
  cp_first_write :: bool
  cp_filename :: string
  cp_stream_open :: bool
  hash_set :: "u64 list"

text \<open>
  \<open>g_ctx\<close> is the object \<open>g_cp\<close> points to; \<open>heap\<close> the objects of the pool in use, \<open>returned\<close> the
  addresses given back, \<open>files\<close> the contents of the files.
\<close>

record session =
  g_shared :: shared
  g_ctx :: "ContentionProfiler option"
  heap :: "u64 \<Rightarrow> SampledContention"
  returned :: "u64 list"
  files :: "string \<Rightarrow> string option"

definition ContentionProfiler_new :: "string \<Rightarrow> ContentionProfiler" where
  "ContentionProfiler_new name =
     \<lparr>cp_init = False, cp_first_write = True, cp_filename = name, cp_stream_open = False, hash_set = []\<rparr>"

section \<open>Operations\<close>

definition write_stream :: "string \<Rightarrow> ContentionProfiler \<Rightarrow> session \<Rightarrow> session" where
  "write_stream t p s =
     (if cp_stream_open p
      then s\<lparr>files := (files s)(cp_filename p := map_option (\<lambda>old. old @ t) (files s (cp_filename p)))\<rparr>
      else s)"

definition destroy :: "u64 \<Rightarrow> session \<Rightarrow> session" where
  "destroy c s = s\<lparr>returned := returned s @ [c]\<rparr>"

text \<open>
  \<open>removed\<close> and \<open>opened\<close> say whether \<open>std::remove\<close> and opening the stream succeeded. A stream
  that could not be opened swallows what is written; no exception is thrown.
\<close>

definition init_if_needed ::
  "bool \<Rightarrow> bool \<Rightarrow> ContentionProfiler \<Rightarrow> session \<Rightarrow> ContentionProfiler \<times> session" where
  "init_if_needed removed opened p s =
     (if \<not> cp_init p then
        let fs = (if removed then (files s)(cp_filename p := None) else files s);
            fs = (if opened then fs(cp_filename p := Some (case fs (cp_filename p) of None \<Rightarrow> '''' | Some t \<Rightarrow> t))
                  else fs);
            p = p\<lparr>cp_stream_open := opened\<rparr>;
            s = write_stream profile_header p (s\<lparr>files := fs\<rparr>)
        in (p\<lparr>cp_init := True\<rparr>, s)
      else (p, s))"

definition flush_sample :: "ContentionProfiler \<Rightarrow> u64 \<Rightarrow> session \<Rightarrow> session" where
  "flush_sample p c s = destroy c (write_stream (sample_line (heap s c)) p s)"

definition flush_to_disk ::
  "(u64 list \<Rightarrow> u64 list) \<Rightarrow> string \<Rightarrow> bool \<Rightarrow> ContentionProfiler \<Rightarrow> session \<Rightarrow> ContentionProfiler \<times> session" where
  "flush_to_disk order self_maps ending p s =
     (let (p, s) = (if hash_set p \<noteq> []
                    then (p\<lparr>hash_set := []\<rparr>, fold (flush_sample p) (order (hash_set p)) s) else (p, s))
      in (p, if ending then write_stream self_maps p s else s))"

definition cp_dump_and_destroy ::
  "bool \<Rightarrow> bool \<Rightarrow> (u64 list \<Rightarrow> u64 list) \<Rightarrow> u64 \<Rightarrow> ContentionProfiler \<Rightarrow> session \<Rightarrow>
     ContentionProfiler \<times> session" where
  "cp_dump_and_destroy removed opened order c p s =
     (let (p, s) = init_if_needed removed opened p s;
          (p, s) = (if c \<in> set (hash_set p)
                    then let o1 = heap s c;
                             o1 = o1\<lparr>duration_ns := duration_ns o1 + duration_ns o1\<rparr>;
                             o1 = o1\<lparr>weight := double_add (weight o1) (weight o1)\<rparr>
                         in (p, destroy c (s\<lparr>heap := (heap s)(c := o1)\<rparr>))
                    else (p\<lparr>hash_set := hash_set p @ [c]\<rparr>, s))
      in if length (hash_set p) > MAX_CACHED_CONTENTIONS then flush_to_disk order '''' False p s else (p, s))"

text \<open>\<open>SampledContention::dump_and_destroy\<close>, run by the dump thread.\<close>

definition sample_dump_and_destroy ::
  "bool \<Rightarrow> bool \<Rightarrow> (u64 list \<Rightarrow> u64 list) \<Rightarrow> u64 \<Rightarrow> session \<Rightarrow> session" where
  "sample_dump_and_destroy removed opened order c s = (case g_ctx s of
       Some p \<Rightarrow> (case cp_dump_and_destroy removed opened order c p s of (p, s) \<Rightarrow> s\<lparr>g_ctx := Some p\<rparr>)
     | None \<Rightarrow> destroy c s)"

definition ContentionProfiler_destruct ::
  "(u64 list \<Rightarrow> u64 list) \<Rightarrow> string \<Rightarrow> ContentionProfiler \<Rightarrow> session \<Rightarrow> session" where
  "ContentionProfiler_destruct order self_maps p s =
     (if \<not> cp_init p then s else snd (flush_to_disk order self_maps True p s))"

definition contention_profiler_start :: "string option \<Rightarrow> session \<Rightarrow> session \<times> bool" where
  "contention_profiler_start filename s = (case filename of
       None \<Rightarrow> (s, False)
     | Some name \<Rightarrow>
         if g_ctx s \<noteq> None then (s, False)
         else (s\<lparr>g_ctx := Some (ContentionProfiler_new name), g_shared := profiler_on (g_shared s)\<rparr>, True))"

definition contention_profiler_stop ::
  "bool \<Rightarrow> bool \<Rightarrow> (u64 list \<Rightarrow> u64 list) \<Rightarrow> string \<Rightarrow> session \<Rightarrow> session" where
  "contention_profiler_stop removed opened order self_maps s = (case g_ctx s of
       None \<Rightarrow> s
     | Some ctx \<Rightarrow>
         let s = s\<lparr>g_ctx := None, g_shared := profiler_off (g_shared s)\<rparr>;
             (ctx, s) = init_if_needed removed opened ctx s
         in ContentionProfiler_destruct order self_maps ctx s)"

section \<open>What a session writes\<close>

lemma write_stream_closed [simp]: "\<not> cp_stream_open p \<Longrightarrow> write_stream t p s = s"
  by (simp add: write_stream_def)

lemma write_stream_hash_set [simp]: "write_stream t (p\<lparr>hash_set := cs\<rparr>) s = write_stream t p s"
  by (simp add: write_stream_def)

lemma write_stream_frame [simp]:
  "g_shared (write_stream t p s) = g_shared s" "g_ctx (write_stream t p s) = g_ctx s"
  "heap (write_stream t p s) = heap s" "returned (write_stream t p s) = returned s"
  by (simp_all add: write_stream_def)

lemma destroy_frame [simp]:
  "g_shared (destroy c s) = g_shared s" "g_ctx (destroy c s) = g_ctx s" "heap (destroy c s) = heap s"
  "files (destroy c s) = files s" "returned (destroy c s) = returned s @ [c]"
  by (simp_all add: destroy_def)

lemma write_stream_files:
  "cp_stream_open p \<Longrightarrow> files s (cp_filename p) = Some t \<Longrightarrow>
   files (write_stream u p s) (cp_filename p) = Some (t @ u)"
  by (simp add: write_stream_def)

lemma flush_samples:
  assumes "cp_stream_open p" and "files s (cp_filename p) = Some t"
  shows "files (fold (flush_sample p) cs s) (cp_filename p) = Some (t @ concat (map (\<lambda>c. sample_line (heap s c)) cs)) \<and>
    returned (fold (flush_sample p) cs s) = returned s @ cs \<and> heap (fold (flush_sample p) cs s) = heap s \<and>
    g_ctx (fold (flush_sample p) cs s) = g_ctx s \<and> g_shared (fold (flush_sample p) cs s) = g_shared s"
  using assms(2)
proof (induction cs arbitrary: s t)
  case (Cons c cs)
  have "files (flush_sample p c s) (cp_filename p) = Some (t @ sample_line (heap s c))"
    using write_stream_files [OF assms(1) Cons.prems] by (simp add: flush_sample_def)
  from Cons.IH [OF this] show ?case by (simp add: flush_sample_def)
qed simp

text \<open>
  The state of a session after some samples: \<open>ws\<close> is what the file holds, the cache holds the
  rest, and what was written was returned to the pool.
\<close>

definition written :: "string \<Rightarrow> SampledContention list \<Rightarrow> session \<Rightarrow> bool" where
  "written n ws s \<longleftrightarrow> files s n = Some (profile_header @ concat (map sample_line ws))"

definition in_session ::
  "string \<Rightarrow> u64 list \<Rightarrow> SampledContention list \<Rightarrow> u64 list \<Rightarrow> session \<Rightarrow> bool" where
  "in_session n r0 recs ptrs s \<longleftrightarrow> (\<exists>p ws. g_ctx s = Some p \<and> cp_filename p = n \<and>
     length (hash_set p) \<le> MAX_CACHED_CONTENTIONS \<and>
     (if cp_init p then cp_stream_open p \<and> written n ws s else ws = [] \<and> hash_set p = []) \<and>
     mset recs = mset ws + mset (map (heap s) (hash_set p)) \<and>
     mset (returned s) + mset (hash_set p) = mset r0 + mset ptrs)"

definition cached :: "session \<Rightarrow> u64 list" where
  "cached s = (case g_ctx s of Some p \<Rightarrow> hash_set p | None \<Rightarrow> [])"

text \<open>One sample \<open>sc\<close> in an object \<open>c\<close> reaches the dump thread.\<close>

definition dump_step ::
  "bool \<Rightarrow> (u64 list \<Rightarrow> u64 list) \<times> u64 \<times> SampledContention \<Rightarrow> session \<Rightarrow> session" where
  "dump_step removed d s = (case d of (order, c, sc) \<Rightarrow>
     sample_dump_and_destroy removed True order c (s\<lparr>heap := (heap s)(c := sc)\<rparr>))"

definition is_order :: "(u64 list \<Rightarrow> u64 list) \<Rightarrow> bool" where
  "is_order order \<longleftrightarrow> (\<forall>xs. mset (order xs) = mset xs)"

text \<open>The pool never hands out an object that is still cached.\<close>

fun fresh_run :: "bool \<Rightarrow> ((u64 list \<Rightarrow> u64 list) \<times> u64 \<times> SampledContention) list \<Rightarrow> session \<Rightarrow> bool" where
  "fresh_run removed [] s = True"
| "fresh_run removed (d # ds) s =
     (is_order (fst d) \<and> fst (snd d) \<notin> set (cached s) \<and> fresh_run removed ds (dump_step removed d s))"

lemma init_if_needed_inits:
  assumes "cp_init p \<longrightarrow> cp_stream_open p \<and> written (cp_filename p) ws s"
    and "\<not> cp_init p \<longrightarrow> ws = [] \<and> (removed \<or> files s (cp_filename p) = None)"
    and "init_if_needed removed True p s = (p', s')"
  shows "cp_init p' \<and> cp_stream_open p' \<and> cp_filename p' = cp_filename p \<and> hash_set p' = hash_set p \<and>
    written (cp_filename p) ws s' \<and> heap s' = heap s \<and> returned s' = returned s \<and>
    g_ctx s' = g_ctx s \<and> g_shared s' = g_shared s"
  using assms by (auto simp: init_if_needed_def written_def write_stream_def Let_def split: if_splits)

lemma flush_to_disk_writes:
  assumes "cp_stream_open p" and "written (cp_filename p) ws s" and "is_order order"
    and "flush_to_disk order maps ending p s = (p', s')"
  shows "p' = p\<lparr>hash_set := []\<rparr> \<and> heap s' = heap s \<and> g_ctx s' = g_ctx s \<and> g_shared s' = g_shared s \<and>
    mset (returned s') = mset (returned s) + mset (hash_set p) \<and>
    (\<exists>vs. mset vs = mset ws + mset (map (heap s) (hash_set p)) \<and>
      files s' (cp_filename p) = Some (profile_header @ concat (map sample_line vs) @ (if ending then maps else '''')))"
proof -
  define cs where "cs = (if hash_set p = [] then [] else order (hash_set p))"
  let ?s = "fold (flush_sample p) cs s"
  have "p = p\<lparr>hash_set := []\<rparr>" if "hash_set p = []" using that by simp
  then have eq: "p' = p\<lparr>hash_set := []\<rparr>" "s' = (if ending then write_stream maps p ?s else ?s)"
    using assms(4) by (auto simp: flush_to_disk_def Let_def cs_def split: if_splits)
  have cs: "mset cs = mset (hash_set p)" using assms(3) by (auto simp: is_order_def cs_def)
  note flushed = flush_samples [OF assms(1) assms(2) [unfolded written_def], of cs]
  let ?vs = "ws @ map (heap s) cs"
  have text_eq: "files ?s (cp_filename p) = Some (profile_header @ concat (map sample_line ?vs))"
    using flushed by (simp add: comp_def)
  have "mset ?vs = mset ws + mset (map (heap s) (hash_set p))" using cs by simp
  moreover have "files s' (cp_filename p) =
      Some (profile_header @ concat (map sample_line ?vs) @ (if ending then maps else ''''))"
    using eq(2) text_eq write_stream_files [OF assms(1) text_eq, of maps] by simp
  ultimately have "\<exists>vs. mset vs = mset ws + mset (map (heap s) (hash_set p)) \<and> files s' (cp_filename p) =
      Some (profile_header @ concat (map sample_line vs) @ (if ending then maps else []))"
    by blast
  then show ?thesis using eq flushed cs by (auto split: if_splits)
qed

lemma dump_step_in_session:
  assumes "in_session n r0 recs ptrs s" and "is_order order" and "c \<notin> set (cached s)"
    and "removed \<or> files s n = None \<or> (\<exists>p. g_ctx s = Some p \<and> cp_init p)"
  shows "in_session n r0 (recs @ [sc]) (ptrs @ [c]) (dump_step removed (order, c, sc) s) \<and>
    g_shared (dump_step removed (order, c, sc) s) = g_shared s \<and>
    (\<exists>p. g_ctx (dump_step removed (order, c, sc) s) = Some p \<and> cp_init p)"
proof -
  obtain p ws where p: "g_ctx s = Some p" "cp_filename p = n"
    "if cp_init p then cp_stream_open p \<and> written n ws s else ws = [] \<and> hash_set p = []"
    "mset recs = mset ws + mset (map (heap s) (hash_set p))"
    "mset (returned s) + mset (hash_set p) = mset r0 + mset ptrs"
    "length (hash_set p) \<le> MAX_CACHED_CONTENTIONS"
    using assms(1) by (auto simp: in_session_def)
  let ?s = "s\<lparr>heap := (heap s)(c := sc)\<rparr>"
  obtain p1 s1' where i: "init_if_needed removed True p ?s = (p1, s1')" by (metis prod.exhaust)
  have i1: "cp_init p1" "cp_stream_open p1" "cp_filename p1 = n" "hash_set p1 = hash_set p"
    "written n ws s1'" "heap s1' = (heap s)(c := sc)" "returned s1' = returned s" "g_shared s1' = g_shared s"
    using init_if_needed_inits [OF _ _ i, of ws] p assms(4) by (auto simp: written_def split: if_splits)
  have c: "c \<notin> set (hash_set p)" using assms(3) p(1) by (simp add: cached_def)
  let ?p2 = "p1\<lparr>hash_set := hash_set p @ [c]\<rparr>"
  have old: "image_mset ((heap s)(c := sc)) (mset (hash_set p)) = image_mset (heap s) (mset (hash_set p))"
    using c by (intro image_mset_cong) auto
  show ?thesis
  proof (cases "length (hash_set p @ [c]) > MAX_CACHED_CONTENTIONS")
    case False
    then have "dump_step removed (order, c, sc) s = s1'\<lparr>g_ctx := Some ?p2\<rparr>"
      using p(1) c i i1(4) by (simp add: dump_step_def sample_dump_and_destroy_def cp_dump_and_destroy_def Let_def)
    moreover have "in_session n r0 (recs @ [sc]) (ptrs @ [c]) (s1'\<lparr>g_ctx := Some ?p2\<rparr>)"
      unfolding in_session_def using i1 p(4,5) False old
      by (intro exI [of _ ?p2] exI [of _ ws]) (simp add: written_def)
    ultimately show ?thesis using i1 by auto
  next
    case True
    obtain p3 s3 where f: "flush_to_disk order '''' False ?p2 s1' = (p3, s3)" by (metis prod.exhaust)
    have d: "dump_step removed (order, c, sc) s = s3\<lparr>g_ctx := Some p3\<rparr>"
      using True p(1) c i i1(4) f
      by (simp add: dump_step_def sample_dump_and_destroy_def cp_dump_and_destroy_def Let_def)
    have w: "cp_stream_open ?p2" "written (cp_filename ?p2) ws s1'" using i1 by simp_all
    from flush_to_disk_writes [OF w assms(2) f]
    obtain vs where "p3 = p1\<lparr>hash_set := []\<rparr>" "g_shared s3 = g_shared s1'"
      "mset (returned s3) = mset (returned s1') + mset (hash_set p @ [c])"
      "mset vs = mset ws + mset (map (heap s1') (hash_set p @ [c]))"
      "files s3 n = Some (profile_header @ concat (map sample_line vs))"
      using i1(3) by auto
    then show ?thesis
      unfolding d in_session_def using i1 p(4,5) old
      by (intro conjI exI [of _ p3] exI [of _ vs]) (simp_all add: written_def)
  qed
qed

lemma dump_run_in_session:
  assumes "in_session n r0 recs ptrs s" and "fresh_run removed ds s"
    and "removed \<or> files s n = None \<or> (\<exists>p. g_ctx s = Some p \<and> cp_init p)"
  shows "in_session n r0 (recs @ map (snd \<circ> snd) ds) (ptrs @ map (fst \<circ> snd) ds) (fold (dump_step removed) ds s) \<and>
    g_shared (fold (dump_step removed) ds s) = g_shared s \<and>
    (removed \<or> files (fold (dump_step removed) ds s) n = None \<or>
      (\<exists>p. g_ctx (fold (dump_step removed) ds s) = Some p \<and> cp_init p))"
  using assms
proof (induction ds arbitrary: recs ptrs s)
  case (Cons d ds)
  obtain order c sc where d: "d = (order, c, sc)" by (cases d) auto
  have fresh: "is_order order" "c \<notin> set (cached s)" "fresh_run removed ds (dump_step removed d s)"
    using Cons.prems(2) by (simp_all add: d)
  note step = dump_step_in_session [OF Cons.prems(1) fresh(1,2) Cons.prems(3), of sc]
  show ?case
    using Cons.IH [of "recs @ [sc]" "ptrs @ [c]" "dump_step removed d s"] step fresh(3) by (auto simp: d)
qed simp

lemma stop_writes:
  assumes "in_session n r0 recs ptrs s" and "is_order order"
    and "removed \<or> files s n = None \<or> (\<exists>p. g_ctx s = Some p \<and> cp_init p)"
  shows "let s' = contention_profiler_stop removed True order maps s in
    g_ctx s' = None \<and> g_shared s' = profiler_off (g_shared s) \<and>
    mset (returned s') = mset r0 + mset ptrs \<and>
    (\<exists>ws. mset ws = mset recs \<and> files s' n = Some (profile_header @ concat (map sample_line ws) @ maps))"
proof -
  obtain p ws where p: "g_ctx s = Some p" "cp_filename p = n"
    "if cp_init p then cp_stream_open p \<and> written n ws s else ws = [] \<and> hash_set p = []"
    "mset recs = mset ws + mset (map (heap s) (hash_set p))"
    "mset (returned s) + mset (hash_set p) = mset r0 + mset ptrs"
    using assms(1) by (auto simp: in_session_def)
  let ?s = "s\<lparr>g_ctx := None, g_shared := profiler_off (g_shared s)\<rparr>"
  obtain p1 s1' where i: "init_if_needed removed True p ?s = (p1, s1')" by (metis prod.exhaust)
  have i1: "cp_init p1" "cp_stream_open p1" "cp_filename p1 = n" "hash_set p1 = hash_set p"
    "written n ws s1'" "heap s1' = heap s" "returned s1' = returned s" "g_ctx s1' = None"
    "g_shared s1' = profiler_off (g_shared s)"
    using init_if_needed_inits [OF _ _ i, of ws] p assms(3) by (auto simp: written_def split: if_splits)
  obtain p3 s3 where f: "flush_to_disk order maps True p1 s1' = (p3, s3)" by (metis prod.exhaust)
  have "contention_profiler_stop removed True order maps s = s3"
    using p(1) i i1(1) f by (simp add: contention_profiler_stop_def ContentionProfiler_destruct_def Let_def)
  moreover have "written (cp_filename p1) ws s1'" using i1 by simp
  ultimately show ?thesis
    using flush_to_disk_writes [OF i1(2) _ assms(2) f, of ws] i1 p(4,5) by (auto simp: Let_def)
qed

text \<open>Reading a line back: numbers and pointers contain no separator.\<close>

lemma digit_char_code: "k < 10 \<Longrightarrow> (of_char (digit_char k) :: nat) = 48 + k"
  by (simp add: digit_char_def take_bit_nat_eq_self_iff)

lemma hex_char_code: "k < 16 \<Longrightarrow> (of_char (hex_char k) :: nat) = (if k < 10 then 48 + k else 87 + k)"
  by (simp add: hex_char_def digit_char_code take_bit_nat_eq_self_iff)

lemma inj_digit_char: "inj_on digit_char {..<10}"
  by (rule inj_onI) (metis add_left_cancel digit_char_code lessThan_iff)

lemma inj_hex_char: "inj_on hex_char {..<16}"
proof (rule inj_onI)
  fix x y assume "x \<in> {..<16}" "y \<in> {..<16}" and eq: "hex_char x = hex_char y"
  then have "(if x < 10 then 48 + x else 87 + x) = (if y < 10 then 48 + y else (87 + y :: nat))"
    using hex_char_code [of x] hex_char_code [of y] by (simp only: lessThan_iff eq)
  then show "x = y" by (auto split: if_splits)
qed

lemma show_nat_inject: "show_nat m = show_nat n \<longleftrightarrow> m = n"
  by (simp add: show_nat_def digits_inject inj_digit_char)

lemma hex_nat_inject: "hex_nat m = hex_nat n \<longleftrightarrow> m = n"
  by (simp add: hex_nat_def digits_inject inj_hex_char)

text \<open>The characters of numbers, above the separators.\<close>

definition plain :: "string \<Rightarrow> bool" where
  "plain t \<longleftrightarrow> (\<forall>c\<in>set t. 33 \<le> (of_char c :: nat))"

lemma plain_append [simp]: "plain (s @ t) \<longleftrightarrow> plain s \<and> plain t"
  by (auto simp: plain_def)

lemma plain_show_nat: "plain (show_nat n)" and show_nat_chars: "c \<in> set (show_nat n) \<Longrightarrow> 48 \<le> (of_char c :: nat)"
  using set_digits [of 10 digit_char n] by (fastforce simp: plain_def show_nat_def digit_char_code)+

lemma plain_show_int: "plain (show_int i)"
  using plain_show_nat by (auto simp: show_int_def) (auto simp: plain_def)

lemma plain_show_ptr: "plain (show_ptr p)"
proof -
  have "plain (hex_nat n)" for n
    using set_digits [of 16 hex_char n] by (fastforce simp: plain_def hex_nat_def hex_char_code)
  then show ?thesis by (auto simp: show_ptr_def) (auto simp: plain_def)
qed

lemma show_int_inject: "show_int i = show_int j \<longleftrightarrow> i = j"
proof
  have neg: "''-'' @ show_nat m \<noteq> show_nat n" for m n
  proof
    assume "''-'' @ show_nat m = show_nat n"
    then have "CHR ''-'' \<in> set (show_nat n)" by (metis append_Cons list.set_intros(1))
    from show_nat_chars [OF this] show False by simp
  qed
  assume "show_int i = show_int j"
  then show "i = j" using neg neg [symmetric] by (auto simp: show_int_def show_nat_inject split: if_splits)
qed simp

lemma show_ptr_inject: "show_ptr p = show_ptr q \<longleftrightarrow> p = q"
  by (auto simp: show_ptr_def hex_nat_inject word_unat_eq_iff)

lemma split_at_separator:
  assumes "plain a" and "plain b" and "(of_char sep :: nat) < 33" and "(of_char sep' :: nat) < 33"
  shows "a @ sep # s = b @ sep' # t \<longleftrightarrow> a = b \<and> sep = sep' \<and> s = t"
  using assms(1,2)
proof (induction a arbitrary: b)
  case Nil
  then show ?case using assms(3) by (cases b) (auto simp: plain_def)
next
  case (Cons x a)
  then show ?case using assms(4) by (cases b) (auto simp: plain_def)
qed

definition frames_text :: "u64 list \<Rightarrow> string" where
  "frames_text fs = concat (map (\<lambda>f. '' '' @ show_ptr f) fs) @ newline"

lemma frames_text_inject: "frames_text fs = frames_text gs \<longleftrightarrow> fs = gs"
proof
  show "frames_text fs = frames_text gs \<Longrightarrow> fs = gs"
  proof (induction fs arbitrary: gs)
    case Nil
    then show ?case by (cases gs) (auto simp: frames_text_def newline_def char_of_def bit_0)
  next
    case (Cons f fs)
    have rest: "\<exists>sep t. frames_text hs = sep # t \<and> (of_char sep :: nat) < 33" for hs
      by (cases hs) (auto simp: frames_text_def newline_def)
    show ?case
    proof (cases gs)
      case Nil
      then show ?thesis using Cons.prems by (auto simp: frames_text_def newline_def char_of_def bit_0)
    next
      case (Cons g gs')
      obtain u s v t where parts: "frames_text fs = u # s" "(of_char u :: nat) < 33"
        "frames_text gs' = v # t" "(of_char v :: nat) < 33" using rest by metis
      have "show_ptr f @ frames_text fs = show_ptr g @ frames_text gs'"
        using \<open>frames_text (f # fs) = frames_text gs\<close> Cons by (simp add: frames_text_def)
      then have "show_ptr f = show_ptr g" "frames_text fs = frames_text gs'"
        using split_at_separator [OF plain_show_ptr plain_show_ptr parts(2,4), of f s g t] parts by auto
      then show ?thesis using Cons.IH Cons by (simp add: show_ptr_inject)
    qed
  qed
qed simp

text \<open>The frames of a sample that are written.\<close>

definition shown_frames :: "SampledContention \<Rightarrow> u64 list" where
  "shown_frames c = map (\<lambda>i. stack c ! i) [2 ..< frames_count c]"

lemma sample_line_text:
  "sample_line c = show_int (sint (duration_ns c)) @ CHR '' '' #
     show_nat (unat (ceil_size (weight c))) @ CHR '' '' # CHR ''@'' # frames_text (shown_frames c)"
  by (simp add: sample_line_def frames_text_def shown_frames_def SKIPPED_STACK_FRAMES_def comp_def)

section \<open>Properties\<close>

text \<open>
  C7. No sample is lost, duplicated or leaked by a session. After a successful start, any number
  of samples that reach the dump thread in objects not still cached, and a stop, the file holds
  the header, one line for each of the samples and nothing else, and the memory map, in this
  order, whatever order the set is iterated in; every object was returned to the pool exactly
  once; the session is over; and the cache never held more than 512 samples after a dump.
\<close>

theorem profile_conserves_samples:
  assumes "contention_profiler_start (Some n) s = (st, True)" and "fresh_run removed ds st" and "is_order order"
    and "removed \<or> files s n = None"
  shows "length (cached (fold (dump_step removed) ds st)) \<le> 512 \<and>
    (let s' = contention_profiler_stop removed True order maps (fold (dump_step removed) ds st) in
      g_ctx s' = None \<and> \<not> g_cp (g_shared s') \<and>
      mset (returned s') = mset (returned s) + mset (map (fst \<circ> snd) ds) \<and>
      (\<exists>ws. mset ws = mset (map (snd \<circ> snd) ds) \<and>
        files s' n = Some (profile_header @ concat (map sample_line ws) @ maps)))"
proof -
  have st: "g_ctx st = Some (ContentionProfiler_new n)" "files st = files s" "returned st = returned s"
    using assms(1) by (auto simp: contention_profiler_start_def split: if_splits)
  have "in_session n (returned s) [] [] st"
    unfolding in_session_def using st
    by (intro exI [of _ "ContentionProfiler_new n"] exI [of _ "[]"]) (simp add: ContentionProfiler_new_def)
  from dump_run_in_session [OF this assms(2)] assms(4) st
  have run: "in_session n (returned s) (map (snd \<circ> snd) ds) (map (fst \<circ> snd) ds) (fold (dump_step removed) ds st)"
    "removed \<or> files (fold (dump_step removed) ds st) n = None \<or>
      (\<exists>p. g_ctx (fold (dump_step removed) ds st) = Some p \<and> cp_init p)"
    by auto
  have "length (cached (fold (dump_step removed) ds st)) \<le> 512"
    using run(1) by (auto simp: in_session_def cached_def MAX_CACHED_CONTENTIONS_def)
  then show ?thesis
    using stop_writes [OF run(1) assms(3) run(2), of maps] by (simp add: Let_def profiler_off_def)
qed

definition empty_session :: session where
  "empty_session = \<lparr>g_shared = shared_init, g_ctx = None, heap = (\<lambda>_. \<lparr>duration_ns = 0, weight = 0, frames_count = 0, stack = []\<rparr>),
     returned = [], files = (\<lambda>_. None)\<rparr>"

definition two_samples :: "((u64 list \<Rightarrow> u64 list) \<times> u64 \<times> SampledContention) list" where
  "two_samples = [(rev, 64, \<lparr>duration_ns = 300, weight = 1, frames_count = 3, stack = [11, 22, 33]\<rparr>),
     (rev, 192, \<lparr>duration_ns = 40, weight = 50, frames_count = 4, stack = [11, 22, 44, 55]\<rparr>)]"

theorem profile_conserves_samples_witness:
  "\<exists>ws. mset ws = mset (map (snd \<circ> snd) two_samples) \<and>
    files (contention_profiler_stop True True rev ''maps''
      (fold (dump_step True) two_samples (fst (contention_profiler_start (Some ''out'') empty_session)))) ''out'' =
      Some (profile_header @ concat (map sample_line ws) @ ''maps'')"
proof -
  let ?st = "fst (contention_profiler_start (Some ''out'') empty_session)"
  have start: "contention_profiler_start (Some ''out'') empty_session = (?st, True)"
    by (simp add: contention_profiler_start_def empty_session_def)
  have "fresh_run True two_samples ?st"
    by (simp add: two_samples_def is_order_def dump_step_def sample_dump_and_destroy_def cp_dump_and_destroy_def
        init_if_needed_def contention_profiler_start_def empty_session_def cached_def ContentionProfiler_new_def
        MAX_CACHED_CONTENTIONS_def Let_def)
  moreover have "is_order rev" by (simp add: is_order_def)
  ultimately show ?thesis
    using profile_conserves_samples [OF start, of True two_samples rev "''maps''"] by (simp add: Let_def)
qed

text \<open>
  The states of the profiler. Start succeeds exactly when a file is named and no session is
  running, and then begins a new version with nothing cached; otherwise it changes nothing. Stop
  ends a running session, so that the next start succeeds, and changes nothing when there is
  none. The hooks see a session exactly while there is one.
\<close>

theorem profiler_start_stop:
  "snd (contention_profiler_start f s) = (f \<noteq> None \<and> g_ctx s = None) \<and>
   (if f \<noteq> None \<and> g_ctx s = None
    then g_shared (fst (contention_profiler_start f s)) = profiler_on (g_shared s) \<and>
      cached (fst (contention_profiler_start f s)) = []
    else fst (contention_profiler_start f s) = s) \<and>
   (if g_ctx s = None then contention_profiler_stop removed opened order maps s = s
    else snd (contention_profiler_start (Some n) (contention_profiler_stop removed opened order maps s))) \<and>
   ((g_cp (g_shared s) \<longleftrightarrow> g_ctx s \<noteq> None) \<longrightarrow>
      (\<forall>s' \<in> {fst (contention_profiler_start f s), contention_profiler_stop removed opened order maps s,
              sample_dump_and_destroy removed opened order c s}. g_cp (g_shared s') \<longleftrightarrow> g_ctx s' \<noteq> None))"
proof -
  have flush: "g_ctx (fold (flush_sample p) cs s) = g_ctx s \<and> g_shared (fold (flush_sample p) cs s) = g_shared s" for p cs s
    by (induction cs arbitrary: s) (simp_all add: flush_sample_def)
  have fd: "g_ctx s' = g_ctx s \<and> g_shared s' = g_shared s"
    if "flush_to_disk order maps ending p s = (p', s')" for ending p p' maps s s'
    using that flush by (auto simp: flush_to_disk_def Let_def split: if_splits)
  have ini: "g_ctx s' = g_ctx s \<and> g_shared s' = g_shared s"
    if "init_if_needed removed opened p s = (p', s')" for p p' s s'
    using that by (auto simp: init_if_needed_def Let_def split: if_splits)
  have stop: "g_ctx (contention_profiler_stop removed opened order maps s) = None \<and>
      g_shared (contention_profiler_stop removed opened order maps s) = profiler_off (g_shared s)"
    if some: "g_ctx s \<noteq> None"
  proof -
    obtain p where p: "g_ctx s = Some p" using some by auto
    let ?s = "s\<lparr>g_ctx := None, g_shared := profiler_off (g_shared s)\<rparr>"
    obtain p1 s1' where i: "init_if_needed removed opened p ?s = (p1, s1')" by (metis prod.exhaust)
    obtain p2 s2 where f: "flush_to_disk order maps True p1 s1' = (p2, s2)" by (metis prod.exhaust)
    show ?thesis using p i ini [OF i] f fd [OF f]
      by (simp add: contention_profiler_stop_def ContentionProfiler_destruct_def Let_def)
  qed
  have dump: "(g_ctx (sample_dump_and_destroy removed opened order c s) \<noteq> None) = (g_ctx s \<noteq> None) \<and>
      g_shared (sample_dump_and_destroy removed opened order c s) = g_shared s"
  proof (cases "g_ctx s")
    case (Some p)
    obtain p1 s1' where i: "init_if_needed removed opened p s = (p1, s1')" by (metis prod.exhaust)
    show ?thesis using Some i ini [OF i] fd
      by (auto simp: sample_dump_and_destroy_def cp_dump_and_destroy_def Let_def split: prod.splits)
  qed (simp add: sample_dump_and_destroy_def)
  show ?thesis
    using stop dump
    by (auto simp: contention_profiler_start_def profiler_on_def profiler_off_def cached_def
        ContentionProfiler_new_def contention_profiler_stop_def split: option.splits)
qed

theorem profiler_start_stop_witness:
  "let s = fst (contention_profiler_start (Some ''out'') empty_session)
   in snd (contention_profiler_start (Some ''out'') empty_session) \<and>
     snd (contention_profiler_start (Some ''again'') (contention_profiler_stop True True rev ''maps'' s)) \<and>
     \<not> g_cp (g_shared (contention_profiler_stop True True rev ''maps'' s))"
proof -
  let ?s = "fst (contention_profiler_start (Some ''out'') empty_session)"
  have a: "snd (contention_profiler_start (Some ''out'') empty_session)" "g_cp (g_shared ?s)" "g_ctx ?s \<noteq> None"
    by (simp_all add: contention_profiler_start_def empty_session_def profiler_on_def)
  note p = profiler_start_stop [where f = None and s = ?s and removed = True and opened = True and order = rev
      and maps = "''maps''" and n = "''again''" and c = 0]
  have "snd (contention_profiler_start (Some ''again'') (contention_profiler_stop True True rev ''maps'' ?s))"
    using p a(3) by simp
  moreover have "g_ctx (contention_profiler_stop True True rev ''maps'' ?s) = None"
    using \<open>snd (contention_profiler_start (Some ''again'') _)\<close>
    by (auto simp: contention_profiler_start_def split: if_splits)
  moreover have "g_cp (g_shared (contention_profiler_stop True True rev ''maps'' ?s)) \<longleftrightarrow>
      g_ctx (contention_profiler_stop True True rev ''maps'' ?s) \<noteq> None"
    using p a by auto
  ultimately show ?thesis using a(1) by (simp add: Let_def)
qed

text \<open>
  Equal call stacks are not merged. \<open>hash_code\<close> identifies a sample by its stack and the dump
  adds up samples it finds in the set, but the set compares addresses, so two samples of the same
  stack in two objects are written as two lines.
\<close>

theorem equal_stacks_not_merged:
  "let a = \<lparr>duration_ns = 300, weight = 1, frames_count = 3, stack = [11, 22, 33]\<rparr>;
       b = \<lparr>duration_ns = 40, weight = 50, frames_count = 3, stack = [11, 22, 33]\<rparr>;
       s = fold (dump_step True) [(rev, 64, a), (rev, 192, b)]
             (fst (contention_profiler_start (Some ''out'') empty_session))
   in hash_code (frames_count a) (stack a) = hash_code (frames_count b) (stack b) \<and>
      files (contention_profiler_stop True True id '''' s) ''out'' =
        Some (''--- contention'' @ newline @ ''cycles/second=10000000000'' @ newline @
              ''300 1 @ 0x21'' @ newline @ ''40 50 @ 0x21'' @ newline)"
  by (simp add: dump_step_def sample_dump_and_destroy_def cp_dump_and_destroy_def
        init_if_needed_def contention_profiler_start_def empty_session_def cached_def ContentionProfiler_new_def
        MAX_CACHED_CONTENTIONS_def contention_profiler_stop_def ContentionProfiler_destruct_def flush_to_disk_def
        flush_sample_def destroy_def write_stream_def sample_line_def profile_header_def SKIPPED_STACK_FRAMES_def
        show_ptr_def hex_nat_def hex_char_def show_int_def show_nat_def digits.simps digit_char_def ceil_size_def char_of_def bit_0 Let_def)

text \<open>
  C36. A line of the profile determines what it reports: two samples are written as the same line
  only if they have the same duration, the same rounded weight and the same call stack below the
  two frames of the profiler.
\<close>

theorem sample_line_determines_sample:
  "sample_line a = sample_line b \<longleftrightarrow>
     duration_ns a = duration_ns b \<and> ceil_size (weight a) = ceil_size (weight b) \<and>
     shown_frames a = shown_frames b"
proof -
  have sp: "(of_char (CHR '' '') :: nat) < 33" by simp
  have sint: "sint x = sint y \<longleftrightarrow> x = y" for x y :: i64 by (auto intro: signed_word_eqI)
  have unat: "unat x = unat y \<longleftrightarrow> x = y" for x y :: u64 by (simp add: word_unat_eq_iff)
  show ?thesis
    unfolding sample_line_text
    by (subst split_at_separator [OF plain_show_int plain_show_int sp sp], simp,
        subst split_at_separator [OF plain_show_nat plain_show_nat sp sp], simp)
      (simp add: show_int_inject show_nat_inject frames_text_inject sint unat)
qed

end
