(* ===== verification/Collector.thy ===== *)
theory Collector
  imports "HOL-Library.Multiset" Linked_List Speed_Limit Util_Time
begin

text \<open>
  The collector of \<^verbatim>\<open>src/collector.cpp\<close>: the rounds of the grab thread and of the dump thread, the
  combination of submitted samples and the decision whether a sample is submitted at all. Samples
  are nodes of intrusive lists in a store of links; the two local list heads of the grab thread,
  the local one of the dump thread and \<open>dump_root_\<close> are nodes too. The virtual functions
  of a sample (\<open>preprocessor\<close>, \<open>speed_limit\<close>) and \<open>process\<close> of a preprocessor are arguments;
  \<open>destroy\<close> and \<open>dump_and_destroy\<close> are recorded in the order of the calls. The rounds here run
  undisturbed; \<open>Grab_Dump\<close> has the same operations as steps of the two threads.
\<close>

section \<open>State\<close>

definition COLLECTOR_GRAB_INTERVAL_US :: int where
  "COLLECTOR_GRAB_INTERVAL_US = 100000"

text \<open>
  What a round is given: the virtual functions, the flag \<open>collector_max_pending_samples\<close> and the
  addresses of \<open>g_null_speed_limit\<close>, of the list heads on the stacks of the two threads and of
  \<open>dump_root_\<close>.
\<close>

record surroundings =
  preprocessor :: "u64 \<Rightarrow> u64"
  process :: "u64 \<Rightarrow> u64 list \<Rightarrow> u64 list"
  speed_limit :: "u64 \<Rightarrow> u64"
  g_null_speed_limit :: u64
  max_pending :: int
  tmp_root :: u64
  kept_root :: u64
  dump_root :: u64
  dump_local :: u64

text \<open>A \<open>std::map\<close> with pointer keys, as the list of its pairs in the order of iteration.\<close>

type_synonym 'v ptr_map = "(u64 \<times> 'v) list"

text \<open>
  Where the threads are. The grab thread is at the test of \<open>stop_\<close>, at the sample or vector to look at
  next (with the time its sleep will end, the rest of the vector and the vectors after it), before
  the update of the speed limits, before the sleep, asleep, or out of its loop; the dump thread at
  the test of \<open>stop_\<close>, waiting under the mutex, at the sample to dump next, or out of its loop (with
  the number of its round).
\<close>

datatype grab_place = Grab_start | Grab_look int "u64 list" "u64 list ptr_map" | Grab_adapt int
  | Grab_doze int | Grab_asleep | Grab_quit

datatype dump_place = Dump_start u64 | Dump_await u64 | Dump_work u64 u64 | Dump_quit

record collector =
  c_links :: "u64 links"
  last_active_cpuwide_us :: int
  last_before_update_sl :: int
  stop_flag :: bool
  grab_count :: int
  drop_count :: int
  dump_count :: int
  last_grab_count_map :: "u64 ptr_map"
  grab_count_map :: "u64 ptr_map"
  prep_map :: "u64 list ptr_map"
  speed_limits :: "u64 \<Rightarrow> CollectorSpeedLimit"
  destroyed :: "u64 list"
  dumped :: "(u64 \<times> u64) list"
  grab_pos :: grab_place
  dump_pos :: dump_place

text \<open>\<open>map[k]\<close>: the value of a key, created as \<open>dflt\<close> when it is missing, is updated.\<close>

fun map_at :: "'v \<Rightarrow> ('v \<Rightarrow> 'v) \<Rightarrow> u64 \<Rightarrow> 'v ptr_map \<Rightarrow> 'v ptr_map" where
  "map_at dflt f k [] = [(k, f dflt)]"
| "map_at dflt f k ((k', v) # m) =
     (if k = k' then (k, f v) # m
      else if k < k' then (k, f dflt) # (k', v) # m
      else (k', v) # map_at dflt f k m)"

definition map_get :: "'v \<Rightarrow> u64 \<Rightarrow> 'v ptr_map \<Rightarrow> 'v" where
  "map_get dflt k m = (case map_of m k of Some v \<Rightarrow> v | None \<Rightarrow> dflt)"

section \<open>Submission\<close>

text \<open>\<open>CombineCollected\<close>: null pointers are \<open>None\<close>; the first argument is also the result.\<close>

definition CombineCollected :: "u64 option \<Rightarrow> u64 option \<Rightarrow> u64 links \<Rightarrow> u64 option \<times> u64 links" where
  "CombineCollected p1 p2 s = (case p2 of
       None \<Rightarrow> (p1, s)
     | Some b \<Rightarrow> (case p1 of
         None \<Rightarrow> (Some b, s)
       | Some a \<Rightarrow> (Some a, insert_before_as_list a b s)))"

text \<open>
  \<open>Collected::submit\<close>: whether the sample goes to the collector (otherwise it is destroyed). The
  signed sum is converted for the comparison with the unsigned argument.
\<close>

definition submit_accepted :: "u64 \<Rightarrow> collector \<Rightarrow> bool option" where
  "submit_accepted cpu_time_us d = do {
     t \<leftarrow> chk_long (last_active_cpuwide_us d + COLLECTOR_GRAB_INTERVAL_US * 2);
     Some (cpu_time_us < of_int t) }"

section \<open>The grab thread\<close>

definition classify :: "surroundings \<Rightarrow> u64 \<Rightarrow> collector \<Rightarrow> collector" where
  "classify w p st =
     st\<lparr>c_links := remove_from_list p (c_links st),
        prep_map := map_at [] (\<lambda>l. l @ [p]) (preprocessor w p) (prep_map st)\<rparr>"

text \<open>All samples of the combiner are moved into the vectors of their preprocessors.\<close>

definition classify_all :: "surroundings \<Rightarrow> u64 \<Rightarrow> collector \<Rightarrow> collector option" where
  "classify_all w head st =
     (let st = st\<lparr>c_links := LinkNode (tmp_root w) (c_links st)\<rparr>;
          st = st\<lparr>c_links := insert_before_as_list head (tmp_root w) (c_links st)\<rparr>
      in ring_for (\<lambda>st. next_ptr (c_links st)) (classify w) (tmp_root w)
           (next_ptr (c_links st) (tmp_root w)) st)"

text \<open>One sample is counted, and kept in the list \<open>kept_root\<close> or destroyed when too many are pending.\<close>

definition grab_one :: "surroundings \<Rightarrow> u64 \<Rightarrow> collector \<Rightarrow> collector" where
  "grab_one w p st =
     (let sl = (if speed_limit w p = 0 then g_null_speed_limit w else speed_limit w p);
          st = st\<lparr>grab_count_map := map_at 0 (\<lambda>n. n + 1) sl (grab_count_map st)\<rparr>;
          st = st\<lparr>grab_count := grab_count st + 1\<rparr>
      in if grab_count st \<ge> drop_count st + dump_count st + max_pending w
         then st\<lparr>drop_count := drop_count st + 1, destroyed := destroyed st @ [p]\<rparr>
         else st\<lparr>c_links := insert_before p (kept_root w) (c_links st)\<rparr>)"

definition bucket_list :: "surroundings \<Rightarrow> u64 \<times> u64 list \<Rightarrow> u64 list" where
  "bucket_list w b =
     (case b of (prep, list) \<Rightarrow> if list = [] then [] else if prep \<noteq> 0 then process w prep list else list)"

definition grab_bucket :: "surroundings \<Rightarrow> u64 \<times> u64 list \<Rightarrow> collector \<Rightarrow> collector" where
  "grab_bucket w b st = fold (grab_one w) (bucket_list w b) st"

definition hand_to_dumper :: "surroundings \<Rightarrow> collector \<Rightarrow> collector" where
  "hand_to_dumper w st =
     (if next_ptr (c_links st) (kept_root w) \<noteq> kept_root w then
        let head2 = next_ptr (c_links st) (kept_root w);
            st = st\<lparr>c_links := remove_from_list (kept_root w) (c_links st)\<rparr>
        in st\<lparr>c_links := insert_before_as_list head2 (dump_root w) (c_links st)\<rparr>
      else st)"

text \<open>
  The part of a round before the clock is read; \<open>head\<close> is what \<open>reset()\<close> returned. Its first half
  takes the samples over, its second half looks at each.
\<close>

definition take_in :: "surroundings \<Rightarrow> u64 option \<Rightarrow> collector \<Rightarrow> collector option" where
  "take_in w head st =
     (let st = st\<lparr>prep_map := map (\<lambda>(k, _). (k, [])) (prep_map st)\<rparr>
      in case head of
           None \<Rightarrow> Some st
         | Some h \<Rightarrow> do {
             st \<leftarrow> classify_all w h st;
             Some (st\<lparr>c_links := LinkNode (kept_root w) (c_links st)\<rparr>) })"

definition grab_collect :: "surroundings \<Rightarrow> u64 option \<Rightarrow> collector \<Rightarrow> collector option" where
  "grab_collect w head st = do {
     st \<leftarrow> take_in w head st;
     Some (if head = None then st else hand_to_dumper w (fold (grab_bucket w) (prep_map st) st)) }"

text \<open>The sampling ranges are adapted; \<open>wall\<close> gives the clock reading of each call.\<close>

definition update_one :: "int \<Rightarrow> (u64 \<Rightarrow> int) \<Rightarrow> int \<Rightarrow> u64 \<times> u64 \<Rightarrow> collector \<Rightarrow> collector option" where
  "update_one expected wall interval e st = (case e of (k, n) \<Rightarrow> do {
     (sl, last_count) \<leftarrow> update_speed_limit expected (wall k) (speed_limits st k)
        (map_get 0 k (last_grab_count_map st)) n interval;
     Some (st\<lparr>speed_limits := (speed_limits st)(k := sl),
              last_grab_count_map := map_at 0 (\<lambda>_. last_count) k (last_grab_count_map st)\<rparr>) })"

definition update_speed_limits :: "int \<Rightarrow> (u64 \<Rightarrow> int) \<Rightarrow> int \<Rightarrow> collector \<Rightarrow> collector option" where
  "update_speed_limits expected wall now st = do {
     interval \<leftarrow> chk_long (now - last_before_update_sl st);
     let st = st\<lparr>last_before_update_sl := now\<rparr>;
     foldM (update_one expected wall interval) (grab_count_map st) st }"

text \<open>
  The end of a round: the deadline the thread sleeps to, if it sleeps. \<open>now2\<close> and \<open>now3\<close> are the
  clock before and after the sleep, \<open>abstime\<close> was fixed at the start of the round.
\<close>

definition grab_doze :: "int \<Rightarrow> int \<Rightarrow> timespec \<Rightarrow> collector \<Rightarrow> (collector \<times> timespec option) option" where
  "grab_doze abstime now2 realtime st = do {
     let st = st\<lparr>last_active_cpuwide_us := now2\<rparr>;
     deadline \<leftarrow> (if \<not> stop_flag st \<and> abstime > now2
        then do { d \<leftarrow> chk_long (abstime - now2); map_option Some (microseconds_from_now realtime d) }
        else Some None);
     Some (st, deadline) }"

definition grab_sleep :: "int \<Rightarrow> int \<Rightarrow> timespec \<Rightarrow> int \<Rightarrow> collector \<Rightarrow> (collector \<times> timespec option) option" where
  "grab_sleep abstime now2 realtime now3 st = do {
     (st, deadline) \<leftarrow> grab_doze abstime now2 realtime st;
     Some (st\<lparr>last_active_cpuwide_us := now3\<rparr>, deadline) }"

definition grab_round ::
  "surroundings \<Rightarrow> u64 option \<Rightarrow> int \<Rightarrow> (u64 \<Rightarrow> int) \<Rightarrow> int \<Rightarrow> int \<Rightarrow> timespec \<Rightarrow> int \<Rightarrow>
     collector \<Rightarrow> (collector \<times> timespec option) option" where
  "grab_round w head expected wall now now2 realtime now3 st = do {
     abstime \<leftarrow> chk_long (last_active_cpuwide_us st + COLLECTOR_GRAB_INTERVAL_US);
     st \<leftarrow> grab_collect w head st;
     st \<leftarrow> update_speed_limits expected wall now st;
     grab_sleep abstime now2 realtime now3 st }"

section \<open>The dump thread\<close>

definition dump_one :: "u64 \<Rightarrow> u64 \<Rightarrow> collector \<Rightarrow> collector" where
  "dump_one nround p st =
     st\<lparr>c_links := remove_from_list p (c_links st), dumped := dumped st @ [(nround, p)],
        dump_count := dump_count st + 1\<rparr>"

text \<open>\<open>stop i\<close> says whether \<open>stop_\<close> is seen before the sample number \<open>i\<close> of the round.\<close>

partial_function (option) dump_loop ::
  "(nat \<Rightarrow> bool) \<Rightarrow> u64 \<Rightarrow> u64 \<Rightarrow> nat \<Rightarrow> u64 \<Rightarrow> collector \<Rightarrow> collector option" where
  "dump_loop stop nround sentinel i p st =
     (if stop i \<or> p = sentinel then Some st
      else dump_loop stop nround sentinel (i + 1) (next_ptr (c_links st) p) (dump_one nround p st))"

text \<open>
  One iteration of the dump thread once \<open>dump_root_\<close> is not empty (before that it waits). Its
  local root (\<open>dump_local\<close>) is constructed once, before the first round.
\<close>

definition dump_take :: "surroundings \<Rightarrow> collector \<Rightarrow> collector" where
  "dump_take w st =
     (let new_head = next_ptr (c_links st) (dump_root w);
          st = st\<lparr>c_links := remove_from_list (dump_root w) (c_links st)\<rparr>
      in st\<lparr>c_links := insert_before_as_list new_head (dump_local w) (c_links st)\<rparr>)"

definition dump_round :: "surroundings \<Rightarrow> (nat \<Rightarrow> bool) \<Rightarrow> u64 \<Rightarrow> collector \<Rightarrow> collector option" where
  "dump_round w stop nround st =
     (let st = dump_take w st
      in dump_loop stop nround (dump_local w) 0 (next_ptr (c_links st) (dump_local w)) st)"

section \<open>Classifying\<close>

definition all_of :: "u64 list ptr_map \<Rightarrow> u64 list" where
  "all_of m = concat (map snd m)"

lemma all_of_map_at: "mset (all_of (map_at [] (\<lambda>l. l @ [p]) k m)) = add_mset p (mset (all_of m))"
  by (induction "[] :: u64 list" "\<lambda>l. l @ [p]" k m rule: map_at.induct) (auto simp: all_of_def)

lemma fold_classify:
  "\<exists>L P. fold (classify w) xs st = st\<lparr>c_links := L, prep_map := P\<rparr> \<and>
     mset (all_of P) = mset (all_of (prep_map st)) + mset xs"
proof (induction xs arbitrary: st)
  case Nil
  show ?case by (intro exI [of _ "c_links st"] exI [of _ "prep_map st"]) simp
next
  case (Cons p xs)
  from Cons.IH [of "classify w p st"] obtain L P where
    "fold (classify w) xs (classify w p st) = (classify w p st)\<lparr>c_links := L, prep_map := P\<rparr>"
    "mset (all_of P) = mset (all_of (prep_map (classify w p st))) + mset xs" by blast
  then show ?case
    by (intro exI [of _ L] exI [of _ P]) (simp add: classify_def [of w p st] all_of_map_at)
qed

lemma classify_all_ring:
  assumes h: "ring (c_links st) (h # xs)" and t: "tmp_root w \<notin> set (h # xs)"
    and z: "\<And>zs. zs \<in> Z \<Longrightarrow> ring (c_links st) zs \<and> set zs \<inter> set (tmp_root w # h # xs) = {}"
  shows "\<exists>L P. classify_all w h st = Some (st\<lparr>c_links := L, prep_map := P\<rparr>) \<and>
    mset (all_of P) = mset (all_of (prep_map st)) + mset (h # xs) \<and> (\<forall>zs\<in>Z. ring L zs)"
proof -
  let ?s1 = "st\<lparr>c_links := LinkNode (tmp_root w) (c_links st)\<rparr>"
  let ?s2 = "?s1\<lparr>c_links := insert_before_as_list h (tmp_root w) (c_links ?s1)\<rparr>"
  have r1: "ring (c_links ?s1) (h # xs)" "ring (c_links ?s1) [tmp_root w]"
    using LinkNode_frame [OF h t] by (auto simp: LinkNode_ring)
  have r2: "ring (c_links ?s2) (tmp_root w # h # xs)"
    using ll.splice_join [OF r1(1,2)] t by simp
  have z2: "ring (c_links ?s2) zs" if "zs \<in> Z" for zs
    using ll.splice_frame [OF r1, of zs] LinkNode_frame [of "c_links st" zs "tmp_root w"] z [OF that] by auto
  have body: "\<And>p st. True \<Longrightarrow> True \<and> c_links (classify w p st) =
      (if False then c_links st else remove_from_list p (c_links st))"
    by (simp add: classify_def)
  have run: "classify_all w h st = Some (fold (classify w) (h # xs) ?s2)"
    using ll.scan(1) [of "\<lambda>_. True" "classify w" c_links "\<lambda>_. False", OF body TrueI r2]
    by (simp add: classify_all_def Let_def)
  have "ring (c_links (fold (classify w) (h # xs) ?s2)) zs" if "zs \<in> Z" for zs
    using ll.scan_frame [of "\<lambda>_. True" "classify w" c_links "\<lambda>_. False" ?s2 "tmp_root w" "[]" "h # xs" zs]
      body r2 z2 [OF that] z [OF that] by simp
  moreover obtain L P where "fold (classify w) (h # xs) ?s2 = ?s2\<lparr>c_links := L, prep_map := P\<rparr>"
    "mset (all_of P) = mset (all_of (prep_map ?s2)) + mset (h # xs)"
    using fold_classify [of w "h # xs" ?s2] by blast
  ultimately show ?thesis
    unfolding run by (intro exI [of _ L] exI [of _ P]) simp
qed

text \<open>The samples of a round are in the vectors, the list of kept samples is empty.\<close>

lemma take_in_rings:
  assumes h: "ring (c_links st) (h # xs)" and t: "tmp_root w \<notin> set (h # xs)"
    and z: "\<And>zs. zs \<in> Z \<Longrightarrow>
      ring (c_links st) zs \<and> set zs \<inter> set (tmp_root w # h # xs) = {} \<and> kept_root w \<notin> set zs"
  shows "\<exists>L P. take_in w (Some h) st = Some (st\<lparr>c_links := L, prep_map := P\<rparr>) \<and>
    mset (all_of P) = mset (h # xs) \<and> ring L [kept_root w] \<and> (\<forall>zs\<in>Z. ring L zs)"
proof -
  let ?s = "st\<lparr>prep_map := map (\<lambda>(k, _). (k, [])) (prep_map st)\<rparr>"
  have e: "all_of (prep_map ?s) = []" by (auto simp: all_of_def)
  have h': "ring (c_links ?s) (h # xs)" using h by simp
  have Z: "ring (c_links ?s) zs \<and> set zs \<inter> set (tmp_root w # h # xs) = {}" if "zs \<in> Z" for zs
    using z [OF that] by simp
  obtain L P where c: "classify_all w h ?s = Some (?s\<lparr>c_links := L, prep_map := P\<rparr>)"
    "mset (all_of P) = mset (h # xs)" "\<forall>zs\<in>Z. ring L zs"
    using classify_all_ring [where Z = Z, OF h' t Z] unfolding e mset.simps add_0_left by blast
  have "\<forall>zs\<in>Z. ring (LinkNode (kept_root w) L) zs" using c(3) z by (auto intro!: LinkNode_frame)
  then show ?thesis
    using c(1,2) by (intro exI [of _ "LinkNode (kept_root w) L"] exI [of _ P]) (simp add: take_in_def Let_def LinkNode_ring)
qed

section \<open>Counting and dropping\<close>

text \<open>
  What the samples of a round do to the counters and lists: with \<open>ys\<close> already kept and \<open>zs\<close> waiting
  for the dump thread, the first samples up to the limit are kept in order, the others dropped.
\<close>

lemma grab_ones:
  assumes "ring (c_links st) (kept_root w # ys)" and "\<And>zs. zs \<in> Z \<Longrightarrow>
      ring (c_links st) zs \<and> set zs \<inter> set (kept_root w # ys) = {} \<and> set zs \<inter> set ps = {}"
    and "distinct ps" and "set ps \<inter> set (kept_root w # ys) = {}"
    and "grab_count st = drop_count st + dump_count st + int n" and "int n < max_pending w"
    and "k = nat (max_pending w - 1 - int n)"
  shows "\<exists>L G. fold (grab_one w) ps st = st\<lparr>c_links := L, grab_count_map := G,
      grab_count := grab_count st + int (length ps),
      drop_count := drop_count st + int (length (drop k ps)), destroyed := destroyed st @ drop k ps\<rparr> \<and>
    ring L (kept_root w # ys @ take k ps) \<and> (\<forall>zs\<in>Z. ring L zs)"
  using assms
proof (induction ps arbitrary: st ys n k)
  case Nil
  then show ?case by (intro exI [of _ "c_links st"] exI [of _ "grab_count_map st"]) simp
next
  case (Cons p ps)
  define G1 where "G1 = grab_count_map (grab_one w p st)"
  have p: "p \<notin> set (kept_root w # ys)" using Cons.prems(4) by auto
  show ?case
  proof (cases "int n = max_pending w - 1")
    case True
    then have k: "k = 0" using Cons.prems(7) by simp
    let ?st = "st\<lparr>grab_count_map := G1, grab_count := grab_count st + 1, drop_count := drop_count st + 1,
        destroyed := destroyed st @ [p]\<rparr>"
    have one: "grab_one w p st = ?st"
      using True Cons.prems(5) by (simp add: grab_one_def G1_def Let_def)
    obtain L G where "fold (grab_one w) ps ?st = ?st\<lparr>c_links := L, grab_count_map := G,
        grab_count := grab_count ?st + int (length ps),
        drop_count := drop_count ?st + int (length (drop 0 ps)), destroyed := destroyed ?st @ drop 0 ps\<rparr>"
      "ring L (kept_root w # ys @ take 0 ps)" "\<forall>zs\<in>Z. ring L zs"
      using Cons.IH [of ?st ys n 0] Cons.prems True by auto
    then show ?thesis
      by (intro exI [of _ L] exI [of _ G]) (simp add: one k)
  next
    case False
    let ?L = "insert_before p (kept_root w) (c_links st)"
    let ?st = "st\<lparr>c_links := ?L, grab_count_map := G1, grab_count := grab_count st + 1\<rparr>"
    have one: "grab_one w p st = ?st"
      using False Cons.prems(5,6) by (simp add: grab_one_def G1_def Let_def)
    have "ring ?L (kept_root w # ys @ [p])"
      using insert_before_ring [OF Cons.prems(1) p] by simp
    moreover have "ring ?L zs \<and> set zs \<inter> set (kept_root w # ys @ [p]) = {} \<and> set zs \<inter> set ps = {}" if "zs \<in> Z" for zs
      using insert_before_frame [OF Cons.prems(1) p, of zs] Cons.prems(2) [OF that] by auto
    moreover have "k = Suc (nat (max_pending w - 1 - int (Suc n)))"
      using False Cons.prems(6,7) by simp
    moreover obtain j where "j = nat (max_pending w - 1 - int (Suc n))" by simp
    ultimately obtain L G where "fold (grab_one w) ps ?st = ?st\<lparr>c_links := L, grab_count_map := G,
        grab_count := grab_count ?st + int (length ps),
        drop_count := drop_count ?st + int (length (drop j ps)), destroyed := destroyed ?st @ drop j ps\<rparr>"
      "ring L (kept_root w # (ys @ [p]) @ take j ps)" "\<forall>zs\<in>Z. ring L zs" "k = Suc j"
      using Cons.IH [of ?st "ys @ [p]" "Suc n" j] Cons.prems False by auto
    then show ?thesis
      by (intro exI [of _ L] exI [of _ G]) (simp add: one)
  qed
qed

text \<open>The vectors in the order in which a round goes through them.\<close>

definition processed :: "surroundings \<Rightarrow> u64 list ptr_map \<Rightarrow> u64 list" where
  "processed w m = concat (map (bucket_list w) m)"

lemma fold_grab_bucket: "fold (grab_bucket w) m st = fold (grab_one w) (processed w m) st"
  by (induction m arbitrary: st) (simp_all add: processed_def grab_bucket_def)

definition permutes_vectors :: "surroundings \<Rightarrow> bool" where
  "permutes_vectors w \<longleftrightarrow> (\<forall>k l. mset (process w k l) = mset l)"

lemma mset_bucket_list: "permutes_vectors w \<Longrightarrow> mset (bucket_list w b) = mset (snd b)"
  by (cases b) (simp add: bucket_list_def permutes_vectors_def)

lemma mset_processed: "permutes_vectors w \<Longrightarrow> mset (processed w m) = mset (all_of m)"
  by (induction m) (simp_all add: processed_def all_of_def mset_bucket_list)

lemma hand_to_dumper_ring:
  assumes "ring (c_links st) (kept_root w # ys)" and "ring (c_links st) (dump_root w # zs)"
    and "set (kept_root w # ys) \<inter> set (dump_root w # zs) = {}"
    and "\<And>us. us \<in> Z \<Longrightarrow> ring (c_links st) us \<and> set us \<inter> (set (kept_root w # ys) \<union> set (dump_root w # zs)) = {}"
  shows "\<exists>L. hand_to_dumper w st = st\<lparr>c_links := L\<rparr> \<and> ring L (dump_root w # zs @ ys) \<and>
    (\<forall>us\<in>Z. ring L us)"
proof (cases ys)
  case Nil
  then have "next_ptr (c_links st) (kept_root w) = kept_root w"
    using assms(1) by (simp add: ring_singleton)
  then show ?thesis using assms(2,4) Nil by (intro exI [of _ "c_links st"]) (simp add: hand_to_dumper_def)
next
  case (Cons y ys')
  have "next_ptr (c_links st) (kept_root w) = y" using ring_next_hd [OF assms(1)] Cons by simp
  moreover have "y \<noteq> kept_root w" using ring_distinct [OF assms(1)] Cons by auto
  ultimately show ?thesis
    using ll.hand_over(1) [of "c_links st" "kept_root w" y ys' "dump_root w" zs]
      ll.hand_over_frame [of "c_links st" "kept_root w" y ys' "dump_root w" zs] assms Cons
    by (intro exI [of _ "insert_before_as_list (next_ptr (c_links st) (kept_root w)) (dump_root w)
          (remove_from_list (kept_root w) (c_links st))"])
       (simp add: hand_to_dumper_def Let_def)
qed

text \<open>The list heads are nodes of their own.\<close>

definition heads :: "surroundings \<Rightarrow> u64 set" where
  "heads w = {tmp_root w, kept_root w, dump_root w, dump_local w}"

definition heads_ok :: "surroundings \<Rightarrow> bool" where
  "heads_ok w \<longleftrightarrow> distinct [tmp_root w, kept_root w, dump_root w, dump_local w] \<and>
     permutes_vectors w \<and> 0 < max_pending w"

lemma grab_collect_ring:
  assumes w: "heads_ok w" and h: "ring (c_links st) (h # xs)" and d: "ring (c_links st) (dump_root w # pend)"
    and r0: "ring (c_links st) [dump_local w]"
    and dis: "set (h # xs) \<inter> set (dump_root w # pend) = {}" "heads w \<inter> (set (h # xs) \<union> set pend) = {}"
    and counts: "grab_count st = drop_count st + dump_count st + int (length pend)"
      "int (length pend) < max_pending w"
    and k: "k = nat (max_pending w - 1 - int (length pend))"
  shows "\<exists>L P G ps. grab_collect w (Some h) st = Some (st\<lparr>c_links := L, prep_map := P, grab_count_map := G,
      grab_count := grab_count st + int (length ps), drop_count := drop_count st + int (length (drop k ps)),
      destroyed := destroyed st @ drop k ps\<rparr>) \<and>
    mset ps = mset (h # xs) \<and> ring L (dump_root w # pend @ take k ps) \<and> ring L [dump_local w]"
proof -
  let ?Z = "{dump_root w # pend, [dump_local w]}"
  have hds: "tmp_root w \<notin> set (h # xs)" "dump_local w \<notin> set (h # xs)" "kept_root w \<notin> set (h # xs)"
    "set (dump_root w # pend) \<inter> {tmp_root w, kept_root w, dump_local w} = {}"
    "dump_local w \<noteq> kept_root w" "dump_local w \<noteq> tmp_root w"
    using w dis(2) by (auto simp: heads_ok_def heads_def)
  have Z: "ring (c_links st) zs \<and> set zs \<inter> set (tmp_root w # h # xs) = {} \<and> kept_root w \<notin> set zs"
    if "zs \<in> ?Z" for zs using that hds dis(1) d r0 by auto
  obtain L P where c: "take_in w (Some h) st = Some (st\<lparr>c_links := L, prep_map := P\<rparr>)"
    "mset (all_of P) = mset (h # xs)" "ring L [kept_root w]" "ring L (dump_root w # pend)" "ring L [dump_local w]"
    using take_in_rings [where Z = ?Z, OF h hds(1) Z] by auto
  define ps where "ps = processed w P"
  have ps: "mset ps = mset (h # xs)"
    using c(2) mset_processed [of w P] w by (simp add: ps_def heads_ok_def)
  then have set_ps: "set ps = set (h # xs)" by (metis set_mset_mset)
  have dps: "distinct ps" using ps ring_distinct [OF h] by (metis mset_eq_imp_distinct_iff)
  let ?s2 = "st\<lparr>c_links := L, prep_map := P\<rparr>"
  have r2: "ring (c_links ?s2) [kept_root w]" using c(3) by simp
  have sep: "set ps \<inter> set [kept_root w] = {}" using set_ps hds by auto
  have Z2: "ring (c_links ?s2) zs \<and> set zs \<inter> set [kept_root w] = {} \<and> set zs \<inter> set ps = {}" if "zs \<in> ?Z" for zs
    using that c(4,5) hds dis(1) set_ps by auto
  have cnt: "grab_count ?s2 = drop_count ?s2 + dump_count ?s2 + int (length pend)" using counts(1) by simp
  define s3 where "s3 = fold (grab_one w) ps ?s2"
  obtain L2 G where g: "s3 = ?s2\<lparr>c_links := L2, grab_count_map := G, grab_count := grab_count st + int (length ps),
      drop_count := drop_count st + int (length (drop k ps)), destroyed := destroyed st @ drop k ps\<rparr>"
    "ring L2 (kept_root w # take k ps)" "ring L2 (dump_root w # pend)" "ring L2 [dump_local w]"
    using grab_ones [where Z = ?Z, OF r2 Z2 dps sep cnt counts(2) k] unfolding s3_def by auto
  have r3: "ring (c_links s3) (kept_root w # take k ps)" "ring (c_links s3) (dump_root w # pend)" using g by simp_all
  have "set (take k ps) \<subseteq> set ps" by (rule set_take_subset)
  then have apart: "set (kept_root w # take k ps) \<inter> set (dump_root w # pend) = {}"
    "set [dump_local w] \<inter> (set (kept_root w # take k ps) \<union> set (dump_root w # pend)) = {}"
    using set_ps dis(1) hds by auto
  have "ring (c_links s3) us \<and> set us \<inter> (set (kept_root w # take k ps) \<union> set (dump_root w # pend)) = {}"
    if "us \<in> {[dump_local w]}" for us using that g(1,4) apart(2) by simp
  from hand_to_dumper_ring [where Z = "{[dump_local w]}", OF r3 apart(1) this] obtain L3 where
    "hand_to_dumper w s3 = s3\<lparr>c_links := L3\<rparr>" and L3: "ring L3 (dump_root w # pend @ take k ps)" "ring L3 [dump_local w]"
    by auto
  then have "grab_collect w (Some h) st = Some (s3\<lparr>c_links := L3\<rparr>)"
    using c(1) by (simp add: grab_collect_def fold_grab_bucket ps_def s3_def)
  then show ?thesis
    using ps L3 g(1) by (intro exI [of _ L3] exI [of _ P] exI [of _ G] exI [of _ ps]) simp
qed

section \<open>Dumping\<close>

text \<open>
  The loop with \<open>ks\<close> samples before \<open>stop_\<close> is seen: they are dumped in order, the others stay.
\<close>

lemma dump_loop_from:
  assumes "ring (c_links st) (r # xs)" and "k \<le> length xs" and "\<And>j. j < k \<Longrightarrow> \<not> stop (i + j)"
    and "k < length xs \<Longrightarrow> stop (i + k)"
    and "\<And>zs. zs \<in> Z \<Longrightarrow> ring (c_links st) zs \<and> set zs \<inter> set (r # xs) = {}"
  shows "\<exists>L. dump_loop stop n r i (hd (xs @ [r])) st = Some (st\<lparr>c_links := L,
      dumped := dumped st @ map (Pair n) (take k xs), dump_count := dump_count st + int k\<rparr>) \<and>
    ring L (r # drop k xs) \<and> (\<forall>zs\<in>Z. ring L zs)"
  using assms
proof (induction k arbitrary: xs i st Z)
  case 0
  have "stop i \<or> hd (xs @ [r]) = r" using 0(4) by (cases xs) auto
  then show ?case
    using 0 by (intro exI [of _ "c_links st"]) (auto simp: dump_loop.simps)
next
  case (Suc k)
  obtain p ps where xs: "xs = p # ps" using Suc.prems(2) by (cases xs) auto
  have "p \<noteq> r" using ring_distinct [OF Suc.prems(1)] by (auto simp: xs)
  moreover have "\<not> stop i" using Suc.prems(3) [of 0] by simp
  moreover have nxt: "next_ptr (c_links st) p = hd (ps @ [r])"
    using ring_next_middle [of "c_links st" "[r]" p ps] Suc.prems(1) by (cases ps) (simp_all add: xs)
  ultimately have unfold_loop: "dump_loop stop n r i p st =
      dump_loop stop n r (i + 1) (hd (ps @ [r])) (dump_one n p st)"
    by (subst dump_loop.simps) simp
  have rot: "ring (c_links st) (p # (ps @ [r]))"
    using ring_rotate1 [of "c_links st" r "p # ps"] Suc.prems(1) by (simp add: xs)
  then have "ring (c_links (dump_one n p st)) (ps @ [r])"
    using remove_from_list_ring [OF rot] by (simp add: dump_one_def)
  then have r': "ring (c_links (dump_one n p st)) (r # ps)"
    using ring_append_commute [of _ ps "[r]"] by simp
  have Z': "ring (c_links (dump_one n p st)) zs \<and> set zs \<inter> set (r # ps) = {}" if "zs \<in> Z" for zs
    using Suc.prems(5) [OF that] remove_from_list_frame [OF rot, of zs] by (auto simp: dump_one_def xs)
  have "\<exists>L. dump_loop stop n r (i + 1) (hd (ps @ [r])) (dump_one n p st) = Some ((dump_one n p st)\<lparr>c_links := L,
      dumped := dumped (dump_one n p st) @ map (Pair n) (take k ps),
      dump_count := dump_count (dump_one n p st) + int k\<rparr>) \<and>
    ring L (r # drop k ps) \<and> (\<forall>zs\<in>Z. ring L zs)"
  proof (rule Suc.IH [OF r'])
    show "\<not> stop (i + 1 + j)" if "j < k" for j using Suc.prems(3) [of "Suc j"] that by simp
    show "stop (i + 1 + k)" if "k < length ps" using Suc.prems(4) that by (simp add: xs)
  qed (use Suc.prems(2) Z' in \<open>auto simp: xs\<close>)
  then obtain L where "dump_loop stop n r (i + 1) (hd (ps @ [r])) (dump_one n p st) =
      Some ((dump_one n p st)\<lparr>c_links := L, dumped := dumped (dump_one n p st) @ map (Pair n) (take k ps),
      dump_count := dump_count (dump_one n p st) + int k\<rparr>)"
    "ring L (r # drop k ps)" "\<forall>zs\<in>Z. ring L zs" by blast
  then show ?case
    by (intro exI [of _ L]) (simp add: xs unfold_loop dump_one_def add.assoc)
qed

lemma dump_take_rings:
  assumes "ring (c_links st) (dump_root w # x # xs)" and "ring (c_links st) [dump_local w]"
    and "dump_local w \<notin> set (dump_root w # x # xs)"
    and zs: "\<And>zs. zs \<in> Z \<Longrightarrow> ring (c_links st) zs \<and> set zs \<inter> set (dump_local w # dump_root w # x # xs) = {}"
  shows "\<exists>L. dump_take w st = st\<lparr>c_links := L\<rparr> \<and> ring L [dump_root w] \<and> ring L (dump_local w # x # xs) \<and>
    next_ptr L (dump_local w) = x \<and> (\<forall>zs\<in>Z. ring L zs)"
proof -
  have n: "next_ptr (c_links st) (dump_root w) = x" using ring_next_hd [OF assms(1)] by simp
  let ?L = "insert_before_as_list x (dump_local w) (remove_from_list (dump_root w) (c_links st))"
  have dis: "set (dump_root w # x # xs) \<inter> set [dump_local w] = {}" using assms(3) by auto
  from ll.hand_over [OF assms(1,2) this, unfolded n]
  have r: "ring ?L (dump_local w # x # xs)" "ring ?L [dump_root w]" by simp_all
  have rz: "ring ?L zs" if "zs \<in> Z" for zs
    using ll.hand_over_frame [OF assms(1,2) _ dis, of zs] zs [OF that] by (auto simp: n)
  have "next_ptr ?L (dump_local w) = x" using ring_next_hd [OF r(1)] by simp
  then show ?thesis using r rz by (intro exI [of _ ?L]) (simp add: dump_take_def n Let_def)
qed

lemma dump_round_rings:
  assumes "ring (c_links st) (dump_root w # x # xs)" and "ring (c_links st) [dump_local w]"
    and "dump_local w \<notin> set (dump_root w # x # xs)"
    and "k \<le> length (x # xs)" and "\<And>j. j < k \<Longrightarrow> \<not> stop j" and "k < length (x # xs) \<Longrightarrow> stop k"
    and zs: "\<And>zs. zs \<in> Z \<Longrightarrow> ring (c_links st) zs \<and> set zs \<inter> set (dump_local w # dump_root w # x # xs) = {}"
  shows "\<exists>L. dump_round w stop n st = Some (st\<lparr>c_links := L,
      dumped := dumped st @ map (Pair n) (take k (x # xs)), dump_count := dump_count st + int k\<rparr>) \<and>
    ring L [dump_root w] \<and> ring L (dump_local w # drop k (x # xs)) \<and> (\<forall>zs\<in>Z. ring L zs)"
proof -
  obtain L where t: "dump_take w st = st\<lparr>c_links := L\<rparr>" and r: "ring L [dump_root w]" "ring L (dump_local w # x # xs)"
    and n: "next_ptr L (dump_local w) = x" and rz: "\<forall>zs\<in>Z. ring L zs"
    using dump_take_rings [OF assms(1-3) zs] by blast
  let ?st = "st\<lparr>c_links := L\<rparr>"
  have run: "dump_round w stop n st = dump_loop stop n (dump_local w) 0 (hd ((x # xs) @ [dump_local w])) ?st"
    by (simp add: dump_round_def t n Let_def)
  have "dump_root w \<notin> set (dump_local w # x # xs)"
    using ring_distinct [OF assms(1)] assms(3) by auto
  then have Z: "\<And>zs. zs \<in> insert [dump_root w] Z \<Longrightarrow> ring (c_links ?st) zs \<and> set zs \<inter> set (dump_local w # x # xs) = {}"
    using r(1) rz zs by auto
  have r2: "ring (c_links ?st) (dump_local w # x # xs)" using r(2) by simp
  from dump_loop_from [where stop = stop and i = 0 and n = n and Z = "insert [dump_root w] Z", OF r2 assms(4) _ _ Z] assms(5,6)
  show ?thesis unfolding run by auto
qed

lemma dump_round_ring:
  assumes "ring (c_links st) (dump_root w # x # xs)" and "ring (c_links st) [dump_local w]"
    and "dump_local w \<notin> set (dump_root w # x # xs)"
    and "k \<le> length (x # xs)" and "\<And>j. j < k \<Longrightarrow> \<not> stop j" and "k < length (x # xs) \<Longrightarrow> stop k"
  shows "\<exists>L. dump_round w stop n st = Some (st\<lparr>c_links := L,
      dumped := dumped st @ map (Pair n) (take k (x # xs)), dump_count := dump_count st + int k\<rparr>) \<and>
    ring L [dump_root w] \<and> ring L (dump_local w # drop k (x # xs))"
  using dump_round_rings [where Z = "{}" and stop = stop, OF assms(1-4)] assms(5,6) by blast

section \<open>The initial state, and what the rest of a round changes\<close>

definition collector_init :: "int \<Rightarrow> u64 links \<Rightarrow> (u64 \<Rightarrow> CollectorSpeedLimit) \<Rightarrow> collector" where
  "collector_init now l sls =
     \<lparr>c_links = l, last_active_cpuwide_us = now, last_before_update_sl = now, stop_flag = False,
      grab_count = 0, drop_count = 0, dump_count = 0, last_grab_count_map = [], grab_count_map = [],
      prep_map = [], speed_limits = sls, destroyed = [], dumped = [], grab_pos = Grab_start, dump_pos = Dump_start 0\<rparr>"

lemma update_speed_limits_frame:
  assumes "update_speed_limits expected wall now st = Some st'"
  shows "\<exists>sls m. st' = st\<lparr>last_before_update_sl := now, speed_limits := sls, last_grab_count_map := m\<rparr>"
proof -
  have "\<exists>sls m. st2 = st1\<lparr>speed_limits := sls, last_grab_count_map := m\<rparr>"
    if "foldM (update_one expected wall interval) es st1 = Some st2" for interval es and st1 st2 :: collector
    using that
  proof (induction es arbitrary: st1)
    case Nil
    then show ?case
      by (intro exI [of _ "speed_limits st1"] exI [of _ "last_grab_count_map st1"]) simp
  next
    case (Cons e es)
    then obtain stm where m: "update_one expected wall interval e st1 = Some stm"
      "foldM (update_one expected wall interval) es stm = Some st2"
      by (auto split: Option.bind_splits)
    obtain sls mp where "stm = st1\<lparr>speed_limits := sls, last_grab_count_map := mp\<rparr>"
      using m(1) by (auto simp: update_one_def split: prod.splits Option.bind_splits)
    with Cons.IH [OF m(2)] show ?case by auto
  qed
  with assms show ?thesis
    by (fastforce simp: update_speed_limits_def Let_def split: Option.bind_splits)
qed

lemma grab_sleep_frame:
  "grab_sleep abstime now2 realtime now3 st = Some (st', deadline) \<Longrightarrow> st' = st\<lparr>last_active_cpuwide_us := now3\<rparr>"
  by (auto simp: grab_sleep_def grab_doze_def Let_def split: Option.bind_splits if_splits)

section \<open>Properties\<close>

definition example_surroundings :: surroundings where
  "example_surroundings = \<lparr>preprocessor = (\<lambda>_. 0), process = (\<lambda>_ l. l), speed_limit = (\<lambda>_. 7000),
     g_null_speed_limit = 6000, max_pending = 3, tmp_root = 1, kept_root = 2, dump_root = 3, dump_local = 4\<rparr>"

definition example_links :: "u64 links" where
  "example_links = insert_before 12 10 (insert_before 11 10 (LinkNode 10 (LinkNode 3 (LinkNode 4
     \<lparr>prev_ptr = (\<lambda>_. 0), next_ptr = (\<lambda>_. 0)\<rparr>))))"

lemma example_heads_ok: "heads_ok example_surroundings"
  by (simp add: heads_ok_def example_surroundings_def permutes_vectors_def)

lemma example_rings:
  "ring example_links [10, 11, 12]" "ring example_links [3]" "ring example_links [4]"
  by (simp_all add: example_links_def ring_def link_op_defs)



text \<open>
  A dump round returns and dumps, in order and with the number of the round, all the samples
  that were waiting, or, when the collector is being stopped, those before the point where it is
  noticed; it leaves the list of the grab thread empty, counts what it dumped, and the samples it
  did not dump are still linked to its own list head.
\<close>

theorem dump_round_dumps_in_order:
  assumes "ring (c_links st) (dump_root w # x # xs)" and "ring (c_links st) [dump_local w]"
    and "dump_local w \<notin> set (dump_root w # x # xs)"
    and "k \<le> length (x # xs)" and "\<forall>j<k. \<not> stop j" and "k < length (x # xs) \<longrightarrow> stop k"
  shows "\<exists>st'. dump_round w stop n st = Some st' \<and> dumped st' = dumped st @ map (Pair n) (take k (x # xs)) \<and>
    dump_count st' = dump_count st + int k \<and>
    ring (c_links st') [dump_root w] \<and> ring (c_links st') (dump_local w # drop k (x # xs))"
proof -
  obtain L where "dump_round w stop n st = Some (st\<lparr>c_links := L,
      dumped := dumped st @ map (Pair n) (take k (x # xs)), dump_count := dump_count st + int k\<rparr>)"
    "ring L [dump_root w]" "ring L (dump_local w # drop k (x # xs))"
    using dump_round_ring [OF assms(1-4), of stop n] assms(5,6) by blast
  then show ?thesis by (intro exI conjI) auto
qed

theorem dump_round_dumps_in_order_witness:
  "\<exists>st'. dump_round example_surroundings (\<lambda>i. i = 2) 5 (collector_init 0
      (insert_before 13 3 (insert_before 11 3 (insert_before 12 3 example_links)))
      (\<lambda>_. CollectorSpeedLimit_init)) = Some st' \<and> dumped st' = [(5, 12), (5, 11)] \<and>
    ring (c_links st') [4, 13]"
proof -
  let ?l = "insert_before 13 3 (insert_before 11 3 (insert_before 12 3 example_links))"
  have w: "dump_root example_surroundings = 3" "dump_local example_surroundings = 4"
    by (simp_all add: example_surroundings_def)
  let ?st = "collector_init 0 ?l (\<lambda>_. CollectorSpeedLimit_init)"
  have "ring ?l [3, 12, 11, 13]" "ring ?l [4]"
    by (simp_all add: example_links_def ring_def link_op_defs)
  then have r: "ring (c_links ?st) (dump_root example_surroundings # 12 # [11, 13])"
    "ring (c_links ?st) [dump_local example_surroundings]"
    "dump_local example_surroundings \<notin> set (dump_root example_surroundings # 12 # [11, 13])"
    unfolding w by (simp_all add: collector_init_def)
  have k: "2 \<le> length (12 # [11, 13 :: u64])" "\<forall>j<2. \<not> (j :: nat) = 2"
    "2 < length (12 # [11, 13 :: u64]) \<longrightarrow> (2 :: nat) = 2" by simp_all
  have "dumped ?st = []" by (simp add: collector_init_def)
  with dump_round_dumps_in_order [OF r k, of 5] show ?thesis unfolding w by auto
qed

text \<open>
  C35. Submitted samples are combined by concatenation. \<open>CombineCollected\<close> of two lists yields one
  ring with all nodes of the first, then all nodes of the second, headed by the first; with a
  null list it yields the other one unchanged. A sample is submitted exactly when its time lies
  before two grab intervals after the last activity of the grab thread.
\<close>

theorem combine_collected_concatenates:
  "(ring s (a # xs) \<and> ring s (b # ys) \<and> set (a # xs) \<inter> set (b # ys) = {} \<longrightarrow>
     (\<exists>s'. CombineCollected (Some a) (Some b) s = (Some a, s') \<and> ring s' (a # xs @ b # ys))) \<and>
   CombineCollected p None s = (p, s) \<and> CombineCollected None p s = (p, s) \<and>
   (0 \<le> last_active_cpuwide_us d \<and> last_active_cpuwide_us d < 2 ^ 62 \<longrightarrow>
     submit_accepted cpu_us d = Some (int (unat cpu_us) < last_active_cpuwide_us d + 200000))"
proof (intro conjI impI)
  assume "ring s (a # xs) \<and> ring s (b # ys) \<and> set (a # xs) \<inter> set (b # ys) = {}"
  then have "ring (insert_before_as_list a b s) ((b # ys) @ (a # xs))"
    using ll.splice_join [of s a xs b ys] by simp
  then have "ring (insert_before_as_list a b s) (a # xs @ b # ys)"
    using ring_append_commute by fastforce
  then show "\<exists>s'. CombineCollected (Some a) (Some b) s = (Some a, s') \<and> ring s' (a # xs @ b # ys)"
    by (simp add: CombineCollected_def)
next
  let ?t = "last_active_cpuwide_us d + 200000"
  assume b: "0 \<le> last_active_cpuwide_us d \<and> last_active_cpuwide_us d < 2 ^ 62"
  then have "nat ?t < 2 ^ LENGTH(64)" by (simp add: nat_less_iff)
  from unat_less_of_nat_bound [OF this] have "unat (of_int ?t :: u64) = nat ?t" using b by simp
  moreover have "long_range ?t" using b by (auto simp: long_range_def)
  ultimately show "submit_accepted cpu_us d = Some (int (unat cpu_us) < ?t)"
    using b by (simp add: submit_accepted_def COLLECTOR_GRAB_INTERVAL_US_def word_less_nat_alt zless_nat_eq_int_zless
        del: of_int_add)
qed (auto simp: CombineCollected_def split: option.splits)

theorem combine_collected_concatenates_witness:
  "\<exists>s'. CombineCollected (Some 10) (Some 3) example_links = (Some 10, s') \<and> ring s' [10, 11, 12, 3]"
  using combine_collected_concatenates [of example_links 10 "[11, 12]" 3 "[]"] example_rings by auto

end
