(* ===== verification/Thread_Exit.thy ===== *)
theory Thread_Exit
  imports Prelude
begin

text \<open>
  \<^verbatim>\<open>src/common/thread_local.cpp\<close> and \<^verbatim>\<open>src/common/thread_local_inl.h\<close>: the functions a thread
  runs when it exits. The value of the thread-specific key is \<open>None\<close> while it is null.
  Functions and arguments are addresses; a call is recorded, in order.
\<close>

section \<open>The helper of a thread\<close>

type_synonym exit_call = "u64 \<times> u64"

record thread_exit =
  helper :: "exit_call list option"
  exit_errno :: int

definition EINVAL :: int where "EINVAL = 22"
definition ENOMEM :: int where "ENOMEM = 12"

text \<open>\<open>ThreadExitHelper::~ThreadExitHelper\<close>: the last registered function first.\<close>

fun run_all :: "exit_call list \<Rightarrow> exit_call list \<Rightarrow> exit_call list" where
  "run_all fns calls =
     (if fns = [] then calls
      else run_all (butlast fns) (calls @ [last fns]))"

declare run_all.simps [simp del]

text \<open>\<open>ThreadExitHelper::add\<close>; \<open>memory\<close> says whether the vector could grow.\<close>

definition helper_add :: "bool \<Rightarrow> u64 \<Rightarrow> u64 \<Rightarrow> exit_call list \<Rightarrow> exit_call list \<times> int" where
  "helper_add memory fn arg fns = (if memory then (fns @ [(fn, arg)], 0) else (fns, -1))"

text \<open>\<open>ThreadExitHelper::remove\<close>: the first occurrence and the equal pairs directly after it.\<close>

definition helper_remove :: "u64 \<Rightarrow> u64 \<Rightarrow> exit_call list \<Rightarrow> exit_call list" where
  "helper_remove fn arg fns =
     takeWhile (\<lambda>p. p \<noteq> (fn, arg)) fns @
     dropWhile (\<lambda>p. p = (fn, arg)) (dropWhile (\<lambda>p. p \<noteq> (fn, arg)) fns)"

section \<open>The interface\<close>

definition get_or_new_thread_exit_helper :: "thread_exit \<Rightarrow> exit_call list" where
  "get_or_new_thread_exit_helper s = (case helper s of Some h \<Rightarrow> h | None \<Rightarrow> [])"

definition thread_atexit :: "bool \<Rightarrow> u64 \<Rightarrow> u64 \<Rightarrow> thread_exit \<Rightarrow> thread_exit \<times> int" where
  "thread_atexit memory fn arg s =
     (if fn = 0 then (s\<lparr>exit_errno := EINVAL\<rparr>, -1)
      else case helper_add memory fn arg (get_or_new_thread_exit_helper s) of (fns, r) \<Rightarrow>
        let s = s\<lparr>helper := Some fns\<rparr>
        in (if r = 0 then s else s\<lparr>exit_errno := ENOMEM\<rparr>, r))"

definition thread_atexit_cancel :: "u64 \<Rightarrow> u64 \<Rightarrow> thread_exit \<Rightarrow> thread_exit" where
  "thread_atexit_cancel fn arg s =
     (if fn \<noteq> 0 then (case helper s of
          Some h \<Rightarrow> s\<lparr>helper := Some (helper_remove fn arg h)\<rparr>
        | None \<Rightarrow> s)
      else s)"

text \<open>
  The variants for a function without argument pass it as the argument of \<open>call_single_arg_fn\<close>,
  whose address is \<open>call_single\<close>.
\<close>

definition thread_atexit_void :: "u64 \<Rightarrow> bool \<Rightarrow> u64 \<Rightarrow> thread_exit \<Rightarrow> thread_exit \<times> int" where
  "thread_atexit_void call_single memory fn s =
     (if fn = 0 then (s\<lparr>exit_errno := EINVAL\<rparr>, -1) else thread_atexit memory call_single fn s)"

definition thread_atexit_cancel_void :: "u64 \<Rightarrow> u64 \<Rightarrow> thread_exit \<Rightarrow> thread_exit" where
  "thread_atexit_cancel_void call_single fn s =
     (if fn \<noteq> 0 then thread_atexit_cancel call_single fn s else s)"

text \<open>The exit of the thread (or of the process), when the key is reset before the helper is deleted.\<close>

definition helper_exit :: "thread_exit \<Rightarrow> thread_exit \<times> exit_call list" where
  "helper_exit s = (case helper s of
       Some h \<Rightarrow> (s\<lparr>helper := None\<rparr>, run_all h [])
     | None \<Rightarrow> (s, []))"

text \<open>\<open>ThreadLocalHelper<T>::get\<close>: \<open>fresh\<close> is the address of a new object, \<open>deleter\<close> of \<open>delete_object<T>\<close>.\<close>

definition get_thread_local :: "bool \<Rightarrow> u64 \<Rightarrow> u64 \<Rightarrow> u64 \<Rightarrow> thread_exit \<Rightarrow> u64 \<times> thread_exit" where
  "get_thread_local memory deleter fresh value s =
     (if value \<noteq> 0 then (value, s) else (fresh, fst (thread_atexit memory deleter fresh s)))"

section \<open>What is run\<close>

lemma run_all_rev: "run_all fns calls = calls @ rev fns"
proof (induction fns calls rule: run_all.induct)
  case (1 fns calls)
  show ?case
  proof (cases "fns = []")
    case False
    have "run_all fns calls = run_all (butlast fns) (calls @ [last fns])"
      using False by (subst run_all.simps) simp
    also have "\<dots> = (calls @ [last fns]) @ rev (butlast fns)" using 1 False by simp
    also have "\<dots> = calls @ rev (butlast fns @ [last fns])" by (simp only: rev_append rev.simps append.simps append.assoc)
    also have "\<dots> = calls @ rev fns" using False by (simp only: append_butlast_last_id not_False_eq_True)
    finally show ?thesis using False by (simp add: append_butlast_last_id)
  qed (simp add: run_all.simps)
qed

lemma helper_remove_split:
  assumes "p \<notin> set xs" and "ys = [] \<or> hd ys \<noteq> p"
  shows "helper_remove (fst p) (snd p) (xs @ replicate k p @ ys) = xs @ ys \<or> k = 0"
proof (cases k)
  case (Suc j)
  have "takeWhile (\<lambda>q. q \<noteq> p) (xs @ replicate k p @ ys) = xs"
    "dropWhile (\<lambda>q. q \<noteq> p) (xs @ replicate k p @ ys) = replicate k p @ ys"
    using assms(1) by (auto simp: Suc takeWhile_append dropWhile_append)
  moreover have "dropWhile (\<lambda>q. q = p) (replicate k p @ ys) = ys"
    using assms(2) by (induction k) (auto simp: dropWhile_eq_self_iff)
  ultimately show ?thesis by (simp add: helper_remove_def)
qed simp

definition register_all :: "exit_call list \<Rightarrow> thread_exit \<Rightarrow> thread_exit" where
  "register_all ps s = fold (\<lambda>(fn, arg) s. fst (thread_atexit True fn arg s)) ps s"

lemma register_all_helper:
  "\<forall>p\<in>set ps. fst p \<noteq> 0 \<Longrightarrow>
   get_or_new_thread_exit_helper (register_all ps s) = get_or_new_thread_exit_helper s @ ps \<and>
   (helper (register_all ps s) = None \<longleftrightarrow> helper s = None \<and> ps = [])"
proof (induction ps arbitrary: s)
  case (Cons p ps)
  obtain fn arg where p: "p = (fn, arg)" by (cases p)
  let ?s = "fst (thread_atexit True fn arg s)"
  have "helper ?s = Some (get_or_new_thread_exit_helper s @ [p])"
    using Cons.prems by (simp add: thread_atexit_def helper_add_def p Let_def)
  then show ?case
    using Cons.IH [of ?s] Cons.prems
    by (simp add: register_all_def p get_or_new_thread_exit_helper_def)
qed (simp add: register_all_def)

section \<open>Exit functions that use the interface\<close>

text \<open>
  The helper is detached from the thread before it is deleted, so what an exit function does with
  \<open>thread_atexit\<close> and \<open>thread_atexit_cancel\<close> (\<open>act\<close>) goes to a new helper, while the loop of the
  destructor goes on with the detached one.
\<close>

fun run_helper ::
  "(exit_call \<Rightarrow> thread_exit \<Rightarrow> thread_exit) \<Rightarrow> exit_call list \<Rightarrow> thread_exit \<Rightarrow> exit_call list \<Rightarrow>
     thread_exit \<times> exit_call list" where
  "run_helper act fns s calls =
     (if fns = [] then (s, calls)
      else run_helper act (butlast fns) (act (last fns) s) (calls @ [last fns]))"

declare run_helper.simps [simp del]

text \<open>At the end of the process, for the thread that calls \<open>exit\<close>.\<close>

definition helper_exit_global ::
  "(exit_call \<Rightarrow> thread_exit \<Rightarrow> thread_exit) \<Rightarrow> thread_exit \<Rightarrow> thread_exit \<times> exit_call list" where
  "helper_exit_global act s = (case helper s of
       Some h \<Rightarrow> run_helper act h (s\<lparr>helper := None\<rparr>) []
     | None \<Rightarrow> (s, []))"

text \<open>
  At the end of a thread: the destructor of the key runs as long as the thread has a helper again, at
  most \<open>n\<close> times (\<^verbatim>\<open>PTHREAD_DESTRUCTOR_ITERATIONS\<close>).
\<close>

fun delete_thread_exit_helpers ::
  "nat \<Rightarrow> (exit_call \<Rightarrow> thread_exit \<Rightarrow> thread_exit) \<Rightarrow> thread_exit \<Rightarrow> exit_call list \<Rightarrow> thread_exit \<times> exit_call list" where
  "delete_thread_exit_helpers 0 act s calls = (s, calls)"
| "delete_thread_exit_helpers (Suc n) act s calls = (case helper s of
       Some h \<Rightarrow> (case run_helper act h (s\<lparr>helper := None\<rparr>) calls of (s, calls) \<Rightarrow> delete_thread_exit_helpers n act s calls)
     | None \<Rightarrow> (s, calls))"

text \<open>\<open>make_thread_atexit_key\<close>: \<open>None\<close> if the key cannot be created and the process is aborted.\<close>

definition make_thread_atexit_key :: "int \<Rightarrow> thread_exit option" where
  "make_thread_atexit_key created = (if created \<noteq> 0 then None else Some \<lparr>helper = None, exit_errno = 0\<rparr>)"

definition get_thread_exit_helper :: "thread_exit \<Rightarrow> exit_call list option" where
  "get_thread_exit_helper s = helper s"

lemma run_helper_calls: "snd (run_helper act fns s calls) = calls @ rev fns"
proof (induction fns arbitrary: s calls rule: rev_induct)
  case (snoc p fns)
  then show ?case by (subst run_helper.simps) simp
qed (simp add: run_helper.simps)

text \<open>Functions that register others: \<open>regs p\<close> is what \<open>p\<close> registers. They are run level by level.\<close>

definition registering :: "(exit_call \<Rightarrow> exit_call list) \<Rightarrow> exit_call \<Rightarrow> thread_exit \<Rightarrow> thread_exit" where
  "registering regs p s = register_all (regs p) s"

fun level :: "(exit_call \<Rightarrow> exit_call list) \<Rightarrow> exit_call list \<Rightarrow> nat \<Rightarrow> exit_call list" where
  "level regs fns 0 = rev fns"
| "level regs fns (Suc k) = rev (concat (map regs (level regs fns k)))"

lemma level_shift: "level regs fns (Suc k) = level regs (concat (map regs (rev fns))) k"
  by (induction k) simp_all

lemma level_none: "level regs [] k = []"
  by (induction k) simp_all

lemma run_helper_registers:
  assumes "\<forall>p. \<forall>q \<in> set (regs p). fst q \<noteq> 0"
  shows "get_or_new_thread_exit_helper (fst (run_helper (registering regs) fns s calls)) =
    get_or_new_thread_exit_helper s @ concat (map regs (rev fns))"
proof (induction fns arbitrary: s calls rule: rev_induct)
  case (snoc p fns)
  have "get_or_new_thread_exit_helper (registering regs p s) = get_or_new_thread_exit_helper s @ regs p"
    using register_all_helper [of "regs p" s] assms by (simp add: registering_def)
  then show ?case using snoc.IH by (subst run_helper.simps) simp
qed (simp add: run_helper.simps)

lemma nested_levels:
  assumes "\<forall>p. \<forall>q \<in> set (regs p). fst q \<noteq> 0"
  shows "snd (delete_thread_exit_helpers n (registering regs) s calls) =
      calls @ concat (map (level regs (get_or_new_thread_exit_helper s)) [0..<n]) \<and>
    get_or_new_thread_exit_helper (fst (delete_thread_exit_helpers n (registering regs) s calls)) =
      rev (level regs (get_or_new_thread_exit_helper s) n)"
proof (induction n arbitrary: s calls)
  case (Suc n)
  show ?case
  proof (cases "helper s")
    case None
    then show ?thesis by (simp add: get_or_new_thread_exit_helper_def level_none)
  next
    case (Some h)
    obtain s1 c1 where r: "run_helper (registering regs) h (s\<lparr>helper := None\<rparr>) calls = (s1, c1)" by (metis prod.exhaust)
    have h: "get_or_new_thread_exit_helper s = h" "get_or_new_thread_exit_helper (s\<lparr>helper := None\<rparr>) = []"
      by (simp_all add: get_or_new_thread_exit_helper_def Some)
    have s1: "get_or_new_thread_exit_helper s1 = concat (map regs (rev h))" "c1 = calls @ rev h"
      using run_helper_registers [OF assms, of h "s\<lparr>helper := None\<rparr>" calls]
        run_helper_calls [of "registering regs" h "s\<lparr>helper := None\<rparr>" calls] by (simp_all add: r h)
    have "map (level regs h) [0..<Suc n] = level regs h 0 # map (\<lambda>k. level regs h (Suc k)) [0..<n]"
      by (simp only: upt_conv_Cons zero_less_Suc list.map map_Suc_upt [symmetric] map_map o_def)
    also have "\<dots> = rev h # map (level regs (concat (map regs (rev h)))) [0..<n]"
      by (simp only: level_shift level.simps(1))
    finally show ?thesis using Suc.IH [of s1 c1] Some
      by (simp only: delete_thread_exit_helpers.simps option.case r prod.case h(1) s1 level_shift concat.simps append_assoc simp_thms)
  qed
qed (simp add: get_or_new_thread_exit_helper_def)

section \<open>Properties\<close>

text \<open>
  C39. Exit functions run last in, first out, each registration once. For a thread that registers
  non-null functions and then exits, the calls are the registrations in reverse; cancelling
  before the exit takes out exactly the first registration of the pair and the equal ones
  directly behind it, keeping the order of all others; and after the exit nothing is left to run.
\<close>

theorem exit_functions_run_lifo:
  assumes "\<forall>p\<in>set (xs @ ys). fst p \<noteq> 0" and "fst p \<noteq> 0" and "p \<notin> set xs" and "ys = [] \<or> hd ys \<noteq> p"
    and "helper s = None"
  shows "snd (helper_exit (register_all (xs @ ys) s)) = rev (xs @ ys) \<and>
    snd (helper_exit (thread_atexit_cancel (fst p) (snd p)
      (register_all (xs @ replicate (Suc k) p @ ys) s))) = rev (xs @ ys) \<and>
    helper (fst (helper_exit (register_all (xs @ ys) s))) = None"
proof -
  have h0: "get_or_new_thread_exit_helper s = []" using assms(5) by (simp add: get_or_new_thread_exit_helper_def)
  have exits: "snd (helper_exit t) = rev (get_or_new_thread_exit_helper t)" for t
    by (simp add: helper_exit_def get_or_new_thread_exit_helper_def run_all_rev split: option.splits)
  let ?t = "register_all (xs @ replicate (Suc k) p @ ys) s"
  have "\<forall>q\<in>set (xs @ replicate (Suc k) p @ ys). fst q \<noteq> 0" using assms(1,2) by auto
  from register_all_helper [OF this, of s] h0
  have t: "helper ?t = Some (xs @ replicate (Suc k) p @ ys)"
    by (auto simp: get_or_new_thread_exit_helper_def split: option.splits)
  have "helper_remove (fst p) (snd p) (xs @ replicate (Suc k) p @ ys) = xs @ ys"
    using helper_remove_split [OF assms(3,4), of "Suc k"] by simp
  then have "get_or_new_thread_exit_helper (thread_atexit_cancel (fst p) (snd p) ?t) = xs @ ys"
    using assms(2) t by (simp add: thread_atexit_cancel_def get_or_new_thread_exit_helper_def del: replicate_Suc)
  moreover have "get_or_new_thread_exit_helper (register_all (xs @ ys) s) = xs @ ys"
    using register_all_helper [OF assms(1), of s] h0 by simp
  ultimately show ?thesis
    by (simp add: exits) (simp add: helper_exit_def split: option.splits)
qed

theorem exit_functions_run_lifo_witness:
  "snd (helper_exit (thread_atexit_cancel 5 50 (register_all [(4, 40), (5, 50), (5, 50), (6, 60), (5, 50)]
      \<lparr>helper = None, exit_errno = 0\<rparr>))) = [(5, 50), (6, 60), (4, 40)]"
  using exit_functions_run_lifo [of "[(4, 40)]" "[(6, 60), (5, 50)]" "(5, 50)" "\<lparr>helper = None, exit_errno = 0\<rparr>" 1]
  by simp

text \<open>
  C38. What exit functions do while they run. Whatever they register or cancel, the functions registered
  before the exit are all run, last first: cancelling one of them has no effect any more. Functions
  registered by exit functions are run level by level when a thread ends, up to the number of rounds
  the system grants (\<open>n\<close>), and those of the last level are never run; at the end of the process
  already those of the first level are never run.
\<close>

theorem nested_exit_functions:
  assumes "\<forall>p. \<forall>q \<in> set (regs p). fst q \<noteq> 0" and "helper s = Some fns"
  shows "snd (helper_exit_global act s) = rev fns \<and>
    snd (delete_thread_exit_helpers 1 act s []) = rev fns \<and>
    get_or_new_thread_exit_helper (fst (helper_exit_global (registering regs) s)) = concat (map regs (rev fns)) \<and>
    snd (delete_thread_exit_helpers n (registering regs) s []) = concat (map (level regs fns) [0..<n]) \<and>
    get_or_new_thread_exit_helper (fst (delete_thread_exit_helpers n (registering regs) s [])) = rev (level regs fns n)"
proof -
  have h: "get_or_new_thread_exit_helper s = fns" "get_or_new_thread_exit_helper (s\<lparr>helper := None\<rparr>) = []"
    using assms(2) by (simp_all add: get_or_new_thread_exit_helper_def)
  show ?thesis
    using nested_levels [OF assms(1), of n s "[]"] run_helper_registers [OF assms(1), of fns "s\<lparr>helper := None\<rparr>" "[]"]
    by (simp add: helper_exit_global_def assms(2) run_helper_calls h split: prod.split) (metis run_helper_calls snd_conv append_Nil)
qed

theorem nested_exit_functions_witness:
  "snd (delete_thread_exit_helpers 2 (registering (\<lambda>p. if p = (4, 40) then [(5, 50), (6, 60)] else if p = (5, 50) then [(7, 70)] else []))
     \<lparr>helper = Some [(3, 30), (4, 40)], exit_errno = 0\<rparr> []) = [(4, 40), (3, 30), (6, 60), (5, 50)]"
proof -
  let ?regs = "\<lambda>p. if p = (4, 40) then [(5, 50), (6, 60)] else if p = (5, 50) then [(7, 70)] else [] :: exit_call list"
  have "\<forall>p. \<forall>q \<in> set (?regs p). fst q \<noteq> 0" by auto
  from nested_exit_functions [OF this, of "\<lparr>helper = Some [(3, 30), (4, 40)], exit_errno = 0\<rparr>" "[(3, 30), (4, 40)]" _ 2]
  show ?thesis by (simp add: numeral_2_eq_2)
qed

end
