(* ===== verification/Object_Pool.thy ===== *)
theory Object_Pool
  imports Prelude "HOL-Library.Multiset"
begin

text \<open>
  \<^verbatim>\<open>src/common/object_pool.h\<close> and \<^verbatim>\<open>src/common/object_pool_inl.h\<close>: the pool the samples come from.
  A block is named by the number of its creation and an object by its block and its place there.
  The pool of one type \<open>T\<close> is modelled; \<open>sz\<close> is \<open>sizeof(T)\<close>. \<open>new\<close> throws rather than return
  null, so only \<open>malloc\<close> can fail (\<open>memory\<close>); the default validator accepts every object.
\<close>

section \<open>State\<close>

definition ObjectPoolBlockMaxSize :: nat where
  [simp]: "ObjectPoolBlockMaxSize = 64 * 1024"

definition ObjectPoolBlockMaxItem :: nat where
  [simp]: "ObjectPoolBlockMaxItem = 256"

definition ObjectPoolFreeChunkMaxItem :: nat where
  [simp]: "ObjectPoolFreeChunkMaxItem = 256"

definition BLOCK_ITEM_COUNT :: "nat \<Rightarrow> nat" where
  "BLOCK_ITEM_COUNT sz =
     (let n1 = ObjectPoolBlockMaxSize div sz; n2 = (if n1 < 1 then 1 else n1)
      in if n2 > ObjectPoolBlockMaxItem then ObjectPoolBlockMaxItem else n2)"

definition free_chunk_item_count :: "nat \<Rightarrow> nat" where
  "free_chunk_item_count sz = (let n = ObjectPoolFreeChunkMaxItem in if n < BLOCK_ITEM_COUNT sz then n else BLOCK_ITEM_COUNT sz)"

definition OP_MAX_BLOCK_GROUP_COUNT :: nat where "OP_MAX_BLOCK_GROUP_COUNT = 65536"
definition OP_GROUP_BLOCK_COUNT :: nat where "OP_GROUP_BLOCK_COUNT = 2 ^ 16"

type_synonym object = "nat \<times> nat"

text \<open>A chunk is the list of its first \<open>free_count\<close> pointers.\<close>

record LocalPool =
  cur_block :: "nat option"
  cur_block_index :: nat
  cur_free :: "object list"

record object_pool =
  local_pool :: "nat \<Rightarrow> LocalPool option"
  local_count :: int
  block_groups :: "nat list list"
  item_count :: "nat \<Rightarrow> nat"
  block_total :: nat
  free_chunks :: "object list list"

definition LocalPool_new :: LocalPool where
  "LocalPool_new = \<lparr>cur_block = None, cur_block_index = 0, cur_free = []\<rparr>"

definition object_pool_init :: object_pool where
  "object_pool_init = \<lparr>local_pool = (\<lambda>_. None), local_count = 0, block_groups = [], item_count = (\<lambda>_. 0),
     block_total = 0, free_chunks = []\<rparr>"

section \<open>Chunks and blocks\<close>

definition pop_free_chunk :: "object_pool \<Rightarrow> (object list \<times> object_pool) option" where
  "pop_free_chunk st =
     (if free_chunks st = [] then None
      else Some (last (free_chunks st), st\<lparr>free_chunks := butlast (free_chunks st)\<rparr>))"

definition push_free_chunk :: "bool \<Rightarrow> object list \<Rightarrow> object_pool \<Rightarrow> object_pool \<times> bool" where
  "push_free_chunk memory c st =
     (if \<not> memory then (st, False) else (st\<lparr>free_chunks := free_chunks st @ [c]\<rparr>, True))"

definition add_block_group :: "nat \<Rightarrow> object_pool \<Rightarrow> object_pool \<times> bool" where
  "add_block_group old_group_count st =
     (if length (block_groups st) \<noteq> old_group_count then (st, True)
      else if length (block_groups st) < OP_MAX_BLOCK_GROUP_COUNT
           then (st\<lparr>block_groups := block_groups st @ [[]]\<rparr>, True)
           else (st, False))"

text \<open>
  \<open>add_block\<close>: a new block is put into the last group, or into a new group when that one is full;
  \<open>new_block\<close> is its number. A group that is full keeps its count, because the increment is undone.
\<close>

partial_function (option) add_block_loop ::
  "nat \<Rightarrow> object_pool \<Rightarrow> ((nat \<times> nat) option \<times> object_pool) option" where
  "add_block_loop new_block st =
     (let group_count = length (block_groups st)
      in if group_count \<ge> 1 \<and> length (block_groups st ! (group_count - 1)) < OP_GROUP_BLOCK_COUNT then
           let g = block_groups st ! (group_count - 1); block_index = length g
           in Some (Some (new_block, (group_count - 1) * OP_GROUP_BLOCK_COUNT + block_index),
                    st\<lparr>block_groups := (block_groups st)[group_count - 1 := g @ [new_block]]\<rparr>)
         else case add_block_group group_count st of (st, again) \<Rightarrow>
           if again then add_block_loop new_block st else Some (None, st))"

definition add_block :: "object_pool \<Rightarrow> ((nat \<times> nat) option \<times> object_pool) option" where
  "add_block st =
     (let new_block = block_total st
      in add_block_loop new_block
           (st\<lparr>block_total := new_block + 1, item_count := (item_count st)(new_block := 0)\<rparr>))"

section \<open>Local pools\<close>

text \<open>Construct the next object of a block.\<close>

definition construct :: "nat \<Rightarrow> object_pool \<Rightarrow> object \<times> object_pool" where
  "construct b st = ((b, item_count st b), st\<lparr>item_count := (item_count st)(b := item_count st b + 1)\<rparr>)"

definition set_local :: "nat \<Rightarrow> LocalPool \<Rightarrow> object_pool \<Rightarrow> object_pool" where
  "set_local t lp st = st\<lparr>local_pool := (local_pool st)(t := Some lp)\<rparr>"

text \<open>\<open>LocalPool::get\<close> (the macro \<open>OBJECT_POOL_GET\<close>).\<close>

definition local_get :: "nat \<Rightarrow> nat \<Rightarrow> LocalPool \<Rightarrow> object_pool \<Rightarrow> (object option \<times> object_pool) option" where
  "local_get sz t lp st =
     (if cur_free lp \<noteq> [] then
        Some (Some (last (cur_free lp)), set_local t (lp\<lparr>cur_free := butlast (cur_free lp)\<rparr>) st)
      else case pop_free_chunk st of
        Some (c, st) \<Rightarrow> Some (Some (last c), set_local t (lp\<lparr>cur_free := butlast c\<rparr>) st)
      | None \<Rightarrow>
          let room = (case cur_block lp of Some b \<Rightarrow> item_count st b < BLOCK_ITEM_COUNT sz | None \<Rightarrow> False)
          in if room then (case construct (the (cur_block lp)) st of (obj, st) \<Rightarrow> Some (Some obj, set_local t lp st))
             else do {
               (new_block, st) \<leftarrow> add_block st;
               Some (case new_block of
                   Some (b, index) \<Rightarrow> (case construct b st of (obj, st) \<Rightarrow>
                     (Some obj, set_local t (lp\<lparr>cur_block := Some b, cur_block_index := index\<rparr>) st))
                 | None \<Rightarrow> (None, set_local t (lp\<lparr>cur_block := None\<rparr>) st)) })"

text \<open>\<open>LocalPool::return_object\<close>.\<close>

definition local_return :: "nat \<Rightarrow> nat \<Rightarrow> bool \<Rightarrow> object \<Rightarrow> LocalPool \<Rightarrow> object_pool \<Rightarrow> object_pool \<times> int" where
  "local_return sz t memory ptr lp st =
     (if length (cur_free lp) < free_chunk_item_count sz
      then (set_local t (lp\<lparr>cur_free := cur_free lp @ [ptr]\<rparr>) st, 0)
      else case push_free_chunk memory (cur_free lp) st of (st, pushed) \<Rightarrow>
        if pushed then (set_local t (lp\<lparr>cur_free := [ptr]\<rparr>) st, 0) else (st, -1))"

section \<open>The pool\<close>

definition get_or_new_local_pool :: "nat \<Rightarrow> object_pool \<Rightarrow> LocalPool \<times> object_pool" where
  "get_or_new_local_pool t st = (case local_pool st t of
       Some lp \<Rightarrow> (lp, st)
     | None \<Rightarrow> (LocalPool_new, (set_local t LocalPool_new st)\<lparr>local_count := local_count st + 1\<rparr>))"

definition get_object :: "nat \<Rightarrow> nat \<Rightarrow> object_pool \<Rightarrow> (object option \<times> object_pool) option" where
  "get_object sz t st = (case get_or_new_local_pool t st of (lp, st) \<Rightarrow> local_get sz t lp st)"

definition return_object :: "nat \<Rightarrow> nat \<Rightarrow> bool \<Rightarrow> object \<Rightarrow> object_pool \<Rightarrow> object_pool \<times> int" where
  "return_object sz t memory ptr st =
     (case get_or_new_local_pool t st of (lp, st) \<Rightarrow> local_return sz t memory ptr lp st)"

text \<open>The thread has no local pool any more; with the last one gone nothing else happens.\<close>

definition clear_from_destructor_of_local_pool :: "nat \<Rightarrow> object_pool \<Rightarrow> object_pool" where
  [simp]: "clear_from_destructor_of_local_pool t st =
     st\<lparr>local_pool := (local_pool st)(t := None), local_count := local_count st - 1\<rparr>"

text \<open>
  The destructor of a local pool, run when its thread exits or by \<open>clear_objects\<close>. The result of
  pushing its chunk is ignored.
\<close>

definition delete_local_pool :: "nat \<Rightarrow> bool \<Rightarrow> object_pool \<Rightarrow> object_pool" where
  "delete_local_pool t memory st = (case local_pool st t of
       None \<Rightarrow> st
     | Some lp \<Rightarrow>
         let st = (if cur_free lp \<noteq> [] then fst (push_free_chunk memory (cur_free lp) st) else st)
         in clear_from_destructor_of_local_pool t st)"

definition clear_objects :: "nat \<Rightarrow> bool \<Rightarrow> object_pool \<Rightarrow> object_pool" where
  "clear_objects t memory st = (if local_pool st t \<noteq> None then delete_local_pool t memory st else st)"

record ObjectPoolInfo =
  local_pool_num :: int
  block_group_num :: nat
  block_num :: nat
  item_num :: nat
  block_item_num :: nat
  free_chunk_item_num :: nat
  total_size :: nat

definition describe_objects :: "nat \<Rightarrow> object_pool \<Rightarrow> ObjectPoolInfo" where
  "describe_objects sz st =
     (let groups = map (\<lambda>g. take (min (length g) OP_GROUP_BLOCK_COUNT) g) (block_groups st);
          blocks = sum_list (map length groups);
          items = sum_list (map (\<lambda>g. sum_list (map (item_count st) g)) groups)
      in \<lparr>local_pool_num = local_count st, block_group_num = length (block_groups st), block_num = blocks,
          item_num = items, block_item_num = BLOCK_ITEM_COUNT sz, free_chunk_item_num = free_chunk_item_count sz,
          total_size = blocks * BLOCK_ITEM_COUNT sz * sz\<rparr>)"

text \<open>\<open>operator<<\<close>; the count of local pools is printed as the unsigned value it is stored in.\<close>

definition show_ObjectPoolInfo :: "ObjectPoolInfo \<Rightarrow> string" where
  "show_ObjectPoolInfo info =
     ''local_pool_num: '' @ show_nat (unat (of_int (local_pool_num info) :: u64)) @
     [CHR 0x0A] @ ''block_group_num: '' @ show_nat (block_group_num info) @
     [CHR 0x0A] @ ''block_num: '' @ show_nat (block_num info) @
     [CHR 0x0A] @ ''item_num: '' @ show_nat (item_num info) @
     [CHR 0x0A] @ ''block_item_num: '' @ show_nat (block_item_num info) @
     [CHR 0x0A] @ ''free_chunk_item_num: '' @ show_nat (free_chunk_item_num info) @
     [CHR 0x0A] @ ''total_size: '' @ show_nat (total_size info)"

section \<open>Blocks are bounded and new blocks always come\<close>

lemma BLOCK_ITEM_COUNT_bounds: "1 \<le> BLOCK_ITEM_COUNT sz \<and> BLOCK_ITEM_COUNT sz \<le> 256"
  by (simp add: BLOCK_ITEM_COUNT_def Let_def)

lemma free_chunk_item_count_eq: "free_chunk_item_count sz = BLOCK_ITEM_COUNT sz"
  using BLOCK_ITEM_COUNT_bounds [of sz] by (simp add: free_chunk_item_count_def)

lemma add_block_loop_room:
  assumes "block_groups st \<noteq> []" and "length (last (block_groups st)) < OP_GROUP_BLOCK_COUNT"
  shows "add_block_loop n st = Some (Some (n, (length (block_groups st) - 1) * OP_GROUP_BLOCK_COUNT +
      length (last (block_groups st))),
    st\<lparr>block_groups := butlast (block_groups st) @ [last (block_groups st) @ [n]]\<rparr>)"
proof -
  obtain gs g where g: "block_groups st = gs @ [g]" using assms(1) by (cases "block_groups st" rule: rev_cases) auto
  with assms(2) show ?thesis by (simp add: add_block_loop.simps Let_def nth_append list_update_append)
qed

text \<open>One more round of the loop is enough, and it gives a block unless all groups are full.\<close>

lemma add_block_loop_returns:
  "\<exists>new G. add_block_loop n st = Some (new, st\<lparr>block_groups := G\<rparr>) \<and> (new = None \<or> fst (the new) = n)"
proof (cases "block_groups st \<noteq> [] \<and> length (last (block_groups st)) < OP_GROUP_BLOCK_COUNT")
  case True
  then show ?thesis using add_block_loop_room [of st n] by (intro exI conjI disjI2) auto
next
  case False
  then have full: "\<not> (length (block_groups st) \<ge> 1 \<and>
      length (block_groups st ! (length (block_groups st) - 1)) < OP_GROUP_BLOCK_COUNT)"
    by (cases "block_groups st" rule: rev_cases) (auto simp: nth_append)
  show ?thesis
  proof (cases "length (block_groups st) < OP_MAX_BLOCK_GROUP_COUNT")
    case True
    let ?st = "st\<lparr>block_groups := block_groups st @ [[]]\<rparr>"
    have "add_block_loop n st = add_block_loop n ?st"
      by (subst add_block_loop.simps, unfold Let_def, simp only: full if_False)
         (simp add: add_block_group_def True)
    moreover have "add_block_loop n ?st = Some (Some (n, (length (block_groups ?st) - 1) * OP_GROUP_BLOCK_COUNT +
      length (last (block_groups ?st))),
        ?st\<lparr>block_groups := butlast (block_groups ?st) @ [last (block_groups ?st) @ [n]]\<rparr>)"
      by (rule add_block_loop_room) (simp_all add: OP_GROUP_BLOCK_COUNT_def)
    ultimately show ?thesis by (intro exI conjI disjI2) auto
  next
    case no_more: False
    have "add_block_loop n st = Some (None, st)"
      by (subst add_block_loop.simps, unfold Let_def, simp only: full if_False)
         (simp add: add_block_group_def no_more)
    then show ?thesis by (intro exI [of _ None] exI [of _ "block_groups st"]) simp
  qed
qed

lemma add_block_returns:
  "\<exists>new G. add_block st = Some (new, st\<lparr>block_groups := G, block_total := block_total st + 1,
      item_count := (item_count st)(block_total st := 0)\<rparr>) \<and> (new = None \<or> fst (the new) = block_total st)"
proof -
  let ?st = "st\<lparr>block_total := block_total st + 1, item_count := (item_count st)(block_total st := 0)\<rparr>"
  obtain new G where "add_block_loop (block_total st) ?st = Some (new, ?st\<lparr>block_groups := G\<rparr>)"
    "new = None \<or> fst (the new) = block_total st"
    using add_block_loop_returns [of "block_total st" ?st] by blast
  then show ?thesis by (intro exI [of _ new] exI [of _ G]) (simp add: add_block_def Let_def)
qed

section \<open>Every object is in one place\<close>

definition free_of :: "object_pool \<Rightarrow> nat \<Rightarrow> object list" where
  "free_of st t = (case local_pool st t of Some lp \<Rightarrow> cur_free lp | None \<Rightarrow> [])"

definition block_of :: "object_pool \<Rightarrow> nat \<Rightarrow> nat option" where
  "block_of st t = (case local_pool st t of Some lp \<Rightarrow> cur_block lp | None \<Rightarrow> None)"

definition constructed :: "object_pool \<Rightarrow> object set" where
  "constructed st = {(b, i). b < block_total st \<and> i < item_count st b}"

text \<open>
  The places an object can be in; \<open>L\<close> is the set of objects in the hands of the program. Places
  share no object, and what moves between two of them leaves it so.
\<close>

datatype place = Local nat | Chunks | Live

fun contents :: "(nat \<Rightarrow> object list) \<Rightarrow> object list list \<Rightarrow> object set \<Rightarrow> place \<Rightarrow> object set" where
  "contents F C L (Local t) = set (F t)"
| "contents F C L Chunks = set (concat C)"
| "contents F C L Live = L"

definition apart :: "('p \<Rightarrow> 'o set) \<Rightarrow> bool" where
  "apart P \<longleftrightarrow> (\<forall>p q. p \<noteq> q \<longrightarrow> P p \<inter> P q = {})"

lemma apart_move:
  assumes "apart P" and "X \<subseteq> P p" and "p \<noteq> q"
  shows "apart (P(p := P p - X, q := P q \<union> X))"
  unfolding apart_def
proof (intro allI impI)
  fix a b :: 'a assume "a \<noteq> b"
  moreover have "P a \<inter> P b = {}" "b \<noteq> p \<Longrightarrow> P p \<inter> P b = {}" "a \<noteq> p \<Longrightarrow> P a \<inter> P p = {}"
    using assms(1) \<open>a \<noteq> b\<close> unfolding apart_def by blast+
  ultimately show "(P(p := P p - X, q := P q \<union> X)) a \<inter> (P(p := P p - X, q := P q \<union> X)) b = {}"
    using assms(2,3) by (auto simp: fun_upd_def)
qed

lemma apart_new:
  assumes "apart P" and "\<And>p. X \<inter> P p = {}"
  shows "apart (P(q := P q \<union> X))"
  unfolding apart_def
proof (intro allI impI)
  fix a b :: 'a assume "a \<noteq> b"
  then have "P a \<inter> P b = {}" using assms(1) unfolding apart_def by blast
  then show "(P(q := P q \<union> X)) a \<inter> (P(q := P q \<union> X)) b = {}"
    using assms(2) [of a] assms(2) [of b] \<open>a \<noteq> b\<close> by (auto simp: fun_upd_def)
qed

lemma apart_subset: "apart P \<Longrightarrow> (\<And>p. Q p \<subseteq> P p) \<Longrightarrow> apart Q"
  unfolding apart_def by blast

definition places_ok :: "(nat \<Rightarrow> object list) \<Rightarrow> object list list \<Rightarrow> object set \<Rightarrow> bool" where
  "places_ok F C L \<longleftrightarrow> (\<forall>t. distinct (F t)) \<and> distinct (concat C) \<and> apart (contents F C L)"

definition sizes_ok :: "nat \<Rightarrow> (nat \<Rightarrow> object list) \<Rightarrow> object list list \<Rightarrow> bool" where
  "sizes_ok n F C \<longleftrightarrow> (\<forall>t. length (F t) \<le> n) \<and> (\<forall>c\<in>set C. c \<noteq> [] \<and> length c \<le> n)"

text \<open>No two threads fill the same block.\<close>

definition blocks_ok :: "(nat \<Rightarrow> nat option) \<Rightarrow> nat \<Rightarrow> bool" where
  "blocks_ok B n \<longleftrightarrow> (\<forall>t b. B t = Some b \<longrightarrow> b < n) \<and> (\<forall>t u b. B t = Some b \<and> B u = Some b \<longrightarrow> t = u)"

lemma blocks_ok_update:
  assumes "blocks_ok B n" and "\<And>b. v = Some b \<Longrightarrow> b < n \<and> (\<forall>u. u \<noteq> t \<longrightarrow> B u \<noteq> Some b)"
  shows "blocks_ok (B(t := v)) n"
  unfolding blocks_ok_def
proof (intro conjI allI impI)
  fix u b assume "(B(t := v)) u = Some b"
  then show "b < n" using assms unfolding blocks_ok_def by (cases "u = t") auto
next
  fix u u' b assume h: "(B(t := v)) u = Some b \<and> (B(t := v)) u' = Some b"
  have "B u = Some b \<Longrightarrow> B u' = Some b \<Longrightarrow> u = u'" using assms(1) unfolding blocks_ok_def by blast
  with h show "u = u'" using assms(2) [of b] by (auto split: if_splits)
qed

definition pool_ok :: "nat \<Rightarrow> object set \<Rightarrow> object_pool \<Rightarrow> bool" where
  "pool_ok sz L st \<longleftrightarrow>
     places_ok (free_of st) (free_chunks st) L \<and> sizes_ok (BLOCK_ITEM_COUNT sz) (free_of st) (free_chunks st) \<and>
     (\<forall>p. contents (free_of st) (free_chunks st) L p \<subseteq> constructed st) \<and>
     (\<forall>b. item_count st b \<le> BLOCK_ITEM_COUNT sz) \<and> blocks_ok (block_of st) (block_total st)"

lemma pool_okD:
  assumes "pool_ok sz L st"
  shows "places_ok (free_of st) (free_chunks st) L" and "sizes_ok (BLOCK_ITEM_COUNT sz) (free_of st) (free_chunks st)"
    and "contents (free_of st) (free_chunks st) L p \<subseteq> constructed st"
    and "item_count st b \<le> BLOCK_ITEM_COUNT sz" and "blocks_ok (block_of st) (block_total st)"
  using assms by (simp_all add: pool_ok_def)

lemma pool_ok_init: "pool_ok sz {} object_pool_init"
  proof -
  have "contents (\<lambda>_. []) [] {} p = {}" for p by (cases p) auto
  then show ?thesis
    by (simp add: pool_ok_def object_pool_init_def places_ok_def apart_def sizes_ok_def blocks_ok_def free_of_def [abs_def] block_of_def)
qed

lemma set_local_simps [simp]:
  "free_of (set_local t lp st) u = (if u = t then cur_free lp else free_of st u)"
  "block_of (set_local t lp st) u = (if u = t then cur_block lp else block_of st u)"
  "free_chunks (set_local t lp st) = free_chunks st" "item_count (set_local t lp st) = item_count st"
  "block_total (set_local t lp st) = block_total st" "block_groups (set_local t lp st) = block_groups st"
  "constructed (set_local t lp st) = constructed st" "local_pool (set_local t lp st) t = Some lp"
  by (simp_all add: set_local_def free_of_def block_of_def constructed_def)

lemma free_of_update [simp]:
  "free_of (st\<lparr>local_count := n\<rparr>) = free_of st" "block_of (st\<lparr>local_count := n\<rparr>) = block_of st"
  "free_of (st\<lparr>free_chunks := C\<rparr>) = free_of st" "block_of (st\<lparr>free_chunks := C\<rparr>) = block_of st"
  "constructed (st\<lparr>local_count := n\<rparr>) = constructed st" "constructed (st\<lparr>free_chunks := C\<rparr>) = constructed st"
  by (simp_all add: free_of_def block_of_def constructed_def fun_eq_iff)

text \<open>Moving objects between the places.\<close>

lemma places_take_local:
  assumes "places_ok F C L" and "F t = c @ [x]"
  shows "x \<notin> L \<and> places_ok (F(t := c)) C (insert x L)"
proof -
  have "contents (F(t := c)) C (insert x L) = (contents F C L)(Local t := contents F C L (Local t) - {x},
      Live := contents F C L Live \<union> {x})"
    using assms by (intro ext, rename_tac p, case_tac p) (auto simp: places_ok_def dest: spec [of _ t])
  moreover have "apart ((contents F C L)(Local t := contents F C L (Local t) - {x},
      Live := contents F C L Live \<union> {x}))"
    using assms by (intro apart_move) (auto simp: places_ok_def)
  moreover have "contents F C L Live \<inter> contents F C L (Local t) = {}"
    using assms(1) unfolding places_ok_def apart_def by blast
  ultimately show ?thesis using assms by (auto simp: places_ok_def dest: spec [of _ t])
qed

lemma places_take_chunk:
  assumes "places_ok F (C @ [c]) L" and "F t = []"
  shows "places_ok (F(t := c)) C L"
proof -
  have d: "distinct (concat C @ c)" using assms(1) by (simp add: places_ok_def)
  then have "contents (F(t := c)) C L = (contents F (C @ [c]) L)(Chunks := contents F (C @ [c]) L Chunks - set c,
      Local t := contents F (C @ [c]) L (Local t) \<union> set c)"
    using assms(2) by (intro ext, rename_tac p, case_tac p) auto
  moreover have "apart ((contents F (C @ [c]) L)(Chunks := contents F (C @ [c]) L Chunks - set c,
      Local t := contents F (C @ [c]) L (Local t) \<union> set c))"
    using assms(1) by (intro apart_move) (auto simp: places_ok_def)
  ultimately show ?thesis using assms(1) d by (auto simp: places_ok_def)
qed

lemma places_push_chunk:
  assumes "places_ok F C L"
  shows "places_ok (F(t := [])) (C @ [F t]) L"
proof -
  have "contents (F(t := [])) (C @ [F t]) L = (contents F C L)(Local t := contents F C L (Local t) - set (F t),
      Chunks := contents F C L Chunks \<union> set (F t))"
    by (intro ext, rename_tac p, case_tac p) auto
  moreover have "apart ((contents F C L)(Local t := contents F C L (Local t) - set (F t),
      Chunks := contents F C L Chunks \<union> set (F t)))"
    using assms by (intro apart_move) (auto simp: places_ok_def)
  moreover have "contents F C L Chunks \<inter> contents F C L (Local t) = {}"
    using assms(1) unfolding places_ok_def apart_def by blast
  ultimately show ?thesis using assms by (auto simp: places_ok_def)
qed

lemma places_return:
  assumes "places_ok F C L" and "x \<in> L"
  shows "places_ok (F(t := F t @ [x])) C (L - {x})"
proof -
  have "contents (F(t := F t @ [x])) C (L - {x}) = (contents F C L)(Live := contents F C L Live - {x},
      Local t := contents F C L (Local t) \<union> {x})"
    by (intro ext, rename_tac p, case_tac p) auto
  moreover have "apart ((contents F C L)(Live := contents F C L Live - {x},
      Local t := contents F C L (Local t) \<union> {x}))"
    using assms by (intro apart_move) (auto simp: places_ok_def)
  moreover have "contents F C L Live \<inter> contents F C L (Local t) = {}"
    using assms(1) unfolding places_ok_def apart_def by blast
  ultimately show ?thesis using assms by (auto simp: places_ok_def)
qed

lemma places_new:
  assumes "places_ok F C L" and "\<And>p. x \<notin> contents F C L p"
  shows "places_ok F C (insert x L)"
proof -
  have "contents F C (insert x L) = (contents F C L)(Live := contents F C L Live \<union> {x})"
    by (intro ext, rename_tac p, case_tac p) auto
  moreover have "apart ((contents F C L)(Live := contents F C L Live \<union> {x}))"
    using assms by (intro apart_new) (auto simp: places_ok_def)
  ultimately show ?thesis using assms(1) by (auto simp: places_ok_def)
qed

lemma places_subset:
  assumes "places_ok F C L" and "\<And>t. distinct (F' t) \<and> set (F' t) \<subseteq> set (F t)" and "L' \<subseteq> L"
  shows "places_ok F' C L'"
proof -
  have "contents F' C L' p \<subseteq> contents F C L p" for p
  proof (cases p)
    case (Local u)
    then show ?thesis using assms(2) [of u] by simp
  qed (use assms(3) in simp_all)
  moreover have "apart (contents F C L)" "distinct (concat C)" using assms(1) by (simp_all add: places_ok_def)
  ultimately have "apart (contents F' C L')" using apart_subset by blast
  moreover have "distinct (F' t)" for t using assms(2) by blast
  ultimately show ?thesis using \<open>distinct (concat C)\<close> unfolding places_ok_def by blast
qed

section \<open>The operations keep the objects apart\<close>

lemma free_of_set_local: "free_of (set_local t lp st) = (free_of st)(t := cur_free lp)"
  by (auto simp: fun_eq_iff)

lemma block_of_set_local: "block_of (set_local t lp st) = (block_of st)(t := cur_block lp)"
  by (auto simp: fun_eq_iff)

lemma sizes_ok_update: "sizes_ok n F C \<Longrightarrow> length c \<le> n \<Longrightarrow> sizes_ok n (F(t := c)) C"
  by (simp add: sizes_ok_def)

lemma contents_update:
  assumes "\<And>p. contents F C L p \<subseteq> A" and "set c \<subseteq> A" and "set (concat C') \<subseteq> set (concat C)" and "L' \<subseteq> A"
  shows "contents (F(t := c)) C' L' p \<subseteq> A"
proof (cases p)
  case (Local u)
  then show ?thesis using assms(1) [of "Local u"] assms(2) by auto
next
  case Chunks
  then show ?thesis using assms(1) [of Chunks] assms(3) by auto
qed (use assms(4) in simp)

lemma set_local_ok:
  assumes "pool_ok sz L st" and "places_ok ((free_of st)(t := cur_free lp)) C L'"
    and "length (cur_free lp) \<le> BLOCK_ITEM_COUNT sz" and "\<forall>c\<in>set C. c \<noteq> [] \<and> length c \<le> BLOCK_ITEM_COUNT sz"
    and "\<And>p. contents ((free_of st)(t := cur_free lp)) C L' p \<subseteq> constructed st"
    and "\<And>b. cur_block lp = Some b \<Longrightarrow> b < block_total st \<and> (\<forall>u. u \<noteq> t \<longrightarrow> block_of st u \<noteq> Some b)"
  shows "pool_ok sz L' (set_local t lp (st\<lparr>free_chunks := C\<rparr>))"
  using assms(2-) pool_okD [OF assms(1)] blocks_ok_update [OF pool_okD(5) [OF assms(1)] assms(6)]
  by (simp add: pool_ok_def free_of_set_local block_of_set_local sizes_ok_def)

text \<open>The block a thread fills stays its own.\<close>

lemma own_block:
  assumes "pool_ok sz L st" and "block_of st t = Some b"
  shows "b < block_total st \<and> (\<forall>u. u \<noteq> t \<longrightarrow> block_of st u \<noteq> Some b)"
  using pool_okD(5) [OF assms(1)] assms(2) unfolding blocks_ok_def by metis

lemma construct_fresh:
  assumes "pool_ok sz L st" and "b < block_total st" and "item_count st b < BLOCK_ITEM_COUNT sz"
    and "construct b st = (x, st')"
  shows "x \<notin> L \<and> pool_ok sz (insert x L) st' \<and> free_of st' = free_of st \<and> block_of st' = block_of st \<and>
    block_total st' = block_total st \<and> free_chunks st' = free_chunks st"
proof -
  have x: "x = (b, item_count st b)"
    and st': "st' = st\<lparr>item_count := (item_count st)(b := item_count st b + 1)\<rparr>"
    using assms(4) by (simp_all add: construct_def)
  have frame: "free_of st' = free_of st" "block_of st' = block_of st" "free_chunks st' = free_chunks st"
    "block_total st' = block_total st"
    by (simp_all add: st' free_of_def block_of_def fun_eq_iff)
  have new: "x \<notin> constructed st" and more: "insert x (constructed st) \<subseteq> constructed st'"
    using assms(2) by (auto simp: constructed_def x st')
  have out: "x \<notin> contents (free_of st) (free_chunks st) L p" for p
    using pool_okD(3) [OF assms(1), of p] new by blast
  then have p: "places_ok (free_of st) (free_chunks st) (insert x L)"
    by (rule places_new [OF pool_okD(1) [OF assms(1)]])
  have c: "contents (free_of st) (free_chunks st) (insert x L) q \<subseteq> constructed st'" for q
    using pool_okD(3) [OF assms(1), of q] more by (cases q) auto
  have "item_count st' k \<le> BLOCK_ITEM_COUNT sz" for k
    using pool_okD(4) [OF assms(1), of k] assms(3) by (simp add: st')
  then have "pool_ok sz (insert x L) st'"
    using p c pool_okD(2,5) [OF assms(1)] by (simp add: pool_ok_def frame)
  then show ?thesis using out [of Live] frame by simp
qed

lemma set_local_same_ok:
  assumes "pool_ok sz L st" and "cur_free lp = free_of st t"
    and "\<And>b. cur_block lp = Some b \<Longrightarrow> b < block_total st \<and> (\<forall>u. u \<noteq> t \<longrightarrow> block_of st u \<noteq> Some b)"
  shows "pool_ok sz L (set_local t lp st)"
proof -
  have same: "(free_of st)(t := cur_free lp) = free_of st" by (simp add: assms(2))
  have "length (cur_free lp) \<le> BLOCK_ITEM_COUNT sz" "\<forall>c\<in>set (free_chunks st). c \<noteq> [] \<and> length c \<le> BLOCK_ITEM_COUNT sz"
    using pool_okD(2) [OF assms(1)] by (simp_all add: sizes_ok_def assms(2))
  then have "pool_ok sz L (set_local t lp (st\<lparr>free_chunks := free_chunks st\<rparr>))"
    by (intro set_local_ok [OF assms(1)]) (use pool_okD [OF assms(1)] assms(3) in \<open>simp_all add: same\<close>)
  then show ?thesis by simp
qed

lemma add_block_ok:
  assumes "pool_ok sz L st" and "add_block st = Some (new, st')"
  shows "pool_ok sz L st' \<and> free_of st' = free_of st \<and> block_of st' = block_of st \<and>
    block_total st' = block_total st + 1 \<and> item_count st' (block_total st) = 0 \<and>
    (new = None \<or> fst (the new) = block_total st)"
proof -
  obtain G where st': "st' = st\<lparr>block_groups := G, block_total := block_total st + 1,
      item_count := (item_count st)(block_total st := 0)\<rparr>" "new = None \<or> fst (the new) = block_total st"
    using add_block_returns [of st] assms(2) by auto
  have frame: "free_of st' = free_of st" "block_of st' = block_of st" "free_chunks st' = free_chunks st"
    by (simp_all add: st' free_of_def block_of_def fun_eq_iff)
  have "constructed st \<subseteq> constructed st'" by (auto simp: constructed_def st')
  then have "contents (free_of st) (free_chunks st) L p \<subseteq> constructed st'" for p
    using pool_okD(3) [OF assms(1)] by blast
  moreover have "item_count st' k \<le> BLOCK_ITEM_COUNT sz" for k
    using pool_okD(4) [OF assms(1), of k] by (simp add: st')
  moreover have "blocks_ok (block_of st) (block_total st')"
    using pool_okD(5) [OF assms(1)] unfolding blocks_ok_def by (auto simp: st' less_Suc_eq)
  ultimately have "pool_ok sz L st'" using pool_okD(1,2) [OF assms(1)] by (simp add: pool_ok_def frame)
  then show ?thesis using st' frame by simp
qed

lemma local_get_cached:
  assumes ok: "pool_ok sz L st" and lp: "local_pool st t = Some lp" and C: "places_ok ((free_of st)(t := c @ [x])) C L"
    and sub: "insert x (set c) \<subseteq> constructed st" "set (concat C) \<subseteq> set (concat (free_chunks st))"
    and len: "length c \<le> BLOCK_ITEM_COUNT sz" "\<forall>d\<in>set C. d \<noteq> [] \<and> length d \<le> BLOCK_ITEM_COUNT sz"
  shows "x \<notin> L \<and> pool_ok sz (insert x L) (set_local t (lp\<lparr>cur_free := c\<rparr>) (st\<lparr>free_chunks := C\<rparr>))"
proof -
  have b: "block_of st t = cur_block lp" using lp by (simp add: block_of_def)
  have "x \<notin> L \<and> places_ok (((free_of st)(t := c @ [x]))(t := c)) C (insert x L)"
    using C by (rule places_take_local) simp
  then have x: "x \<notin> L" "places_ok ((free_of st)(t := c)) C (insert x L)" by simp_all
  have "L \<subseteq> constructed st" using pool_okD(3) [OF ok, of Live] by simp
  then have "contents ((free_of st)(t := c)) C (insert x L) p \<subseteq> constructed st" for p
    using contents_update [OF pool_okD(3) [OF ok], of c C "insert x L" t p] sub by simp
  moreover have "k < block_total st \<and> (\<forall>u. u \<noteq> t \<longrightarrow> block_of st u \<noteq> Some k)" if "cur_block lp = Some k" for k
    using own_block [OF ok, of t k] b that by simp
  ultimately have "pool_ok sz (insert x L) (set_local t (lp\<lparr>cur_free := c\<rparr>) (st\<lparr>free_chunks := C\<rparr>))"
    by (intro set_local_ok [OF ok]) (use x len in simp_all)
  then show ?thesis using x by blast
qed

lemma local_get_ok:
  assumes ok: "pool_ok sz L st" and lp: "local_pool st t = Some lp"
  shows "\<exists>r st'. local_get sz t lp st = Some (r, st') \<and>
    (case r of Some x \<Rightarrow> x \<notin> L \<and> pool_ok sz (insert x L) st' | None \<Rightarrow> pool_ok sz L st')"
proof -
  have f: "free_of st t = cur_free lp" and b: "block_of st t = cur_block lp"
    using lp by (simp_all add: free_of_def block_of_def)
  have own: "\<And>k. cur_block lp = Some k \<Longrightarrow> k < block_total st \<and> (\<forall>u. u \<noteq> t \<longrightarrow> block_of st u \<noteq> Some k)"
    using own_block [OF ok, of t] b by simp
  consider (free) "cur_free lp \<noteq> []" | (chunk) "cur_free lp = []" "free_chunks st \<noteq> []"
    | (new) "cur_free lp = []" "free_chunks st = []" by blast
  then show ?thesis
  proof cases
    case free
    then obtain c x where c: "cur_free lp = c @ [x]" by (cases "cur_free lp" rule: rev_cases) auto
    have "(free_of st)(t := c @ [x]) = free_of st" using f c by (intro ext) simp
    moreover have "insert x (set c) \<subseteq> constructed st" using pool_okD(3) [OF ok, of "Local t"] f c by simp
    moreover have "length c \<le> BLOCK_ITEM_COUNT sz" "\<forall>d\<in>set (free_chunks st). d \<noteq> [] \<and> length d \<le> BLOCK_ITEM_COUNT sz"
      using pool_okD(2) [OF ok] f c unfolding sizes_ok_def by (metis Suc_leD length_append_singleton, blast)
    ultimately have "x \<notin> L \<and> pool_ok sz (insert x L) (set_local t (lp\<lparr>cur_free := c\<rparr>) (st\<lparr>free_chunks := free_chunks st\<rparr>))"
      using local_get_cached [OF ok lp, of c x "free_chunks st"] pool_okD(1) [OF ok] by simp
    then show ?thesis using c by (simp add: local_get_def)
  next
    case chunk
    then obtain C d where C: "free_chunks st = C @ [d]" by (cases "free_chunks st" rule: rev_cases) auto
    have sizes: "d \<noteq> [] \<and> length d \<le> BLOCK_ITEM_COUNT sz" "\<forall>e\<in>set C. e \<noteq> [] \<and> length e \<le> BLOCK_ITEM_COUNT sz"
      using pool_okD(2) [OF ok] by (auto simp: sizes_ok_def C)
    then obtain c x where c: "d = c @ [x]" by (cases d rule: rev_cases) auto
    have "places_ok ((free_of st)(t := c @ [x])) C L"
      using places_take_chunk [of "free_of st" C d L t] pool_okD(1) [OF ok] f chunk(1) by (simp add: C c)
    moreover have "insert x (set c) \<subseteq> constructed st" using pool_okD(3) [OF ok, of Chunks] by (simp add: C c)
    moreover have "set (concat C) \<subseteq> set (concat (free_chunks st))" by (auto simp: C)
    ultimately have "x \<notin> L \<and> pool_ok sz (insert x L) (set_local t (lp\<lparr>cur_free := c\<rparr>) (st\<lparr>free_chunks := C\<rparr>))"
      using local_get_cached [OF ok lp, of c x C] sizes by (simp add: c)
    then show ?thesis using chunk(1) by (simp add: local_get_def pop_free_chunk_def C c)
  next
    case new
    let ?room = "case cur_block lp of Some b \<Rightarrow> item_count st b < BLOCK_ITEM_COUNT sz | None \<Rightarrow> False"
    have pop: "pop_free_chunk st = None" using new by (simp add: pop_free_chunk_def)
    show ?thesis
    proof (cases ?room)
      case True
      then obtain k where k: "cur_block lp = Some k" "item_count st k < BLOCK_ITEM_COUNT sz"
        by (cases "cur_block lp") auto
      obtain x st1 where c: "construct k st = (x, st1)" by (metis prod.exhaust)
      note fresh = construct_fresh [OF ok conjunct1 [OF own [OF k(1)]] k(2) c]
      have "pool_ok sz (insert x L) (set_local t lp st1)"
        by (rule set_local_same_ok) (use fresh f own in simp_all)
      then show ?thesis using new True k c fresh by (simp add: local_get_def pop)
    next
      case False
      obtain nb st1 where a: "add_block st = Some (nb, st1)" using add_block_returns [of st] by blast
      note a_ok = add_block_ok [OF ok a]
      show ?thesis
      proof (cases nb)
        case None
        have "pool_ok sz L (set_local t (lp\<lparr>cur_block := None\<rparr>) st1)"
          by (rule set_local_same_ok) (use a_ok f in simp_all)
        then show ?thesis using new False a None by (simp add: local_get_def pop)
      next
        case (Some p)
        then obtain index where p: "nb = Some (block_total st, index)" using a_ok by (cases p) auto
        obtain x st2 where c: "construct (block_total st) st1 = (x, st2)" by (metis prod.exhaust)
        have room: "item_count st1 (block_total st) < BLOCK_ITEM_COUNT sz"
          using a_ok BLOCK_ITEM_COUNT_bounds [of sz] by simp
        have "block_total st < block_total st1" using a_ok by simp
        note fresh = construct_fresh [OF conjunct1 [OF a_ok] this room c]
        have unused: "block_of st u \<noteq> Some (block_total st)" for u
          using pool_okD(5) [OF ok] unfolding blocks_ok_def by blast
        have "pool_ok sz (insert x L) (set_local t (lp\<lparr>cur_block := Some (block_total st), cur_block_index := index\<rparr>) st2)"
          by (rule set_local_same_ok) (use fresh f a_ok unused in simp_all)
        then show ?thesis using new False a p c fresh by (simp add: local_get_def pop)
      qed
    qed
  qed
qed

lemma new_local_pool_ok:
  assumes "pool_ok sz L st" and "get_or_new_local_pool t st = (lp, st')"
  shows "pool_ok sz L st' \<and> local_pool st' t = Some lp"
proof (cases "local_pool st t")
  case None
  then have st': "lp = LocalPool_new" "st' = (set_local t LocalPool_new st)\<lparr>local_count := local_count st + 1\<rparr>"
    using assms(2) by (simp_all add: get_or_new_local_pool_def)
  have "pool_ok sz L (set_local t LocalPool_new st)"
    by (rule set_local_same_ok [OF assms(1)]) (use None in \<open>simp_all add: LocalPool_new_def free_of_def\<close>)
  then show ?thesis by (simp add: st' pool_ok_def)
qed (use assms in \<open>simp add: get_or_new_local_pool_def\<close>)

lemma get_object_ok:
  assumes "pool_ok sz L st"
  shows "\<exists>r st'. get_object sz t st = Some (r, st') \<and>
    (case r of Some x \<Rightarrow> x \<notin> L \<and> pool_ok sz (insert x L) st' | None \<Rightarrow> pool_ok sz L st')"
proof -
  obtain lp st1 where g: "get_or_new_local_pool t st = (lp, st1)" by (metis prod.exhaust)
  from local_get_ok [OF conjunct1 [OF new_local_pool_ok [OF assms g]] conjunct2 [OF new_local_pool_ok [OF assms g]]]
  show ?thesis by (simp add: get_object_def g)
qed

lemma local_return_ok:
  assumes ok: "pool_ok sz L st" and lp: "local_pool st t = Some lp" and x: "x \<in> L"
    and r: "local_return sz t memory x lp st = (st', r)"
  shows "pool_ok sz (L - {x}) st'"
proof -
  have f: "free_of st t = cur_free lp" and b: "block_of st t = cur_block lp"
    using lp by (simp_all add: free_of_def block_of_def)
  have own: "\<And>k. cur_block lp = Some k \<Longrightarrow> k < block_total st \<and> (\<forall>u. u \<noteq> t \<longrightarrow> block_of st u \<noteq> Some k)"
    using own_block [OF ok, of t] b by simp
  have xc: "x \<in> constructed st" "L - {x} \<subseteq> constructed st" using pool_okD(3) [OF ok, of Live] x by auto
  have fc: "set (cur_free lp) \<subseteq> constructed st" using pool_okD(3) [OF ok, of "Local t"] by (simp add: f)
  have len: "length (cur_free lp) \<le> BLOCK_ITEM_COUNT sz"
    "\<forall>c\<in>set (free_chunks st). c \<noteq> [] \<and> length c \<le> BLOCK_ITEM_COUNT sz"
    using pool_okD(2) [OF ok] unfolding sizes_ok_def by (metis f, blast)
  consider (room) "length (cur_free lp) < BLOCK_ITEM_COUNT sz"
    | (push) "\<not> length (cur_free lp) < BLOCK_ITEM_COUNT sz" "memory"
    | (lost) "\<not> length (cur_free lp) < BLOCK_ITEM_COUNT sz" "\<not> memory" by blast
  then show ?thesis
  proof cases
    case room
    let ?lp = "lp\<lparr>cur_free := cur_free lp @ [x]\<rparr>"
    have p: "places_ok ((free_of st)(t := cur_free ?lp)) (free_chunks st) (L - {x})"
      using places_return [OF pool_okD(1) [OF ok] x, of t] by (simp add: f)
    have "contents ((free_of st)(t := cur_free ?lp)) (free_chunks st) (L - {x}) q \<subseteq> constructed st" for q
      by (rule contents_update [OF pool_okD(3) [OF ok]]) (use xc fc in simp_all)
    then have "pool_ok sz (L - {x}) (set_local t ?lp (st\<lparr>free_chunks := free_chunks st\<rparr>))"
      by (intro set_local_ok [OF ok p]) (use room len own in simp_all)
    then show ?thesis using r room by (simp add: local_return_def free_chunk_item_count_eq)
  next
    case push
    let ?C = "free_chunks st @ [cur_free lp]" and ?lp = "lp\<lparr>cur_free := [x]\<rparr>"
    have "places_ok ((free_of st)(t := [])) ?C L"
      using places_push_chunk [OF pool_okD(1) [OF ok], of t] by (simp add: f)
    from places_return [OF this x, of t]
    have p: "places_ok ((free_of st)(t := cur_free ?lp)) ?C (L - {x})" by simp
    have all: "contents (free_of st) ?C L q \<subseteq> constructed st" for q
      using pool_okD(3) [OF ok, of q] fc by (cases q) auto
    have "contents ((free_of st)(t := cur_free ?lp)) ?C (L - {x}) q \<subseteq> constructed st" for q
      by (rule contents_update [OF all]) (use xc in simp_all)
    moreover have "cur_free lp \<noteq> []" using push(1) BLOCK_ITEM_COUNT_bounds [of sz] by auto
    ultimately have "pool_ok sz (L - {x}) (set_local t ?lp (st\<lparr>free_chunks := ?C\<rparr>))"
      by (intro set_local_ok [OF ok p]) (use len own BLOCK_ITEM_COUNT_bounds [of sz] in auto)
    then show ?thesis using r push by (simp add: local_return_def free_chunk_item_count_eq push_free_chunk_def)
  next
    case lost
    then have "st' = st" using r by (simp add: local_return_def free_chunk_item_count_eq push_free_chunk_def)
    moreover have "places_ok (free_of st) (free_chunks st) (L - {x})"
      using pool_okD(1) [OF ok] by (rule places_subset) (use pool_okD(1) [OF ok] in \<open>auto simp: places_ok_def\<close>)
    moreover have "contents (free_of st) (free_chunks st) (L - {x}) q \<subseteq> constructed st" for q
      using pool_okD(3) [OF ok, of q] by (cases q) auto
    ultimately show ?thesis using pool_okD [OF ok] by (simp add: pool_ok_def)
  qed
qed

lemma return_object_ok:
  assumes "pool_ok sz L st" and "x \<in> L"
  shows "pool_ok sz (L - {x}) (fst (return_object sz t memory x st))"
proof -
  obtain lp st1 where g: "get_or_new_local_pool t st = (lp, st1)" by (metis prod.exhaust)
  note n = new_local_pool_ok [OF assms(1) g]
  obtain st' r where "local_return sz t memory x lp st1 = (st', r)" by (metis prod.exhaust)
  from local_return_ok [OF conjunct1 [OF n] conjunct2 [OF n] assms(2) this] this g
  show ?thesis by (simp add: return_object_def)
qed

lemma delete_local_pool_ok:
  assumes ok: "pool_ok sz L st"
  shows "pool_ok sz L (delete_local_pool t memory st)"
proof (cases "local_pool st t")
  case None
  then show ?thesis using ok by (simp add: delete_local_pool_def)
next
  case (Some lp)
  then have f: "free_of st t = cur_free lp" by (simp add: free_of_def)
  let ?st = "delete_local_pool t memory st"
  let ?C = "if cur_free lp \<noteq> [] \<and> memory then free_chunks st @ [cur_free lp] else free_chunks st"
  have frame: "free_of ?st = (free_of st)(t := [])" "block_of ?st = (block_of st)(t := None)"
    "free_chunks ?st = ?C" "item_count ?st = item_count st" "block_total ?st = block_total st"
    using Some by (auto simp: delete_local_pool_def push_free_chunk_def free_of_def block_of_def fun_eq_iff Let_def)
  have same: "constructed ?st = constructed st" by (simp add: constructed_def frame)
  have "places_ok ((free_of st)(t := [])) (free_chunks st) L"
    using pool_okD(1) [OF ok] by (rule places_subset) (use pool_okD(1) [OF ok] in \<open>auto simp: places_ok_def\<close>)
  then have "places_ok ((free_of st)(t := [])) ?C L"
    using places_push_chunk [OF pool_okD(1) [OF ok], of t] f by simp
  moreover have "length (cur_free lp) \<le> BLOCK_ITEM_COUNT sz"
    using pool_okD(2) [OF ok] f unfolding sizes_ok_def by metis
  then have "sizes_ok (BLOCK_ITEM_COUNT sz) ((free_of st)(t := [])) ?C"
    using pool_okD(2) [OF ok] by (auto simp: sizes_ok_def)
  moreover have "contents ((free_of st)(t := [])) ?C L q \<subseteq> constructed st" for q
  proof -
    have "set (cur_free lp) \<subseteq> constructed st" using pool_okD(3) [OF ok, of "Local t"] f by simp
    then have all: "contents (free_of st) ?C L q \<subseteq> constructed st" for q
      using pool_okD(3) [OF ok, of q] by (cases q) auto
    show ?thesis
      by (rule contents_update [OF all]) (use pool_okD(3) [OF ok, of Live] in simp_all)
  qed
  moreover have "blocks_ok ((block_of st)(t := None)) (block_total st)"
    by (rule blocks_ok_update [OF pool_okD(5) [OF ok]]) simp
  ultimately show ?thesis
    using pool_okD(4) [OF ok] by (simp add: pool_ok_def frame same)
qed

section \<open>The contract of an allocator\<close>

text \<open>
  What the users of the pool rely on: with \<open>L\<close> the objects in their hands, an allocation returns,
  and what it returns is not one of them; an object given back leaves \<open>L\<close>; the exit of a thread changes nothing for the others.
\<close>

locale object_allocator =
  fixes ok :: "'o set \<Rightarrow> 's \<Rightarrow> bool"
    and alloc :: "'t \<Rightarrow> 's \<Rightarrow> ('o option \<times> 's) option"
    and give_back :: "'t \<Rightarrow> 'o \<Rightarrow> 's \<Rightarrow> 's"
    and leave :: "'t \<Rightarrow> 's \<Rightarrow> 's"
  assumes alloc_returns: "ok L s \<Longrightarrow> \<exists>r. alloc t s = Some r"
    and alloc_fresh: "ok L s \<Longrightarrow> alloc t s = Some (Some x, s') \<Longrightarrow> x \<notin> L \<and> ok (insert x L) s'"
    and alloc_none: "ok L s \<Longrightarrow> alloc t s = Some (None, s') \<Longrightarrow> ok L s'"
    and give_back_ok: "ok L s \<Longrightarrow> x \<in> L \<Longrightarrow> ok (L - {x}) (give_back t x s)"
    and leave_ok: "ok L s \<Longrightarrow> ok L (leave t s)"

text \<open>A use of an allocator by several threads: each returns only what the program holds.\<close>

datatype ('t, 'o) pool_use = Get 't | Return 't 'o | Leave 't

fun use_step :: "('t \<Rightarrow> 's \<Rightarrow> ('o option \<times> 's) option) \<Rightarrow> ('t \<Rightarrow> 'o \<Rightarrow> 's \<Rightarrow> 's) \<Rightarrow>
    ('t \<Rightarrow> 's \<Rightarrow> 's) \<Rightarrow> ('t, 'o) pool_use \<Rightarrow> 'o list \<times> 's \<Rightarrow> ('o list \<times> 's) option" where
  "use_step alloc give_back leave (Get t) (held, s) = (case alloc t s of
       None \<Rightarrow> None
     | Some (None, s') \<Rightarrow> Some (held, s')
     | Some (Some x, s') \<Rightarrow> Some (held @ [x], s'))"
| "use_step alloc give_back leave (Return t x) (held, s) =
     (if x \<in> set held then Some (remove1 x held, give_back t x s) else Some (held, s))"
| "use_step alloc give_back leave (Leave t) (held, s) = Some (held, leave t s)"

context object_allocator
begin

lemma use_keeps_apart:
  "ok (set held) s \<Longrightarrow> distinct held \<Longrightarrow>
   \<exists>held' s'. foldM (use_step alloc give_back leave) us (held, s) = Some (held', s') \<and>
     distinct held' \<and> ok (set held') s'"
proof (induction us arbitrary: held s)
  case (Cons u us)
  show ?case
  proof (cases u)
    case (Get t)
    obtain r s1 where r: "alloc t s = Some (r, s1)" using alloc_returns [OF Cons.prems(1)] by (metis prod.exhaust)
    show ?thesis
    proof (cases r)
      case None
      then show ?thesis using Cons.IH [OF alloc_none [OF Cons.prems(1)] Cons.prems(2)] r Get by simp
    next
      case (Some x)
      then have "x \<notin> set held" "ok (set (held @ [x])) s1" using alloc_fresh [OF Cons.prems(1)] r by auto
      then show ?thesis using Cons.IH [of "held @ [x]" s1] Cons.prems(2) r Get Some by simp
    qed
  next
    case (Return t x)
    show ?thesis
    proof (cases "x \<in> set held")
      case True
      then have "ok (set (remove1 x held)) (give_back t x s)"
        using give_back_ok [OF Cons.prems(1)] Cons.prems(2) by (simp add: set_remove1_eq)
      then show ?thesis using Cons.IH Cons.prems(2) Return True by (simp add: distinct_remove1)
    qed (use Cons Return in simp)
  next
    case (Leave t)
    then show ?thesis using Cons.IH [OF leave_ok [OF Cons.prems(1)] Cons.prems(2)] by simp
  qed
qed simp

end

definition pool_give_back :: "nat \<Rightarrow> bool \<Rightarrow> nat \<Rightarrow> object \<Rightarrow> object_pool \<Rightarrow> object_pool" where
  "pool_give_back sz memory t x st = fst (return_object sz t memory x st)"

definition pool_leave :: "bool \<Rightarrow> nat \<Rightarrow> object_pool \<Rightarrow> object_pool" where
  "pool_leave memory t st = delete_local_pool t memory st"

interpretation op: object_allocator "pool_ok sz" "get_object sz" "pool_give_back sz memory" "pool_leave memory" for sz memory
proof unfold_locales
  fix L st t x st'
  assume ok: "pool_ok sz L st"
  note g = get_object_ok [OF ok, of t]
  show "\<exists>r. get_object sz t st = Some r" using g by auto
  show "get_object sz t st = Some (Some x, st') \<Longrightarrow> x \<notin> L \<and> pool_ok sz (insert x L) st'" using g by auto
  show "get_object sz t st = Some (None, st') \<Longrightarrow> pool_ok sz L st'" using g by auto
  show "x \<in> L \<Longrightarrow> pool_ok sz (L - {x}) (pool_give_back sz memory t x st)"
    using return_object_ok [OF ok] by (simp add: pool_give_back_def)
  show "pool_ok sz L (pool_leave memory t st)"
    using delete_local_pool_ok [OF ok] by (simp add: pool_leave_def)
qed

section \<open>Properties\<close>

text \<open>
  C17. The pool never hands out an object that is in use. For any number of threads and any
  sequence of requests, returns and thread exits in which only held objects are returned, and whether or not
  the allocation of chunks succeeds, every request terminates, the objects held at any moment
  are pairwise distinct, each lies within its block and was constructed there, no block ever
  holds more than its number of items, and no two threads fill the same block.
\<close>

theorem pool_hands_out_distinct_objects:
  "\<exists>held st. foldM (use_step (get_object sz) (pool_give_back sz memory) (pool_leave memory)) us ([], object_pool_init) = Some (held, st) \<and>
     distinct held \<and>
     (\<forall>b i. (b, i) \<in> set held \<longrightarrow> b < block_total st \<and> i < item_count st b \<and> item_count st b \<le> BLOCK_ITEM_COUNT sz) \<and>
     (\<forall>t u b. block_of st t = Some b \<and> block_of st u = Some b \<longrightarrow> t = u)"
proof -
  obtain held st where r: "foldM (use_step (get_object sz) (pool_give_back sz memory) (pool_leave memory)) us ([], object_pool_init) = Some (held, st)"
    "distinct held" "pool_ok sz (set held) st"
    using op.use_keeps_apart [of sz "[]" object_pool_init memory us] pool_ok_init by auto
  have "set held \<subseteq> constructed st" using pool_okD(3) [OF r(3), of Live] by simp
  then show ?thesis
    using r pool_okD(4,5) [OF r(3)] unfolding constructed_def blocks_ok_def by (intro exI conjI) blast+
qed

theorem pool_hands_out_distinct_objects_witness:
  "\<exists>held st. foldM (use_step (get_object 256) (pool_give_back 256 True) (pool_leave True)) [Get 0, Get 1, Return 1 (0, 0), Leave 1, Get 0]
      ([], object_pool_init) = Some (held, st) \<and> distinct held"
  using pool_hands_out_distinct_objects [of 256 True "[Get 0, Get 1, Return 1 (0, 0), Leave 1, Get 0]"] by blast

text \<open>
  Reuse is last in, first out. What a thread returns while its own chunk has room, or while the
  full chunk can be passed on, is what its next request gets, and the return reports success; the
  return fails, with the object given up, exactly when the chunk is full and no memory is left.
\<close>

theorem pool_reuses_last_returned:
  assumes "return_object sz t memory x st = (st', r)"
  shows "(r = 0 \<longrightarrow> (\<exists>st2. get_object sz t st' = Some (Some x, st2))) \<and>
    (r = 0 \<longleftrightarrow> length (free_of st t) < BLOCK_ITEM_COUNT sz \<or> memory) \<and> (r \<noteq> 0 \<longrightarrow> r = -1)"
proof -
  obtain lp st1 where g: "get_or_new_local_pool t st = (lp, st1)" by (metis prod.exhaust)
  have f: "free_of st t = cur_free lp"
    using g by (auto simp: get_or_new_local_pool_def free_of_def LocalPool_new_def split: option.splits)
  have ret: "local_return sz t memory x lp st1 = (st', r)" using assms g by (simp add: return_object_def)
  have "r = 0 \<longleftrightarrow> length (cur_free lp) < BLOCK_ITEM_COUNT sz \<or> memory" "r \<noteq> 0 \<longrightarrow> r = -1"
    using ret by (auto simp: local_return_def push_free_chunk_def free_chunk_item_count_eq split: if_splits)
  moreover have "\<exists>c. local_pool st' t = Some (lp\<lparr>cur_free := c @ [x]\<rparr>)" if "r = 0"
  proof (cases "length (cur_free lp) < free_chunk_item_count sz")
    case True
    then show ?thesis using ret by (intro exI [of _ "cur_free lp"]) (auto simp: local_return_def set_local_def)
  next
    case False
    then show ?thesis using ret that
      by (intro exI [of _ "[]"]) (auto simp: local_return_def push_free_chunk_def set_local_def split: if_splits)
  qed
  ultimately show ?thesis
    using f by (auto simp: get_object_def get_or_new_local_pool_def local_get_def)
qed

theorem pool_reuses_last_returned_witness:
  "snd (return_object 256 3 False (7, 9) object_pool_init) = 0 \<and>
   (\<exists>st2. get_object 256 3 (fst (return_object 256 3 False (7, 9) object_pool_init)) = Some (Some (7, 9), st2))"
proof -
  obtain st' r where r: "return_object 256 3 False (7, 9) object_pool_init = (st', r)" by (metis prod.exhaust)
  have "free_of object_pool_init 3 = []" by (simp add: object_pool_init_def free_of_def)
  then show ?thesis
    using pool_reuses_last_returned [OF r] BLOCK_ITEM_COUNT_bounds [of 256] by (simp add: r)
qed

end
