(* ===== verification/Agent_Group.thy ===== *)
theory Agent_Group
  imports Object_Pool Thread_Exit
begin

text \<open>
  \<^verbatim>\<open>src/common/agent_group.h\<close>: the identifiers of the reducers and the blocks of agents each
  thread keeps for them. One agent type is modelled; \<open>sz\<close> is \<open>sizeof(Agent)\<close>. A block is named by
  the number of its creation and an agent by its block and its place there. The mutex around the
  identifiers makes each operation on them atomic.
\<close>

section \<open>Identifiers\<close>

record agent_ids =
  agent_kinds :: int
  free_ids :: "int list"
  ids_errno :: int

definition agent_ids_init :: agent_ids where
  "agent_ids_init = \<lparr>agent_kinds = 0, free_ids = [], ids_errno = 0\<rparr>"

text \<open>\<open>AgentId\<close> is \<open>int\<close>; counting beyond its range is undefined.\<close>

definition create_new_agent :: "agent_ids \<Rightarrow> (int \<times> agent_ids) option" where
  "create_new_agent s =
     (if free_ids s \<noteq> [] then Some (last (free_ids s), s\<lparr>free_ids := butlast (free_ids s)\<rparr>)
      else if agent_kinds s < 2 ^ 31 - 1 then Some (agent_kinds s, s\<lparr>agent_kinds := agent_kinds s + 1\<rparr>)
      else None)"

definition destroy_agent :: "int \<Rightarrow> agent_ids \<Rightarrow> agent_ids \<times> int" where
  "destroy_agent i s =
     (if i < 0 \<or> i \<ge> agent_kinds s then (s\<lparr>ids_errno := EINVAL\<rparr>, -1) else (s\<lparr>free_ids := free_ids s @ [i]\<rparr>, 0))"

section \<open>The blocks of a thread\<close>

definition ELEMENT_PER_BLOCK :: "nat \<Rightarrow> nat" where
  "ELEMENT_PER_BLOCK sz = (4096 + sz - 1) div sz"

text \<open>
  \<open>tls_blocks\<close> is null or a vector of pointers to blocks; \<open>exit_registered\<close> says that
  \<open>destroy_tls_blocks\<close> was registered to run at the exit of the thread.
\<close>

record agent_blocks =
  tls_blocks :: "nat option list option"
  exit_registered :: bool
  blocks_made :: nat

definition agent_blocks_init :: agent_blocks where
  "agent_blocks_init = \<lparr>tls_blocks = None, exit_registered = False, blocks_made = 0\<rparr>"

definition block_at :: "nat \<Rightarrow> nat \<Rightarrow> nat \<times> nat" where
  "block_at b offset = (b, offset)"

definition get_tls_agent :: "nat \<Rightarrow> int \<Rightarrow> agent_blocks \<Rightarrow> (nat \<times> nat) option" where
  "get_tls_agent sz i s =
     (if i \<ge> 0 then
        case tls_blocks s of
          None \<Rightarrow> None
        | Some v \<Rightarrow>
            let block_id = nat i div ELEMENT_PER_BLOCK sz
            in if block_id < length v then
                 case v ! block_id of
                   Some tb \<Rightarrow> Some (block_at tb (nat i - block_id * ELEMENT_PER_BLOCK sz))
                 | None \<Rightarrow> None
               else None
      else None)"

text \<open>The vector after the \<open>resize\<close> that makes room for a block.\<close>

definition resize_for :: "nat \<Rightarrow> nat option list \<Rightarrow> nat option list" where
  "resize_for block_id v =
     (if block_id \<ge> length v then v @ replicate (max (block_id + 1) 32 - length v) None else v)"

definition get_or_create_tls_agent :: "nat \<Rightarrow> int \<Rightarrow> agent_blocks \<Rightarrow> (nat \<times> nat) option \<times> agent_blocks" where
  "get_or_create_tls_agent sz i s =
     (if i < 0 then (None, s)
      else
        let s = (if tls_blocks s = None then s\<lparr>tls_blocks := Some [], exit_registered := True\<rparr> else s);
            block_id = nat i div ELEMENT_PER_BLOCK sz;
            v = resize_for block_id (the (tls_blocks s))
        in case v ! block_id of
             Some tb \<Rightarrow> (Some (block_at tb (nat i - block_id * ELEMENT_PER_BLOCK sz)), s\<lparr>tls_blocks := Some v\<rparr>)
           | None \<Rightarrow>
               let new_block = blocks_made s;
                   v = v[block_id := Some new_block]
               in (Some (block_at new_block (nat i - block_id * ELEMENT_PER_BLOCK sz)),
                   s\<lparr>tls_blocks := Some v, blocks_made := new_block + 1\<rparr>))"

definition destroy_tls_blocks :: "agent_blocks \<Rightarrow> agent_blocks" where
  "destroy_tls_blocks s = (case tls_blocks s of None \<Rightarrow> s | Some v \<Rightarrow> s\<lparr>tls_blocks := None\<rparr>)"

section \<open>Identifiers in use are distinct\<close>

definition ids_ok :: "int set \<Rightarrow> agent_ids \<Rightarrow> bool" where
  "ids_ok L s \<longleftrightarrow> distinct (free_ids s) \<and> set (free_ids s) \<inter> L = {} \<and>
     set (free_ids s) \<union> L = {0..<agent_kinds s} \<and> 0 \<le> agent_kinds s"

lemma ids_ok_init: "ids_ok {} agent_ids_init"
  by (simp add: ids_ok_def agent_ids_init_def)

text \<open>The identifiers as an allocator; beyond the range of \<open>int\<close> nothing is handed out.\<close>

definition id_alloc :: "nat \<Rightarrow> agent_ids \<Rightarrow> (int option \<times> agent_ids) option" where
  "id_alloc t s = (case create_new_agent s of Some (i, s') \<Rightarrow> Some (Some i, s') | None \<Rightarrow> Some (None, s))"

definition id_give_back :: "nat \<Rightarrow> int \<Rightarrow> agent_ids \<Rightarrow> agent_ids" where
  "id_give_back t i s = fst (destroy_agent i s)"

lemma create_new_agent_ok:
  assumes "ids_ok L s" and "create_new_agent s = Some (i, s')"
  shows "i \<notin> L \<and> ids_ok (insert i L) s'"
proof (cases "free_ids s = []")
  case True
  then have "i = agent_kinds s" "s' = s\<lparr>agent_kinds := agent_kinds s + 1\<rparr>"
    using assms(2) by (auto simp: create_new_agent_def split: if_splits)
  then show ?thesis using assms(1) True by (auto simp: ids_ok_def)
next
  case False
  then obtain fs x where fs: "free_ids s = fs @ [x]" by (cases "free_ids s" rule: rev_cases) auto
  then have "i = x" "s' = s\<lparr>free_ids := fs\<rparr>" using assms(2) by (simp_all add: create_new_agent_def)
  then show ?thesis using assms(1) fs by (auto simp: ids_ok_def)
qed

interpretation ids: object_allocator ids_ok id_alloc id_give_back "\<lambda>_ s. s"
proof unfold_locales
  fix L s t i s'
  assume ok: "ids_ok L s"
  show "\<exists>r. id_alloc t s = Some r" by (simp add: id_alloc_def split: option.splits)
  show "id_alloc t s = Some (Some i, s') \<Longrightarrow> i \<notin> L \<and> ids_ok (insert i L) s'"
    using create_new_agent_ok [OF ok] by (auto simp: id_alloc_def split: option.splits)
  show "id_alloc t s = Some (None, s') \<Longrightarrow> ids_ok L s'"
    using ok by (auto simp: id_alloc_def split: option.splits)
  show "i \<in> L \<Longrightarrow> ids_ok (L - {i}) (id_give_back t i s)"
    using ok by (auto simp: ids_ok_def id_give_back_def destroy_agent_def)
qed

section \<open>Agents stay where they are\<close>

lemma resize_for_simps: "k < length (resize_for k v)"
    "j < length v \<Longrightarrow> j < length (resize_for k v) \<and> resize_for k v ! j = v ! j"
    "j < length (resize_for k v) \<Longrightarrow> resize_for k v ! j = Some b \<Longrightarrow> j < length v \<and> v ! j = Some b"
  by (auto simp: resize_for_def nth_append split: if_splits)

definition vector_of :: "agent_blocks \<Rightarrow> nat option list" where
  "vector_of s = (case tls_blocks s of Some v \<Rightarrow> v | None \<Rightarrow> [])"

text \<open>The vector after a request, and the answer.\<close>

lemma get_or_create_result:
  assumes "get_or_create_tls_agent sz i s = (r, s')" and "0 \<le> i"
    and "k = nat i div ELEMENT_PER_BLOCK sz" and "v = resize_for k (vector_of s)"
  shows "tls_blocks s' = Some (if v ! k = None then v[k := Some (blocks_made s)] else v) \<and>
    blocks_made s' = (if v ! k = None then blocks_made s + 1 else blocks_made s) \<and>
    r = Some (block_at (if v ! k = None then blocks_made s else the (v ! k)) (nat i - k * ELEMENT_PER_BLOCK sz))"
proof -
  have "the (tls_blocks (if tls_blocks s = None then s\<lparr>tls_blocks := Some [], exit_registered := True\<rparr> else s)) = vector_of s"
    by (auto simp: vector_of_def)
  then show ?thesis
    using assms by (auto simp: get_or_create_tls_agent_def Let_def split: option.splits)
qed

lemma get_or_create_then_get:
  assumes "get_or_create_tls_agent sz i s = (r, s')" and "0 \<le> i"
  shows "r \<noteq> None \<and> get_tls_agent sz i s' = r \<and> (\<forall>j. get_tls_agent sz j s \<noteq> None \<longrightarrow> get_tls_agent sz j s' = get_tls_agent sz j s)"
proof -
  define k v where "k = nat i div ELEMENT_PER_BLOCK sz" and "v = resize_for k (vector_of s)"
  define w where "w = (if v ! k = None then v[k := Some (blocks_made s)] else v)"
  have kv: "k < length v" unfolding v_def by (rule resize_for_simps)
  have res: "tls_blocks s' = Some w"
    "r = Some (block_at (if v ! k = None then blocks_made s else the (v ! k)) (nat i - k * ELEMENT_PER_BLOCK sz))"
    using get_or_create_result [OF assms k_def v_def] by (simp_all add: w_def)
  have "k < length w" "w ! k = Some (if v ! k = None then blocks_made s else the (v ! k))"
    using kv by (auto simp: w_def)
  then have "get_tls_agent sz i s' = r"
    using res assms(2) by (simp add: get_tls_agent_def Let_def k_def)
  moreover have "get_tls_agent sz j s' = get_tls_agent sz j s" if has: "get_tls_agent sz j s \<noteq> None" for j
  proof -
    let ?j = "nat j div ELEMENT_PER_BLOCK sz"
    obtain tb where tb: "0 \<le> j" "tls_blocks s = Some (vector_of s)" "?j < length (vector_of s)" "vector_of s ! ?j = Some tb"
      using has by (auto simp: get_tls_agent_def vector_of_def Let_def split: if_splits option.splits)
    have "?j < length v" "v ! ?j = Some tb" using resize_for_simps(2) [OF tb(3), of k] tb(4) by (simp_all add: v_def)
    then have "?j < length w" "w ! ?j = Some tb"
      by (cases "?j = k"; simp add: w_def nth_list_update)+
    then show ?thesis using tb res(1) by (simp add: get_tls_agent_def Let_def)
  qed
  ultimately show ?thesis using res(2) by simp
qed

text \<open>The blocks of a thread are pairwise different.\<close>

definition blocks_distinct :: "agent_blocks \<Rightarrow> bool" where
  "blocks_distinct s \<longleftrightarrow> (\<forall>v. tls_blocks s = Some v \<longrightarrow>
     (\<forall>k < length v. \<forall>b. v ! k = Some b \<longrightarrow> b < blocks_made s) \<and>
     (\<forall>k < length v. \<forall>l < length v. \<forall>b. v ! k = Some b \<and> v ! l = Some b \<longrightarrow> k = l))"

lemma blocks_distinct_create:
  assumes "blocks_distinct s" and "get_or_create_tls_agent sz i s = (r, s')"
  shows "blocks_distinct s'"
proof (cases "i < 0")
  case True
  then show ?thesis using assms by (simp add: get_or_create_tls_agent_def)
next
  case False
  define k v where "k = nat i div ELEMENT_PER_BLOCK sz" and "v = resize_for k (vector_of s)"
  have kv: "k < length v" unfolding v_def by (rule resize_for_simps)
  have old: "tls_blocks s = Some (vector_of s)" if "j < length v" "v ! j = Some b" for j b
    using resize_for_simps(3) [of j k "vector_of s" b] that by (auto simp: v_def vector_of_def split: option.splits)
  have fresh: "b < blocks_made s" if "j < length v" "v ! j = Some b" for j b
    using assms(1) old [OF that] resize_for_simps(3) [of j k "vector_of s" b] that
    unfolding blocks_distinct_def v_def by blast
  have inj: "j = l" if "j < length v" "v ! j = Some b" "l < length v" "v ! l = Some b" for j l b
    using assms(1) old [OF that(1,2)] resize_for_simps(3) [of j k "vector_of s" b]
      resize_for_simps(3) [of l k "vector_of s" b] that
    unfolding blocks_distinct_def v_def by blast
  note res = get_or_create_result [OF assms(2) _ k_def v_def]
  show ?thesis
  proof (cases "v ! k = None")
    case True
    let ?w = "v[k := Some (blocks_made s)]"
    have s': "tls_blocks s' = Some ?w" "blocks_made s' = blocks_made s + 1" using res True False by simp_all
    have w: "j < length v \<and> (if j = k then b = blocks_made s else v ! j = Some b)"
      if "j < length ?w" "?w ! j = Some b" for j b
      using that by (auto simp: nth_list_update split: if_splits)
    have "b < blocks_made s'" if "j < length ?w" "?w ! j = Some b" for j b
      using w [OF that] fresh [of j b] s'(2) by (auto split: if_splits)
    moreover have "j = l" if "j < length ?w" "?w ! j = Some b" "l < length ?w" "?w ! l = Some b" for j l b
      using w [OF that(1,2)] w [OF that(3,4)] fresh [of j b] fresh [of l b] inj [of j b l] by (auto split: if_splits)
    ultimately show ?thesis unfolding blocks_distinct_def using s'(1) by auto
  next
    case some: False
    then have "tls_blocks s' = Some v" "blocks_made s' = blocks_made s" using res False by auto
    then show ?thesis using fresh inj unfolding blocks_distinct_def by auto
  qed
qed

lemma get_tls_agent_Some:
  assumes "get_tls_agent sz i s = Some x"
  obtains v where "0 \<le> i" "tls_blocks s = Some v" "nat i div ELEMENT_PER_BLOCK sz < length v"
    "v ! (nat i div ELEMENT_PER_BLOCK sz) = Some (fst x)" "snd x = nat i mod ELEMENT_PER_BLOCK sz"
  using assms
  by (auto simp: get_tls_agent_def block_at_def Let_def minus_div_mult_eq_mod split: if_splits option.splits)

lemma get_tls_agent_inj:
  assumes "blocks_distinct s" and "get_tls_agent sz i s = Some x" and "get_tls_agent sz j s = Some x"
  shows "i = j"
proof -
  let ?e = "ELEMENT_PER_BLOCK sz"
  obtain v where v: "0 \<le> i" "tls_blocks s = Some v" "nat i div ?e < length v" "v ! (nat i div ?e) = Some (fst x)"
    "snd x = nat i mod ?e" using get_tls_agent_Some [OF assms(2)] by blast
  obtain u where u: "0 \<le> j" "tls_blocks s = Some u" "nat j div ?e < length u" "u ! (nat j div ?e) = Some (fst x)"
    "snd x = nat j mod ?e" using get_tls_agent_Some [OF assms(3)] by blast
  have "nat i div ?e = nat j div ?e" using assms(1) u v unfolding blocks_distinct_def by auto
  then have "nat i = nat j" using u(5) v(5) by (metis div_mult_mod_eq)
  then show ?thesis using u(1) v(1) by simp
qed

lemma ELEMENT_PER_BLOCK_pos: "0 < sz \<Longrightarrow> 0 < ELEMENT_PER_BLOCK sz"
  by (simp add: ELEMENT_PER_BLOCK_def div_greater_zero_iff)

text \<open>An agent lies in a block of the vector, which was made by the thread.\<close>

lemma get_tls_agent_in_block:
  assumes "blocks_distinct s" and "get_tls_agent sz i s = Some (b, off)" and "0 < sz"
  shows "b < blocks_made s \<and> off < ELEMENT_PER_BLOCK sz \<and> (\<exists>v. tls_blocks s = Some v \<and> Some b \<in> set v)"
proof -
  obtain v where v: "tls_blocks s = Some v" "nat i div ELEMENT_PER_BLOCK sz < length v"
    "v ! (nat i div ELEMENT_PER_BLOCK sz) = Some b" "off = nat i mod ELEMENT_PER_BLOCK sz"
    using get_tls_agent_Some [OF assms(2)] by auto
  then have "b < blocks_made s" using assms(1) unfolding blocks_distinct_def by blast
  then show ?thesis using v ELEMENT_PER_BLOCK_pos [OF assms(3)] nth_mem [OF v(2)] by auto
qed

lemma blocks_distinct_destroy: "blocks_distinct (destroy_tls_blocks s)"
  by (simp add: blocks_distinct_def destroy_tls_blocks_def split: option.split)

lemma blocks_distinct_init: "blocks_distinct agent_blocks_init"
  by (simp add: blocks_distinct_def agent_blocks_init_def)

section \<open>Properties\<close>

text \<open>
  Identifiers in use are distinct: for any sequence of creations, and destructions of
  identifiers in use, by any threads, the identifiers in use are pairwise different and lie
  between 0 and the number of kinds; all others below that number wait, once each, for reuse.
\<close>

theorem agent_ids_distinct:
  "\<exists>held s. foldM (use_step id_alloc id_give_back (\<lambda>_ s. s)) us ([], agent_ids_init) = Some (held, s) \<and>
     distinct held \<and> distinct (free_ids s) \<and> set held \<inter> set (free_ids s) = {} \<and>
     set held \<union> set (free_ids s) = {0..<agent_kinds s}"
proof -
  obtain held s where "foldM (use_step id_alloc id_give_back (\<lambda>_ s. s)) us ([], agent_ids_init) = Some (held, s)"
    "distinct held" "ids_ok (set held) s"
    using ids.use_keeps_apart [of "[]" agent_ids_init us] ids_ok_init by auto
  then show ?thesis by (auto simp: ids_ok_def)
qed

text \<open>
  C37. Agents have stable, separate addresses. A thread that asks for the agent of an identifier
  gets one, later lookups of the identifier find the same one, and making it moves no agent the
  thread already had, although the vector of blocks grows. If the blocks of the thread were
  different before they are so after it, and two identifiers never share an agent.
\<close>

theorem agents_stable_and_separate:
  assumes "get_or_create_tls_agent sz i s = (r, s')" and "0 \<le> i"
  shows "r \<noteq> None \<and> get_tls_agent sz i s' = r \<and>
    (\<forall>j. get_tls_agent sz j s \<noteq> None \<longrightarrow> get_tls_agent sz j s' = get_tls_agent sz j s) \<and>
    (blocks_distinct s \<longrightarrow> blocks_distinct s' \<and>
      (\<forall>j. 0 \<le> j \<and> get_tls_agent sz j s' = r \<longrightarrow> j = i))"
proof -
  note a = get_or_create_then_get [OF assms]
  have "j = i" if "blocks_distinct s'" and "0 \<le> j" "get_tls_agent sz j s' = r" for j
  proof -
    obtain x where "r = Some x" using a by auto
    with that a show ?thesis by (intro get_tls_agent_inj [OF that(1), of sz j x i]) simp_all
  qed
  then show ?thesis using a blocks_distinct_create [OF _ assms(1)] by blast
qed

theorem agents_stable_and_separate_witness:
  "let s = snd (get_or_create_tls_agent 64 5 agent_blocks_init);
       (r, s') = get_or_create_tls_agent 64 70 s
   in get_tls_agent 64 70 s' = r \<and> r \<noteq> None \<and> get_tls_agent 64 5 s' = get_tls_agent 64 5 s"
proof -
  obtain r0 s where s: "get_or_create_tls_agent 64 5 agent_blocks_init = (r0, s)" by (metis prod.exhaust)
  obtain r s' where s': "get_or_create_tls_agent 64 70 s = (r, s')" by (metis prod.exhaust)
  have "get_tls_agent 64 5 s \<noteq> None" using agents_stable_and_separate [OF s] by simp
  then show ?thesis using agents_stable_and_separate [OF s'] by (simp add: s s')
qed

end
