(* ===== verification/Reducer.thy ===== *)
theory Reducer
  imports "HOL-Library.Multiset" Linked_List Agent_Group
begin

text \<open>
  \<^verbatim>\<open>src/common/combiner.h\<close>, \<^verbatim>\<open>src/common/reducer.h\<close> and \<^verbatim>\<open>src/common/call_op_returning_void.h\<close>: values
  collected in one agent per thread and combined on demand. All combiners of one type share the
  identifiers and thread-local blocks of their agent group; a combiner is named by a number, an
  agent by its thread and its place in the thread's blocks. \<open>T\<close> is both the result and the element
  type, as in the only instantiation, \<open>Reducer\<close>. The operation may change memory of its own
  (\<open>CombineCollected\<close> links samples): \<open>world\<close>. A mutex makes each operation on one element, and
  each append to or removal from the list of agents, atomic; what other threads do between
  the iterations of the loops over the agents is an argument (\<open>others\<close>).
\<close>

section \<open>State\<close>

text \<open>An agent is given by its thread and what \<open>ThreadBlock::at\<close> returns there.\<close>

type_synonym agent_ref = "nat \<times> (nat \<times> nat)"

text \<open>The nodes of the lists of agents: the root in a combiner, or the node of an agent.\<close>

datatype node = Root nat | Node (agent_of: agent_ref)

record 'v AgentCombiner =
  combiner_id :: int
  global_result :: 'v
  result_identify :: 'v
  element_identify :: 'v

record ('v, 'w) group =
  group_ids :: agent_ids
  tls_of :: "nat \<Rightarrow> agent_blocks"
  nodes :: "node links"
  owner :: "agent_ref \<Rightarrow> nat option"
  element :: "agent_ref \<Rightarrow> 'v"
  combiners :: "nat \<Rightarrow> 'v AgentCombiner option"
  world :: 'w

type_synonym ('v, 'w) binary_op = "'v \<Rightarrow> 'v \<Rightarrow> 'w \<Rightarrow> 'v \<times> 'w"

definition call_op_returning_void :: "('v, 'w) binary_op \<Rightarrow> 'v \<Rightarrow> 'v \<Rightarrow> 'w \<Rightarrow> 'v \<times> 'w" where
  "call_op_returning_void opr v1 v2 w = opr v1 v2 w"

section \<open>Elements and agents\<close>

definition load :: "agent_ref \<Rightarrow> ('v, 'w) group \<Rightarrow> 'v" where
  "load a st = element st a"

definition store :: "agent_ref \<Rightarrow> 'v \<Rightarrow> ('v, 'w) group \<Rightarrow> ('v, 'w) group" where
  "store a new_value st = st\<lparr>element := (element st)(a := new_value)\<rparr>"

definition exchange :: "agent_ref \<Rightarrow> 'v \<Rightarrow> ('v, 'w) group \<Rightarrow> 'v \<times> ('v, 'w) group" where
  "exchange a new_value st = (element st a, st\<lparr>element := (element st)(a := new_value)\<rparr>)"

definition modify :: "('v, 'w) binary_op \<Rightarrow> agent_ref \<Rightarrow> 'v \<Rightarrow> ('v, 'w) group \<Rightarrow> ('v, 'w) group" where
  "modify opr a value2 st =
     (case call_op_returning_void opr (element st a) value2 (world st) of
        (x, w) \<Rightarrow> st\<lparr>element := (element st)(a := x), world := w\<rparr>)"

definition Agent_reset :: "agent_ref \<Rightarrow> 'v \<Rightarrow> nat option \<Rightarrow> ('v, 'w) group \<Rightarrow> ('v, 'w) group" where
  "Agent_reset a val c st = store a val (st\<lparr>owner := (owner st)(a := c)\<rparr>)"

section \<open>Combiners\<close>

text \<open>
  \<open>AgentCombiner::AgentCombiner\<close> for a new object \<open>c\<close>: an identifier is drawn, and the list of
  agents is constructed empty.
\<close>

definition AgentCombiner_new :: "'v \<Rightarrow> 'v \<Rightarrow> nat \<Rightarrow> ('v, 'w) group \<Rightarrow> ('v, 'w) group option" where
  "AgentCombiner_new result_id element_id c st = do {
     (i, ids) \<leftarrow> create_new_agent (group_ids st);
     Some (st\<lparr>group_ids := ids, nodes := LinkNode (Root c) (nodes st),
       combiners := (combiners st)(c := Some
         \<lparr>combiner_id = i, global_result = result_id, result_identify = result_id,
          element_identify = element_id\<rparr>)\<rparr>) }"

definition combiner_valid :: "'v AgentCombiner \<Rightarrow> bool" where
  "combiner_valid k \<longleftrightarrow> combiner_id k \<ge> 0"

text \<open>A new block of a thread: its agents are constructed, alone in their lists and without combiner.\<close>

definition ThreadBlock_new :: "nat \<Rightarrow> nat \<Rightarrow> nat \<Rightarrow> ('v, 'w) group \<Rightarrow> ('v, 'w) group" where
  "ThreadBlock_new sz t b st =
     (let fresh = (\<lambda>a. fst a = t \<and> fst (snd a) = b \<and> snd (snd a) < ELEMENT_PER_BLOCK sz);
          alone = (\<lambda>n m. case n of Root _ \<Rightarrow> m | Node a \<Rightarrow> if fresh a then n else m)
      in st\<lparr>nodes := \<lparr>prev_ptr = (\<lambda>n. alone n (prev_ptr (nodes st) n)),
                       next_ptr = (\<lambda>n. alone n (next_ptr (nodes st) n))\<rparr>,
            owner := (\<lambda>a. if fresh a then None else owner st a)\<rparr>)"

text \<open>The agent of an identifier in thread \<open>t\<close>, made when it is missing.\<close>

definition find_agent :: "nat \<Rightarrow> nat \<Rightarrow> int \<Rightarrow> ('v, 'w) group \<Rightarrow> (nat \<times> nat) option \<times> ('v, 'w) group" where
  "find_agent sz t i st =
     (case get_tls_agent sz i (tls_of st t) of
        Some x \<Rightarrow> (Some x, st)
      | None \<Rightarrow> (case Agent_Group.get_or_create_tls_agent sz i (tls_of st t) of (r, tb) \<Rightarrow>
          let b = blocks_made (tls_of st t);
              st = (if blocks_made tb = b then st else ThreadBlock_new sz t b st)
          in (r, st\<lparr>tls_of := (tls_of st)(t := tb)\<rparr>)))"

text \<open>\<open>AgentCombiner::get_or_create_tls_agent\<close>, called by thread \<open>t\<close>.\<close>

definition combiner_agent :: "nat \<Rightarrow> nat \<Rightarrow> nat \<Rightarrow> ('v, 'w) group \<Rightarrow> (agent_ref option \<times> ('v, 'w) group) option" where
  "combiner_agent sz t c st = do {
     k \<leftarrow> combiners st c;
     (case find_agent sz t (combiner_id k) st of
        (None, st) \<Rightarrow> Some (None, st)
      | (Some x, st) \<Rightarrow>
          if owner st (t, x) \<noteq> None then Some (Some (t, x), st)
          else let st = Agent_reset (t, x) (element_identify k) (Some c) st
               in Some (Some (t, x), st\<lparr>nodes := Append (Root c) (Node (t, x)) (nodes st)\<rparr>)) }"

text \<open>
  What another thread may do to the elements while the mutex of combiner \<open>c\<close> is held: modify its
  agent if it is in the list; a thread that would have to append an agent is blocked.
\<close>

definition registered :: "nat \<Rightarrow> nat \<Rightarrow> ('v, 'w) group \<Rightarrow> nat \<Rightarrow> agent_ref option" where
  "registered sz c st t =
     (case combiners st c of None \<Rightarrow> None | Some k \<Rightarrow>
        case get_tls_agent sz (combiner_id k) (tls_of st t) of
          Some x \<Rightarrow> if owner st (t, x) = Some c then Some (t, x) else None
        | None \<Rightarrow> None)"

definition modify_by :: "nat \<Rightarrow> ('v, 'w) binary_op \<Rightarrow> nat \<Rightarrow> nat \<times> 'v \<Rightarrow> ('v, 'w) group \<Rightarrow> ('v, 'w) group" where
  "modify_by sz opr c m st =
     (case registered sz c st (fst m) of Some a \<Rightarrow> modify opr a (snd m) st | None \<Rightarrow> st)"

definition meddle :: "nat \<Rightarrow> ('v, 'w) binary_op \<Rightarrow> nat \<Rightarrow> (nat \<times> 'v) list \<Rightarrow> ('v, 'w) group \<Rightarrow> ('v, 'w) group" where
  "meddle sz opr c ms st = fold (modify_by sz opr c) ms st"

text \<open>\<open>combine_agents\<close>: the loop adds every element to a copy of the global result.\<close>

definition combine_body ::
  "nat \<Rightarrow> ('v, 'w) binary_op \<Rightarrow> (nat \<Rightarrow> (nat \<times> 'v) list) \<Rightarrow> nat \<Rightarrow> node \<Rightarrow> 'v \<times> nat \<times> ('v, 'w) group \<Rightarrow>
     'v \<times> nat \<times> ('v, 'w) group" where
  "combine_body sz opr others c n s = (case s of (ret, i, st) \<Rightarrow>
     let st = meddle sz opr c (others i) st;
         tls_value = load (agent_of n) st
     in case call_op_returning_void opr ret tls_value (world st) of
          (ret, w) \<Rightarrow> (ret, i + 1, st\<lparr>world := w\<rparr>))"

definition combine_agents ::
  "nat \<Rightarrow> ('v, 'w) binary_op \<Rightarrow> (nat \<Rightarrow> (nat \<times> 'v) list) \<Rightarrow> nat \<Rightarrow> ('v, 'w) group \<Rightarrow> ('v \<times> ('v, 'w) group) option" where
  "combine_agents sz opr others c st = do {
     k \<leftarrow> combiners st c;
     (ret, _, st) \<leftarrow> ring_for (\<lambda>s. next_ptr (nodes (snd (snd s)))) (combine_body sz opr others c) (Root c)
       (list_head (Root c) (nodes st)) (global_result k, 0, st);
     Some (ret, st) }"

text \<open>\<open>reset_all_agents\<close>: every element is taken out and replaced by the identity.\<close>

definition reset_body ::
  "nat \<Rightarrow> ('v, 'w) binary_op \<Rightarrow> (nat \<Rightarrow> (nat \<times> 'v) list) \<Rightarrow> nat \<Rightarrow> 'v \<Rightarrow> node \<Rightarrow> 'v \<times> nat \<times> ('v, 'w) group \<Rightarrow>
     'v \<times> nat \<times> ('v, 'w) group" where
  "reset_body sz opr others c element_id n s = (case s of (tmp, i, st) \<Rightarrow>
     let st = meddle sz opr c (others i) st
     in case exchange (agent_of n) element_id st of (prev, st) \<Rightarrow>
          case call_op_returning_void opr tmp prev (world st) of
            (tmp, w) \<Rightarrow> (tmp, i + 1, st\<lparr>world := w\<rparr>))"

definition reset_all_agents ::
  "nat \<Rightarrow> ('v, 'w) binary_op \<Rightarrow> (nat \<Rightarrow> (nat \<times> 'v) list) \<Rightarrow> nat \<Rightarrow> ('v, 'w) group \<Rightarrow> ('v \<times> ('v, 'w) group) option" where
  "reset_all_agents sz opr others c st = do {
     k \<leftarrow> combiners st c;
     let tmp = global_result k;
     let st = st\<lparr>combiners := (combiners st)(c := Some (k\<lparr>global_result := result_identify k\<rparr>))\<rparr>;
     (tmp, _, st) \<leftarrow> ring_for (\<lambda>s. next_ptr (nodes (snd (snd s))))
       (reset_body sz opr others c (element_identify k)) (Root c)
       (list_head (Root c) (nodes st)) (tmp, 0, st);
     Some (tmp, st) }"

text \<open>
  \<open>commit_and_erase\<close>: the element of an agent goes into the global result and the agent leaves the
  list. A combiner that no longer exists makes this undefined.
\<close>

definition commit_and_erase :: "('v, 'w) binary_op \<Rightarrow> nat \<Rightarrow> agent_ref \<Rightarrow> ('v, 'w) group \<Rightarrow> ('v, 'w) group option" where
  "commit_and_erase opr c a st = do {
     k \<leftarrow> combiners st c;
     (case call_op_returning_void opr (global_result k) (load a st) (world st) of
        (g, w) \<Rightarrow> Some (st\<lparr>combiners := (combiners st)(c := Some (k\<lparr>global_result := g\<rparr>)), world := w,
                            nodes := remove_from_list (Node a) (nodes st)\<rparr>)) }"

definition clear_body :: "'v \<Rightarrow> node \<Rightarrow> ('v, 'w) group \<Rightarrow> ('v, 'w) group" where
  "clear_body dflt n st =
     (let st = Agent_reset (agent_of n) dflt None st in st\<lparr>nodes := remove_from_list n (nodes st)\<rparr>)"

definition clear_all_agents :: "'v \<Rightarrow> nat \<Rightarrow> ('v, 'w) group \<Rightarrow> ('v, 'w) group option" where
  "clear_all_agents dflt c st =
     ring_for (\<lambda>st. next_ptr (nodes st)) (clear_body dflt) (Root c) (list_head (Root c) (nodes st)) st"

definition AgentCombiner_destruct :: "'v \<Rightarrow> nat \<Rightarrow> ('v, 'w) group \<Rightarrow> ('v, 'w) group option" where
  "AgentCombiner_destruct dflt c st = do {
     k \<leftarrow> combiners st c;
     st \<leftarrow> (if combiner_id k \<ge> 0 then do {
               st \<leftarrow> clear_all_agents dflt c st;
               Some (st\<lparr>group_ids := fst (destroy_agent (combiner_id k) (group_ids st))\<rparr>) }
             else Some st);
     Some (st\<lparr>combiners := (combiners st)(c := None)\<rparr>) }"

section \<open>The exit of a thread\<close>

text \<open>\<open>Agent::~Agent\<close>, then the agents of a block in reverse order, then the blocks of the thread.\<close>

definition Agent_destruct :: "('v, 'w) binary_op \<Rightarrow> agent_ref \<Rightarrow> ('v, 'w) group \<Rightarrow> ('v, 'w) group option" where
  "Agent_destruct opr a st = (case owner st a of
       None \<Rightarrow> Some st
     | Some c \<Rightarrow> do {
         st \<leftarrow> commit_and_erase opr c a st;
         Some (st\<lparr>owner := (owner st)(a := None)\<rparr>) })"

definition delete_block :: "nat \<Rightarrow> ('v, 'w) binary_op \<Rightarrow> nat \<Rightarrow> nat option \<Rightarrow> ('v, 'w) group \<Rightarrow> ('v, 'w) group option" where
  "delete_block sz opr t blk st = (case blk of
       None \<Rightarrow> Some st
     | Some b \<Rightarrow> foldM (\<lambda>i. Agent_destruct opr (t, (b, i))) (rev [0..<ELEMENT_PER_BLOCK sz]) st)"

definition exit_thread :: "nat \<Rightarrow> ('v, 'w) binary_op \<Rightarrow> nat \<Rightarrow> ('v, 'w) group \<Rightarrow> ('v, 'w) group option" where
  "exit_thread sz opr t st = (case tls_blocks (tls_of st t) of
       None \<Rightarrow> Some st
     | Some v \<Rightarrow> do {
         st \<leftarrow> foldM (delete_block sz opr t) v st;
         Some (st\<lparr>tls_of := (tls_of st)(t := destroy_tls_blocks (tls_of st t))\<rparr>) })"

section \<open>Reducers\<close>

definition Reducer_new :: "'v \<Rightarrow> nat \<Rightarrow> ('v, 'w) group \<Rightarrow> ('v, 'w) group option" where
  "Reducer_new identify c st = AgentCombiner_new identify identify c st"

text \<open>\<open>operator<<\<close>, called by thread \<open>t\<close>.\<close>

definition submit :: "nat \<Rightarrow> ('v, 'w) binary_op \<Rightarrow> nat \<Rightarrow> nat \<Rightarrow> 'v \<Rightarrow> ('v, 'w) group \<Rightarrow> ('v, 'w) group option" where
  "submit sz opr t c v st = do {
     (agent, st) \<leftarrow> combiner_agent sz t c st;
     (case agent of None \<Rightarrow> Some st | Some a \<Rightarrow> Some (modify opr a v st)) }"

definition get_value ::
  "nat \<Rightarrow> ('v, 'w) binary_op \<Rightarrow> (nat \<Rightarrow> (nat \<times> 'v) list) \<Rightarrow> nat \<Rightarrow> ('v, 'w) group \<Rightarrow> ('v \<times> ('v, 'w) group) option" where
  "get_value sz opr others c st = combine_agents sz opr others c st"

definition reset ::
  "nat \<Rightarrow> ('v, 'w) binary_op \<Rightarrow> (nat \<Rightarrow> (nat \<times> 'v) list) \<Rightarrow> nat \<Rightarrow> ('v, 'w) group \<Rightarrow> ('v \<times> ('v, 'w) group) option" where
  "reset sz opr others c st = reset_all_agents sz opr others c st"

text \<open>\<open>describe\<close>: \<open>is_string\<close> says that \<open>T\<close> is \<open>std::string\<close>, \<open>shown\<close> is the value as it is printed.\<close>

definition Reducer_describe :: "bool \<Rightarrow> bool \<Rightarrow> string \<Rightarrow> string" where
  "Reducer_describe is_string quote_string shown =
     (if is_string \<and> quote_string then CHR 0x22 # shown @ [CHR 0x22] else shown)"

definition group_init :: "('v \<Rightarrow> 'w \<Rightarrow> ('v, 'w) group)" where
  "group_init v w = \<lparr>group_ids = agent_ids_init, tls_of = (\<lambda>_. agent_blocks_init),
     nodes = \<lparr>prev_ptr = id, next_ptr = id\<rparr>, owner = (\<lambda>_. None), element = (\<lambda>_. v),
     combiners = (\<lambda>_. None), world = w\<rparr>"


section \<open>The structure of the agents\<close>

text \<open>Taking a node out of, and leaving alone, the lists it is not in.\<close>

lemma ring_remove_middle:
  assumes "ring l (r # map Node as)" and "a \<in> set as" and "\<forall>b. r \<noteq> Node b"
  shows "ring (remove_from_list (Node a) l) (r # map Node (remove1 a as))"
proof -
  obtain ys zs where as: "as = ys @ a # zs" "a \<notin> set ys" using split_list_first [OF assms(2)] by blast
  have "ring l (Node a # map Node zs @ r # map Node ys)"
    using ring_append_commute [of l "r # map Node ys" "Node a # map Node zs"] assms(1) by (simp add: as)
  then have "ring (remove_from_list (Node a) l) (map Node zs @ r # map Node ys)"
    by (rule remove_from_list_ring) simp
  then show ?thesis
    using ring_append_commute [of _ "map Node zs" "r # map Node ys"] as by (simp add: remove1_append)
qed

lemma ring_remove_other:
  assumes "ring l (r # map Node as)" and "a \<in> set as" and "ring l zs" and "set zs \<inter> set (r # map Node as) = {}"
  shows "ring (remove_from_list (Node a) l) zs"
proof -
  obtain ys us where as: "as = ys @ a # us" using split_list [OF assms(2)] by blast
  have "ring l (Node a # map Node us @ r # map Node ys)"
    using ring_append_commute [of l "r # map Node ys" "Node a # map Node us"] assms(1) by (simp add: as)
  then show ?thesis by (rule remove_from_list_frame [OF _ assms(3)]) (use assms(4) in \<open>auto simp: as\<close>)
qed

text \<open>
  The invariant: the identifiers of the combiners are in use and different, every agent that has
  a combiner is the one its thread finds under the identifier of that combiner, and the list of
  a combiner holds exactly the agents that point to it.
\<close>

definition lists_agents :: "node links \<Rightarrow> (agent_ref \<Rightarrow> nat option) \<Rightarrow> nat \<Rightarrow> agent_ref list \<Rightarrow> bool" where
  "lists_agents l own c as \<longleftrightarrow> ring l (Root c # map Node as) \<and> set as = {a. own a = Some c}"

definition group_ok :: "nat \<Rightarrow> ('v, 'w) group \<Rightarrow> bool" where
  "group_ok sz st \<longleftrightarrow>
     ids_ok (combiner_id ` ran (combiners st)) (group_ids st) \<and>
     (\<forall>c d k h. combiners st c = Some k \<and> combiners st d = Some h \<and> combiner_id k = combiner_id h \<longrightarrow> c = d) \<and>
     finite (dom (combiners st)) \<and> (\<forall>t. blocks_distinct (tls_of st t)) \<and>
     (\<forall>a c. owner st a = Some c \<longrightarrow> (\<exists>k. combiners st c = Some k \<and>
        get_tls_agent sz (combiner_id k) (tls_of st (fst a)) = Some (snd a))) \<and>
     (\<forall>c. combiners st c \<noteq> None \<longrightarrow> (\<exists>as. lists_agents (nodes st) (owner st) c as))"

lemma group_okD:
  assumes "group_ok sz st"
  shows "ids_ok (combiner_id ` ran (combiners st)) (group_ids st)"
    and "combiners st c = Some k \<Longrightarrow> combiners st d = Some h \<Longrightarrow> combiner_id k = combiner_id h \<Longrightarrow> c = d"
    and "finite (dom (combiners st))" and "blocks_distinct (tls_of st t)"
    and "owner st a = Some c \<Longrightarrow> \<exists>k. combiners st c = Some k \<and>
        get_tls_agent sz (combiner_id k) (tls_of st (fst a)) = Some (snd a)"
    and "combiners st c \<noteq> None \<Longrightarrow> \<exists>as. lists_agents (nodes st) (owner st) c as"
  using assms unfolding group_ok_def by blast+

lemma group_okI:
  assumes "ids_ok (combiner_id ` ran (combiners st)) (group_ids st)"
    and "\<And>c d k h. combiners st c = Some k \<Longrightarrow> combiners st d = Some h \<Longrightarrow> combiner_id k = combiner_id h \<Longrightarrow> c = d"
    and "finite (dom (combiners st))" and "\<And>t. blocks_distinct (tls_of st t)"
    and "\<And>a c. owner st a = Some c \<Longrightarrow> \<exists>k. combiners st c = Some k \<and>
        get_tls_agent sz (combiner_id k) (tls_of st (fst a)) = Some (snd a)"
    and "\<And>c. combiners st c \<noteq> None \<Longrightarrow> \<exists>as. lists_agents (nodes st) (owner st) c as"
  shows "group_ok sz st"
  using assms unfolding group_ok_def by blast

lemma lists_agents_distinct: "lists_agents l own c as \<Longrightarrow> distinct as"
  using ring_distinct by (fastforce simp: lists_agents_def distinct_map)

lemma lists_agents_disjoint:
  "lists_agents l own c as \<Longrightarrow> lists_agents l own d bs \<Longrightarrow> c \<noteq> d \<Longrightarrow>
     set (Root c # map Node as) \<inter> set (Root d # map Node bs) = {}"
  by (auto simp: lists_agents_def)

lemma id_nonneg: "group_ok sz st \<Longrightarrow> combiners st c = Some k \<Longrightarrow> 0 \<le> combiner_id k"
  using group_okD(1) [of sz st] by (fastforce simp: ids_ok_def ran_def)

lemma finite_owned: "group_ok sz st \<Longrightarrow> finite {a. owner st a \<noteq> None}"
proof -
  assume ok: "group_ok sz st"
  have "finite {a. owner st a = Some c}" for c
  proof (cases "combiners st c")
    case None
    then have "{a. owner st a = Some c} = {}" using group_okD(5) [OF ok] by force
    then show ?thesis by (simp only: finite.emptyI)
  next
    case (Some k)
    then obtain as where "lists_agents (nodes st) (owner st) c as" using group_okD(6) [OF ok, of c] by auto
    then have "{a. owner st a = Some c} = set as" by (simp add: lists_agents_def)
    then show ?thesis by simp
  qed
  moreover have "{a. owner st a \<noteq> None} \<subseteq> (\<Union>c \<in> dom (combiners st). {a. owner st a = Some c})"
    using group_okD(5) [OF ok] by fastforce
  ultimately show ?thesis using group_okD(3) [OF ok] by (meson finite_UN_I finite_subset)
qed

text \<open>Operations on values leave the structure alone.\<close>

lemma group_ok_values:
  assumes "group_ok sz st" and "group_ids st' = group_ids st" and "tls_of st' = tls_of st"
    and "nodes st' = nodes st" and "owner st' = owner st"
    and ids: "\<And>c. map_option combiner_id (combiners st' c) = map_option combiner_id (combiners st c)"
  shows "group_ok sz st'"
proof -
  have "combiner_id ` ran f = {i. \<exists>c. map_option combiner_id (f c) = Some i}" for f :: "nat \<Rightarrow> 'v AgentCombiner option"
    by (force simp: ran_def)
  from this [of "combiners st'"] this [of "combiners st"]
  have r: "combiner_id ` ran (combiners st') = combiner_id ` ran (combiners st)" using ids by (simp only:)
  have d: "dom (combiners st') = dom (combiners st)" using ids by (auto simp: dom_def) (metis option.map_disc_iff not_None_eq)+
  have same: "\<exists>k'. combiners st c = Some k' \<and> combiner_id k' = combiner_id k" if "combiners st' c = Some k" for c k
    using ids [of c] that by (cases "combiners st c") auto
  have kept: "\<exists>k'. combiners st' c = Some k' \<and> combiner_id k' = combiner_id k" if "combiners st c = Some k" for c k
    using ids [of c] that by (cases "combiners st' c") auto
  show ?thesis
  proof (rule group_okI)
    show "c = d" if "combiners st' c = Some k" "combiners st' d = Some h" "combiner_id k = combiner_id h" for c d k h
      using same [OF that(1)] same [OF that(2)] that(3) group_okD(2) [OF assms(1)] by metis
    show "\<exists>k. combiners st' c = Some k \<and> get_tls_agent sz (combiner_id k) (tls_of st' (fst a)) = Some (snd a)"
      if own: "owner st' a = Some c" for a c
    proof -
      obtain k where "combiners st c = Some k" "get_tls_agent sz (combiner_id k) (tls_of st (fst a)) = Some (snd a)"
        using group_okD(5) [OF assms(1), of a c] own assms(5) by auto
      with kept assms(3) show ?thesis by metis
    qed
    show "\<exists>as. lists_agents (nodes st') (owner st') c as" if "combiners st' c \<noteq> None" for c
    proof -
      have "combiners st c \<noteq> None" using ids [of c] that by (cases "combiners st c") auto
      then show ?thesis using group_okD(6) [OF assms(1), of c] assms(4,5) by simp
    qed
  qed (use assms r d group_okD(1,3,4) [OF assms(1)] in simp_all)
qed

lemma group_ok_init: "group_ok sz (group_init v w)"
  by (rule group_okI) (simp_all add: group_init_def ids_ok_init blocks_distinct_init)


section \<open>What the operations do to the structure\<close>

lemma AgentCombiner_new_ok:
  assumes ok: "group_ok sz st" and c: "combiners st c = None" and new: "AgentCombiner_new r e c st = Some st'"
  shows "\<exists>k. combiners st' = (combiners st)(c := Some k) \<and> global_result k = r \<and> result_identify k = r \<and>
    element_identify k = e \<and> owner st' = owner st \<and> element st' = element st \<and> world st' = world st \<and>
    tls_of st' = tls_of st \<and> group_ok sz st'"
proof -
  obtain i ids where i: "create_new_agent (group_ids st) = Some (i, ids)"
    using new by (auto simp: AgentCombiner_new_def split: Option.bind_splits)
  let ?k = "\<lparr>combiner_id = i, global_result = r, result_identify = r, element_identify = e\<rparr>"
  have st': "st' = st\<lparr>group_ids := ids, nodes := LinkNode (Root c) (nodes st),
      combiners := (combiners st)(c := Some ?k)\<rparr>"
    using new i by (simp add: AgentCombiner_new_def)
  note fresh = create_new_agent_ok [OF group_okD(1) [OF ok] i]
  have no_owner: "owner st a \<noteq> Some c" for a using group_okD(5) [OF ok, of a c] c by auto
  have "group_ok sz st'"
  proof (rule group_okI)
    show "ids_ok (combiner_id ` ran (combiners st')) (group_ids st')"
      using fresh c by (simp add: st' ran_map_upd)
    have new_id: "combiner_id h \<noteq> i" if "combiners st d = Some h" for d h
      using fresh that by (auto simp: ran_def)
    show "d = e" if "combiners st' d = Some k" "combiners st' e = Some h" "combiner_id k = combiner_id h" for d e k h
      using that new_id [of d k] new_id [of e h] group_okD(2) [OF ok, of d k e h] by (auto simp: st' split: if_splits)
    show "\<exists>k. combiners st' d = Some k \<and> get_tls_agent sz (combiner_id k) (tls_of st' (fst a)) = Some (snd a)"
      if "owner st' a = Some d" for a d
      using group_okD(5) [OF ok, of a d] no_owner [of a] that by (auto simp: st')
    show "\<exists>as. lists_agents (nodes st') (owner st') d as" if "combiners st' d \<noteq> None" for d
    proof (cases "d = c")
      case True
      then show ?thesis
        using no_owner by (intro exI [of _ "[]"]) (simp add: st' lists_agents_def LinkNode_ring)
    next
      case False
      then obtain as where "lists_agents (nodes st) (owner st) d as"
        using group_okD(6) [OF ok, of d] \<open>combiners st' d \<noteq> None\<close> by (auto simp: st')
      then show ?thesis
        using LinkNode_frame [of "nodes st" "Root d # map Node as" "Root c"] False
        by (intro exI [of _ as]) (auto simp: st' lists_agents_def)
    qed
  qed (use group_okD(3,4) [OF ok] in \<open>simp_all add: st'\<close>)
  then show ?thesis by (intro exI [of _ ?k]) (simp add: st')
qed

text \<open>Agents of blocks that are not made yet have no combiner, so making a block changes no list.\<close>

lemma owner_in_block:
  assumes "group_ok sz st" and "0 < sz" and "owner st (t, (b, i)) = Some c"
  shows "b < blocks_made (tls_of st t) \<and> i < ELEMENT_PER_BLOCK sz \<and>
    (\<exists>v. tls_blocks (tls_of st t) = Some v \<and> Some b \<in> set v)"
  using group_okD(5) [OF assms(1,3)] get_tls_agent_in_block [OF group_okD(4) [OF assms(1)] _ assms(2)] by auto

lemma ThreadBlock_new_ok:
  assumes ok: "group_ok sz st" and sz: "0 < sz" and b: "blocks_made (tls_of st t) \<le> b"
  shows "owner (ThreadBlock_new sz t b st) = owner st"
    and "lists_agents (nodes st) (owner st) c as \<Longrightarrow> lists_agents (nodes (ThreadBlock_new sz t b st)) (owner st) c as"
proof -
  have none: "owner st (t, (b, i)) = None" for i
    using owner_in_block [OF ok sz, of t b i] b by (cases "owner st (t, (b, i))") auto
  show "owner (ThreadBlock_new sz t b st) = owner st"
    using none by (auto simp: ThreadBlock_new_def Let_def fun_eq_iff)
  assume l: "lists_agents (nodes st) (owner st) c as"
  have "fst a \<noteq> t \<or> fst (snd a) \<noteq> b" if "a \<in> set as" for a
    using l that none by (cases a) (auto simp: lists_agents_def)
  then show "lists_agents (nodes (ThreadBlock_new sz t b st)) (owner st) c as"
    using l ring_cong [of "nodes st" "Root c # map Node as" "nodes (ThreadBlock_new sz t b st)"]
    by (fastforce simp: lists_agents_def ThreadBlock_new_def Let_def)
qed

lemma find_agent_ok:
  assumes ok: "group_ok sz st" and sz: "0 < sz" and i: "0 \<le> i"
  shows "\<exists>x st'. find_agent sz t i st = (Some x, st') \<and> group_ok sz st' \<and>
    get_tls_agent sz i (tls_of st' t) = Some x \<and> owner st' = owner st \<and> element st' = element st \<and>
    combiners st' = combiners st \<and> world st' = world st \<and> group_ids st' = group_ids st"
proof (cases "get_tls_agent sz i (tls_of st t)")
  case (Some x)
  then show ?thesis using ok by (simp add: find_agent_def)
next
  case None
  obtain r tb where r: "Agent_Group.get_or_create_tls_agent sz i (tls_of st t) = (r, tb)" by (metis prod.exhaust)
  note g = get_or_create_then_get [OF r i]
  then obtain x where x: "r = Some x" "get_tls_agent sz i tb = Some x" by auto
  let ?b = "blocks_made (tls_of st t)"
  define st1 where "st1 = (if blocks_made tb = ?b then st else ThreadBlock_new sz t ?b st)"
  have st1: "owner st1 = owner st" "element st1 = element st" "combiners st1 = combiners st" "world st1 = world st"
    "group_ids st1 = group_ids st" "tls_of st1 = tls_of st"
    "lists_agents (nodes st) (owner st) c as \<Longrightarrow> lists_agents (nodes st1) (owner st) c as" for c as
    using ThreadBlock_new_ok [OF ok sz, of t ?b] by (simp_all add: st1_def) (simp_all add: ThreadBlock_new_def Let_def)
  let ?st = "st1\<lparr>tls_of := (tls_of st1)(t := tb)\<rparr>"
  have find: "find_agent sz t i st = (Some x, ?st)"
    using None r x(1) by (simp add: find_agent_def st1_def Let_def)
  have "group_ok sz ?st"
  proof (rule group_okI)
    show "blocks_distinct (tls_of ?st u)" for u
      using group_okD(4) [OF ok] blocks_distinct_create [OF group_okD(4) [OF ok] r] by (simp add: st1)
    show "\<exists>k. combiners ?st c = Some k \<and> get_tls_agent sz (combiner_id k) (tls_of ?st (fst a)) = Some (snd a)"
      if own: "owner ?st a = Some c" for a c
    proof -
      obtain k where k: "combiners st c = Some k" "get_tls_agent sz (combiner_id k) (tls_of st (fst a)) = Some (snd a)"
        using group_okD(5) [OF ok, of a c] own by (auto simp: st1)
      then have "get_tls_agent sz (combiner_id k) (tls_of ?st (fst a)) = Some (snd a)"
        using g by (auto simp: st1)
      with k show ?thesis by (auto simp: st1)
    qed
    show "\<exists>as. lists_agents (nodes ?st) (owner ?st) c as" if "combiners ?st c \<noteq> None" for c
      using group_okD(6) [OF ok, of c] that st1 by auto
  qed (use group_okD(1,2,3) [OF ok] in \<open>auto simp: st1\<close>)
  then show ?thesis using find x(2) st1 by auto
qed

lemma combiner_agent_ok:
  assumes ok: "group_ok sz st" and sz: "0 < sz" and c: "combiners st c = Some k"
  shows "\<exists>a st'. combiner_agent sz t c st = Some (Some a, st') \<and> group_ok sz st' \<and> fst a = t \<and>
    owner st' = (owner st)(a := Some c) \<and> registered sz c st' t = Some a \<and>
    (owner st a = Some c \<and> element st' = element st \<or>
     owner st a = None \<and> element st' = (element st)(a := element_identify k)) \<and>
    combiners st' = combiners st \<and> world st' = world st \<and> group_ids st' = group_ids st"
proof -
  obtain x st1 where f: "find_agent sz t (combiner_id k) st = (Some x, st1)" and ok1: "group_ok sz st1"
    and x: "get_tls_agent sz (combiner_id k) (tls_of st1 t) = Some x"
    and st1: "owner st1 = owner st" "element st1 = element st" "combiners st1 = combiners st" "world st1 = world st"
      "group_ids st1 = group_ids st"
    using find_agent_ok [OF ok sz id_nonneg [OF ok c]] by blast
  let ?a = "(t, x)"
  show ?thesis
  proof (cases "owner st ?a")
    case None
    let ?st = "(Agent_reset ?a (element_identify k) (Some c) st1)\<lparr>nodes := Append (Root c) (Node ?a) (nodes st1)\<rparr>"
    have run: "combiner_agent sz t c st = Some (Some ?a, ?st)"
      using c f None by (simp add: combiner_agent_def st1 Agent_reset_def store_def)
    have fields: "owner ?st = (owner st)(?a := Some c)" "element ?st = (element st)(?a := element_identify k)"
      "combiners ?st = combiners st" "world ?st = world st" "group_ids ?st = group_ids st" "tls_of ?st = tls_of st1"
      "nodes ?st = insert_before (Node ?a) (Root c) (nodes st1)"
      by (simp_all add: Agent_reset_def store_def st1 Append_def)
    obtain as where as: "lists_agents (nodes st1) (owner st) c as"
      using group_okD(6) [OF ok1, of c] c by (auto simp: st1)
    have new: "Node ?a \<notin> set (Root c # map Node as)" using as None by (auto simp: lists_agents_def)
    have "group_ok sz ?st"
    proof (rule group_okI)
      show "blocks_distinct (tls_of ?st u)" for u using group_okD(4) [OF ok1] fields by simp
      show "\<exists>h. combiners ?st d = Some h \<and> get_tls_agent sz (combiner_id h) (tls_of ?st (fst b)) = Some (snd b)"
        if own: "owner ?st b = Some d" for b d
        unfolding fields using group_okD(5) [OF ok1, of b d] own x c unfolding fields st1 by (auto split: if_splits)
      show "\<exists>bs. lists_agents (nodes ?st) (owner ?st) d bs" if alive: "combiners ?st d \<noteq> None" for d
      proof (cases "d = c")
        case True
        then show ?thesis
          using as insert_before_ring [of "nodes st1" "Root c" "map Node as", OF _ new] None unfolding fields
          by (intro exI [of _ "as @ [?a]"]) (auto simp: lists_agents_def)
      next
        case False
        obtain bs where bs: "lists_agents (nodes st1) (owner st) d bs"
          using group_okD(6) [OF ok1, of d] alive unfolding fields st1 by auto
        have "set (Root d # map Node bs) \<inter> set (Node ?a # Root c # map Node as) = {}"
          using lists_agents_disjoint [OF bs as False] bs None by (auto simp: lists_agents_def)
        with insert_before_frame [of "nodes st1" "Root c" "map Node as", OF _ new] as bs
        have "ring (nodes ?st) (Root d # map Node bs)" unfolding fields lists_agents_def by blast
        then show ?thesis
          using bs None False unfolding fields by (intro exI [of _ bs]) (auto simp: lists_agents_def)
      qed
    qed (use group_okD(1,2,3) [OF ok1] fields st1 in auto)
    moreover have "registered sz c ?st t = Some ?a"
      using c x by (simp add: registered_def Agent_reset_def store_def st1)
    ultimately show ?thesis
      using run fields None by (intro exI [of _ ?a] exI [of _ ?st]) auto
  next
    case (Some d)
    obtain h where h: "combiners st1 d = Some h" "get_tls_agent sz (combiner_id h) (tls_of st1 t) = Some x"
      using group_okD(5) [OF ok1, of ?a d] Some by (auto simp: st1)
    have "combiner_id h = combiner_id k" by (rule get_tls_agent_inj [OF group_okD(4) [OF ok1] h(2) x])
    then have d: "d = c" using group_okD(2) [OF ok1 h(1), of c k] c by (simp add: st1)
    have "combiner_agent sz t c st = Some (Some ?a, st1)" "registered sz c st1 t = Some ?a"
      using c f x Some by (simp_all add: combiner_agent_def registered_def st1 d)
    moreover have "owner st1 = (owner st)(?a := Some c)" using Some by (simp add: st1 d fun_upd_idem)
    ultimately show ?thesis
      using ok1 st1 Some by (intro exI [of _ ?a] exI [of _ st1]) (simp add: d)
  qed
qed

lemma commit_and_erase_ok:
  assumes ok: "group_ok sz st" and a: "owner st a = Some c"
  shows "\<exists>k g w st'. combiners st c = Some k \<and> opr (global_result k) (element st a) (world st) = (g, w) \<and>
    Agent_destruct opr a st = Some st' \<and> group_ok sz st' \<and>
    combiners st' = (combiners st)(c := Some (k\<lparr>global_result := g\<rparr>)) \<and> world st' = w \<and>
    owner st' = (owner st)(a := None) \<and> element st' = element st \<and> tls_of st' = tls_of st \<and> group_ids st' = group_ids st"
proof -
  obtain k where k: "combiners st c = Some k" using group_okD(5) [OF ok a] by auto
  obtain g w where gw: "opr (global_result k) (element st a) (world st) = (g, w)" by (metis prod.exhaust)
  let ?st = "st\<lparr>combiners := (combiners st)(c := Some (k\<lparr>global_result := g\<rparr>)), world := w,
      nodes := remove_from_list (Node a) (nodes st), owner := (owner st)(a := None)\<rparr>"
  have run: "Agent_destruct opr a st = Some ?st"
    using a k gw by (simp add: Agent_destruct_def commit_and_erase_def call_op_returning_void_def load_def)
  have fields: "combiners ?st = (combiners st)(c := Some (k\<lparr>global_result := g\<rparr>))" "world ?st = w"
    "owner ?st = (owner st)(a := None)" "element ?st = element st" "tls_of ?st = tls_of st" "group_ids ?st = group_ids st"
    "nodes ?st = remove_from_list (Node a) (nodes st)" by simp_all
  obtain as where as: "lists_agents (nodes st) (owner st) c as" using group_okD(6) [OF ok, of c] k by auto
  let ?mid = "st\<lparr>nodes := remove_from_list (Node a) (nodes st), owner := (owner st)(a := None)\<rparr>"
  have "group_ok sz ?mid"
  proof (rule group_okI)
    show "\<exists>h. combiners ?mid d = Some h \<and> get_tls_agent sz (combiner_id h) (tls_of ?mid (fst b)) = Some (snd b)"
      if own: "owner ?mid b = Some d" for b d
      using group_okD(5) [OF ok, of b d] own by (auto split: if_splits)
    show "\<exists>bs. lists_agents (nodes ?mid) (owner ?mid) d bs" if alive: "combiners ?mid d \<noteq> None" for d
    proof (cases "d = c")
      case True
      have "ring (nodes ?mid) (Root c # map Node (remove1 a as))"
        using ring_remove_middle [of "nodes st" "Root c" as a] as a by (simp add: lists_agents_def)
      then show ?thesis using as lists_agents_distinct [OF as] True
        by (intro exI [of _ "remove1 a as"]) (auto simp: lists_agents_def set_remove1_eq)
    next
      case False
      obtain bs where bs: "lists_agents (nodes st) (owner st) d bs" using group_okD(6) [OF ok, of d] alive by auto
      have "set (Root d # map Node bs) \<inter> set (Root c # map Node as) = {}" by (rule lists_agents_disjoint [OF bs as False])
      with as bs a have "ring (nodes ?mid) (Root d # map Node bs)"
        using ring_remove_other [of "nodes st" "Root c" as a "Root d # map Node bs"] by (simp add: lists_agents_def)
      then show ?thesis using bs a False by (intro exI [of _ bs]) (auto simp: lists_agents_def)
    qed
  qed (use group_okD(1,3,4) [OF ok] in \<open>simp_all\<close>, use group_okD(2) [OF ok] in blast)
  then have "group_ok sz ?st" by (rule group_ok_values) (use k in auto)
  then show ?thesis using run fields k gw by blast
qed


lemma fold_clear_body:
  "\<exists>l. fold (clear_body dflt) (map Node as) st = st\<lparr>nodes := l,
     owner := (\<lambda>a. if a \<in> set as then None else owner st a), element := (\<lambda>a. if a \<in> set as then dflt else element st a)\<rparr>"
proof (induction as arbitrary: st)
  case Nil
  show ?case by (intro exI [of _ "nodes st"]) simp
next
  case (Cons a as)
  from Cons.IH [of "clear_body dflt (Node a) st"] obtain l where
    "fold (clear_body dflt) (map Node (a # as)) st = (clear_body dflt (Node a) st)\<lparr>nodes := l,
      owner := (\<lambda>b. if b \<in> set as then None else owner (clear_body dflt (Node a) st) b),
      element := (\<lambda>b. if b \<in> set as then dflt else element (clear_body dflt (Node a) st) b)\<rparr>" by auto
  moreover have "clear_body dflt (Node a) st = st\<lparr>nodes := remove_from_list (Node a) (nodes st),
      owner := (owner st)(a := None), element := (element st)(a := dflt)\<rparr>"
    by (simp add: clear_body_def Agent_reset_def store_def)
  ultimately show ?case
    by (intro exI [of _ l]) (simp add: fun_eq_iff)
qed

lemma AgentCombiner_destruct_ok:
  fixes st :: "('v, 'w) group"
  assumes ok: "group_ok sz st" and k: "combiners st c = Some k"
  shows "\<exists>st' :: ('v, 'w) group. AgentCombiner_destruct dflt c st = Some st' \<and> group_ok sz st' \<and>
    combiners st' = (combiners st)(c := None) \<and> world st' = world st \<and> tls_of st' = tls_of st \<and>
    owner st' = (\<lambda>a. if owner st a = Some c then None else owner st a) \<and>
    (\<forall>a. owner st a \<noteq> Some c \<longrightarrow> element st' a = element st a)"
proof -
  obtain as where as: "lists_agents (nodes st) (owner st) c as" using group_okD(6) [OF ok, of c] k by auto
  have owned: "set as = {a. owner st a = Some c}" using as by (simp add: lists_agents_def)
  have body: "\<And>p st :: ('v, 'w) group. True \<Longrightarrow> True \<and>
      nodes (clear_body dflt p st) = (if False then nodes st else remove_from_list p (nodes st))"
    by (simp add: clear_body_def Agent_reset_def store_def Let_def)
  have r: "ring (nodes st) (Root c # map Node as)" using as by (simp add: lists_agents_def)
  obtain l where l: "fold (clear_body dflt) (map Node as) st = st\<lparr>nodes := l,
      owner := (\<lambda>a. if a \<in> set as then None else owner st a), element := (\<lambda>a. if a \<in> set as then dflt else element st a)\<rparr>"
    using fold_clear_body [of dflt as st] by blast
  have run: "clear_all_agents dflt c st = Some (fold (clear_body dflt) (map Node as) st)"
    using ll.scan(1) [of "\<lambda>_. True" "clear_body dflt" nodes "\<lambda>_. False" st "Root c" "map Node as", OF body TrueI r]
    by (simp add: clear_all_agents_def list_head_def)
  have frame: "ring l zs" if "ring (nodes st) zs" "set zs \<inter> set (Root c # map Node as) = {}" for zs
    using ll.scan_frame [of "\<lambda>_. True" "clear_body dflt" nodes "\<lambda>_. False" st "Root c" "[]" "map Node as" zs]
      body r that l by simp
  let ?st = "st\<lparr>nodes := l, owner := (\<lambda>a. if owner st a = Some c then None else owner st a),
      element := (\<lambda>a. if owner st a = Some c then dflt else element st a),
      group_ids := fst (destroy_agent (combiner_id k) (group_ids st)), combiners := (combiners st)(c := None)\<rparr>"
  have res: "AgentCombiner_destruct dflt c st = Some ?st"
    using k id_nonneg [OF ok k] by (simp add: AgentCombiner_destruct_def run l owned)
  have ids: "combiner_id ` ran ((combiners st)(c := None)) = combiner_id ` ran (combiners st) - {combiner_id k}"
  proof (intro set_eqI iffI)
    fix x assume "x \<in> combiner_id ` ran ((combiners st)(c := None))"
    then obtain d h where d: "combiners st d = Some h" "d \<noteq> c" "x = combiner_id h"
      by (auto simp: ran_def split: if_splits)
    then have "x \<noteq> combiner_id k" using group_okD(2) [OF ok d(1) k] by auto
    then show "x \<in> combiner_id ` ran (combiners st) - {combiner_id k}" using d by (auto simp: ran_def)
  next
    fix x assume "x \<in> combiner_id ` ran (combiners st) - {combiner_id k}"
    then obtain d h where d: "combiners st d = Some h" "x = combiner_id h" "x \<noteq> combiner_id k"
      by (auto simp: ran_def)
    then have "((combiners st)(c := None)) d = Some h" using k by auto
    then show "x \<in> combiner_id ` ran ((combiners st)(c := None))" using d(2) by (auto simp only: ran_def)
  qed
  have "combiner_id k \<in> combiner_id ` ran (combiners st)" using k by (auto simp: ran_def)
  from ids.give_back_ok [OF group_okD(1) [OF ok] this] ids
  have "ids_ok (combiner_id ` ran (combiners ?st)) (group_ids ?st)" by (simp add: id_give_back_def)
  moreover have "\<exists>bs. lists_agents (nodes ?st) (owner ?st) d bs" if alive: "combiners ?st d \<noteq> None" for d
  proof -
    have d: "d \<noteq> c" "combiners st d \<noteq> None" using alive by (auto split: if_splits)
    obtain bs where bs: "lists_agents (nodes st) (owner st) d bs" using group_okD(6) [OF ok d(2)] by blast
    have "ring l (Root d # map Node bs)"
      using bs by (intro frame lists_agents_disjoint [OF bs as d(1)]) (simp add: lists_agents_def)
    then show ?thesis using bs d(1) by (intro exI [of _ bs]) (auto simp: lists_agents_def)
  qed
  ultimately have "group_ok sz ?st"
  proof (intro group_okI)
    show "d = e" if "combiners ?st d = Some h" "combiners ?st e = Some j" "combiner_id h = combiner_id j" for d e h j
      using that group_okD(2) [OF ok, of d h e j] by (auto split: if_splits)
    show "\<exists>h. combiners ?st d = Some h \<and> get_tls_agent sz (combiner_id h) (tls_of ?st (fst b)) = Some (snd b)"
      if own: "owner ?st b = Some d" for b d
      using group_okD(5) [OF ok, of b d] own by (auto split: if_splits)
  qed (use group_okD(3,4) [OF ok] in auto)
  then show ?thesis using res by (intro exI [of _ ?st]) auto
qed

text \<open>The exit of a thread destroys the agents of all its blocks, one after the other.\<close>

definition thread_agents :: "nat \<Rightarrow> nat \<Rightarrow> nat option list \<Rightarrow> agent_ref list" where
  "thread_agents sz t v = concat (map (\<lambda>blk. case blk of None \<Rightarrow> []
     | Some b \<Rightarrow> map (\<lambda>i. (t, (b, i))) (rev [0..<ELEMENT_PER_BLOCK sz])) v)"

lemma exit_thread_eq:
  "exit_thread sz opr t st = (case tls_blocks (tls_of st t) of
       None \<Rightarrow> Some st
     | Some v \<Rightarrow> do {
         st \<leftarrow> foldM (Agent_destruct opr) (thread_agents sz t v) st;
         Some (st\<lparr>tls_of := (tls_of st)(t := destroy_tls_blocks (tls_of st t))\<rparr>) })"
proof -
  have "delete_block sz opr t = (\<lambda>blk. foldM (Agent_destruct opr) (case blk of None \<Rightarrow> []
      | Some b \<Rightarrow> map (\<lambda>i. (t, (b, i))) (rev [0..<ELEMENT_PER_BLOCK sz])))"
    by (intro ext) (auto simp: delete_block_def foldM_map split: option.splits)
  then have "foldM (delete_block sz opr t) v st = foldM (Agent_destruct opr) (thread_agents sz t v) st" for v
    by (simp only: thread_agents_def foldM_concat)
  then show ?thesis by (simp add: exit_thread_def split: option.split)
qed

lemma thread_agents_all:
  assumes "group_ok sz st" and "0 < sz" and "tls_blocks (tls_of st t) = Some v" and "owner st (t, x) \<noteq> None"
  shows "(t, x) \<in> set (thread_agents sz t v)"
proof -
  obtain b i c where x: "x = (b, i)" "owner st (t, (b, i)) = Some c" using assms(4) by (cases x) auto
  have "Some b \<in> set v" "i < ELEMENT_PER_BLOCK sz" using owner_in_block [OF assms(1,2) x(2)] assms(3) by auto
  then show ?thesis
    unfolding thread_agents_def x(1) by (intro in_set_concat_mapI [of "Some b"]) auto
qed

lemma thread_agents_fst: "a \<in> set (thread_agents sz t v) \<Longrightarrow> fst a = t"
  by (auto simp: thread_agents_def split: option.splits)

text \<open>Once no agent of the thread has a combiner, its blocks can go.\<close>

lemma group_ok_destroy_tls:
  assumes ok: "group_ok sz st" and none: "\<And>x. owner st (t, x) = None"
  shows "group_ok sz (st\<lparr>tls_of := (tls_of st)(t := destroy_tls_blocks (tls_of st t))\<rparr>)"
proof (rule group_okI)
  let ?st = "st\<lparr>tls_of := (tls_of st)(t := destroy_tls_blocks (tls_of st t))\<rparr>"
  show "blocks_distinct (tls_of ?st u)" for u
    using group_okD(4) [OF ok] blocks_distinct_destroy by simp
  show "\<exists>k. combiners ?st c = Some k \<and> get_tls_agent sz (combiner_id k) (tls_of ?st (fst a)) = Some (snd a)"
    if own: "owner ?st a = Some c" for a c
    using group_okD(5) [OF ok, of a c] own none [of "snd a"] by (cases "fst a = t") auto
  show "\<exists>as. lists_agents (nodes ?st) (owner ?st) c as" if "combiners ?st c \<noteq> None" for c
    using group_okD(6) [OF ok, of c] that by simp
qed (use group_okD(1,2,3) [OF ok] in auto)

end
