(* ===== verification/Reducer_Total.thy ===== *)
theory Reducer_Total
  imports Reducer
begin

text \<open>
  What the combiners promise: whatever was submitted to a combiner is in one of its values or was
  returned by a reset. The promise rests on a contract for the operation (locale \<open>combining\<close>),
  which the additions of numbers meet here and the linking of samples in \<open>Sample_Intake\<close>.
\<close>

section \<open>What the values of a group are worth\<close>

text \<open>The places of values: the result of a combiner, or the element of an agent with a combiner.\<close>

datatype slot = Global nat | Elem agent_ref

definition slots :: "('v, 'w) group \<Rightarrow> slot set" where
  "slots st = Global ` dom (combiners st) \<union> Elem ` {a. owner st a \<noteq> None}"

fun content :: "('v, 'w) group \<Rightarrow> slot \<Rightarrow> 'v" where
  "content st (Global c) = global_result (the (combiners st c))"
| "content st (Elem a) = element st a"

definition rest :: "('v, 'w) group \<Rightarrow> (slot \<Rightarrow> 'm) \<Rightarrow> slot set \<Rightarrow> ('v \<times> 'm) multiset" where
  "rest st val S = image_mset (\<lambda>s. (content st s, val s)) (mset_set (slots st - S))"

definition worths :: "('v, 'w) group \<Rightarrow> (slot \<Rightarrow> 'm) \<Rightarrow> ('v \<times> 'm) multiset" where
  "worths st val = rest st val {}"

text \<open>What the values of combiner \<open>c\<close> are worth together.\<close>

definition holdings :: "(agent_ref \<Rightarrow> nat option) \<Rightarrow> (slot \<Rightarrow> 'm :: comm_monoid_add) \<Rightarrow> nat \<Rightarrow> 'm" where
  "holdings own val c = val (Global c) + (\<Sum>a | own a = Some c. val (Elem a))"

lemma finite_slots: "group_ok sz st \<Longrightarrow> finite (slots st)"
  unfolding slots_def by (intro finite_UnI finite_imageI group_okD(3) finite_owned)

lemma rest_split:
  assumes "finite (slots st)" and "s \<in> slots st" and "s \<notin> S"
  shows "rest st val S = add_mset (content st s, val s) (rest st val (insert s S))"
proof -
  have "slots st - S = insert s (slots st - insert s S)" using assms by auto
  then have "mset_set (slots st - S) = add_mset s (mset_set (slots st - insert s S))"
    using assms(1) by (metis Diff_iff finite_Diff insertI1 mset_set.insert)
  then show ?thesis by (simp add: rest_def)
qed

lemma worths_split:
  "finite (slots st) \<Longrightarrow> s \<in> slots st \<Longrightarrow> worths st val = add_mset (content st s, val s) (rest st val {s})"
  unfolding worths_def by (simp add: rest_split)

lemma rest_cong:
  assumes "slots st' - S' = slots st - S"
    and "\<And>s. s \<in> slots st - S \<Longrightarrow> content st' s = content st s \<and> val' s = val s"
  shows "rest st' val' S' = rest st val S"
  unfolding rest_def assms(1)
  by (rule image_mset_cong) (use assms(2) in \<open>cases "finite (slots st - S)"; auto\<close>)

lemma rest_mono: "finite (slots st) \<Longrightarrow> S \<subseteq> S' \<Longrightarrow> rest st val S' \<subseteq># rest st val S"
  unfolding rest_def by (intro image_mset_subseteq_mono subset_imp_msubset_mset_set) auto

text \<open>One element gains or loses.\<close>

lemma sum_upd:
  fixes val :: "slot \<Rightarrow> 'm :: cancel_comm_monoid_add"
  assumes "finite A"
  shows "(\<Sum>a\<in>A. (val(Elem b := y)) (Elem a)) + (if b \<in> A then val (Elem b) else 0) =
    (\<Sum>a\<in>A. val (Elem a)) + (if b \<in> A then y else 0)"
proof (cases "b \<in> A")
  case True
  have "(\<Sum>a\<in>A - {b}. (val(Elem b := y)) (Elem a)) = (\<Sum>a\<in>A - {b}. val (Elem a))"
    by (rule sum.cong) auto
  then show ?thesis using sum.remove [OF assms True, of "\<lambda>a. (val(Elem b := y)) (Elem a)"]
      sum.remove [OF assms True, of "\<lambda>a. val (Elem a)"] True by (simp add: ac_simps)
next
  case False
  then have "(\<Sum>a\<in>A. (val(Elem b := y)) (Elem a)) = (\<Sum>a\<in>A. val (Elem a))" by (intro sum.cong) auto
  then show ?thesis using False by simp
qed

lemma holdings_upd:
  fixes val :: "slot \<Rightarrow> 'm :: cancel_comm_monoid_add"
  assumes "finite {a. own a \<noteq> None}"
  shows "holdings own (val(Elem b := y)) c + (if own b = Some c then val (Elem b) else 0) =
    holdings own val c + (if own b = Some c then y else 0)"
proof -
  have "finite {a. own a = Some c}" by (rule finite_subset [OF _ assms]) auto
  from sum_upd [OF this, of val b y] show ?thesis by (simp add: holdings_def ac_simps)
qed

lemma holdings_gain:
  fixes val :: "slot \<Rightarrow> 'm :: cancel_comm_monoid_add"
  assumes "finite {a. own a \<noteq> None}" and "own b = Some d"
  shows "holdings own (val(Elem b := val (Elem b) + x)) c = holdings own val c + (if c = d then x else 0)"
proof (cases "c = d")
  case True
  have "holdings own (val(Elem b := val (Elem b) + x)) c + val (Elem b) = (holdings own val c + x) + val (Elem b)"
    using holdings_upd [OF assms(1), of val b "val (Elem b) + x" c] assms(2) True by (simp add: ac_simps)
  then show ?thesis using True by (simp only: add_right_cancel simp_thms if_True)
next
  case False
  then show ?thesis using holdings_upd [OF assms(1), of val b "val (Elem b) + x" c] assms(2) by simp
qed

lemma holdings_cong:
  "val' (Global c) = val (Global c) \<Longrightarrow> (\<And>a. own' a = Some c \<longleftrightarrow> own a = Some c) \<Longrightarrow>
   (\<And>a. own a = Some c \<Longrightarrow> val' (Elem a) = val (Elem a)) \<Longrightarrow> holdings own' val' c = holdings own val c"
  by (simp add: holdings_def)

section \<open>The contract of an operation\<close>

text \<open>
  \<open>den w P\<close> says that in the world \<open>w\<close> the values in \<open>P\<close> are, side by side, worth what they are
  paired with. The operation on two of them yields one value worth both and leaves the others
  alone; the identity is worth nothing.
\<close>

locale combining =
  fixes opr :: "('v, 'w) binary_op" and ident :: 'v
    and den :: "'w \<Rightarrow> ('v \<times> 'm :: cancel_comm_monoid_add) multiset \<Rightarrow> bool"
  assumes den_ident: "den w P \<Longrightarrow> den w (add_mset (ident, 0) P)"
    and den_drop: "den w (add_mset p P) \<Longrightarrow> den w P"
    and den_join: "den w (add_mset (a, x) (add_mset (b, y) P)) \<Longrightarrow> opr a b w = (c, w') \<Longrightarrow>
      den w' (add_mset (c, x + y) P)"

definition accounts :: "('w \<Rightarrow> ('v \<times> 'm) multiset \<Rightarrow> bool) \<Rightarrow> ('v, 'w) group \<Rightarrow> (slot \<Rightarrow> 'm) \<Rightarrow>
    ('v \<times> 'm) multiset \<Rightarrow> bool" where
  "accounts den st val Q \<longleftrightarrow> den (world st) (worths st val + Q)"

definition identities :: "'v \<Rightarrow> ('v, 'w) group \<Rightarrow> bool" where
  "identities i st \<longleftrightarrow> (\<forall>c k. combiners st c = Some k \<longrightarrow> result_identify k = i \<and> element_identify k = i)"

lemma identitiesD: "identities i st \<Longrightarrow> combiners st c = Some k \<Longrightarrow> result_identify k = i \<and> element_identify k = i"
  by (simp add: identities_def)

text \<open>The modifications of others that are not blocked.\<close>

definition taken :: "nat \<Rightarrow> nat \<Rightarrow> ('v, 'w) group \<Rightarrow> (nat \<times> 'v) list \<Rightarrow> 'v list" where
  "taken sz c st ms = map snd (filter (\<lambda>m. registered sz c st (fst m) \<noteq> None) ms)"

lemma registered_cong:
  "combiners st' = combiners st \<Longrightarrow> tls_of st' = tls_of st \<Longrightarrow> owner st' = owner st \<Longrightarrow>
   registered sz c st' = registered sz c st"
  by (rule ext) (simp add: registered_def cong: option.case_cong)

lemma registered_owner: "registered sz c st t = Some a \<Longrightarrow> owner st a = Some c"
  by (auto simp: registered_def split: option.splits if_splits)

lemma taken_cong:
  "combiners st' = combiners st \<Longrightarrow> tls_of st' = tls_of st \<Longrightarrow> owner st' = owner st \<Longrightarrow>
   taken sz c st' ms = taken sz c st ms"
  by (simp add: taken_def registered_cong [of st' st])

lemma taken_append [simp]: "taken sz c st (ms @ ns) = taken sz c st ms @ taken sz c st ns"
  by (simp add: taken_def)

lemma taken_Nil [simp]: "taken sz c st [] = []"
  by (simp add: taken_def)

definition pairs :: "('v \<Rightarrow> 'm) \<Rightarrow> 'v list \<Rightarrow> ('v \<times> 'm) multiset" where
  "pairs worth vs = image_mset (\<lambda>v. (v, worth v)) (mset vs)"

lemma pairs_simps [simp]: "pairs worth [] = {#}" "pairs worth (v # vs) = add_mset (v, worth v) (pairs worth vs)"
    "pairs worth (us @ vs) = pairs worth us + pairs worth vs"
  by (simp_all add: pairs_def)

lemma slots_elements [simp]: "slots (st\<lparr>element := e, world := w\<rparr>) = slots st"
  by (simp add: slots_def)

text \<open>Operations that only change elements and the world keep the structure.\<close>

lemma group_ok_elements: "group_ok sz (st\<lparr>element := e, world := w\<rparr>) = group_ok sz st"
  using group_ok_values [of sz st "st\<lparr>element := e, world := w\<rparr>"]
    group_ok_values [of sz "st\<lparr>element := e, world := w\<rparr>" st] by auto

lemma modify_only: "\<exists>e w. modify opr a v st = st\<lparr>element := e, world := w\<rparr>"
  by (auto simp: modify_def split: prod.split)

lemma meddle_only: "\<exists>e w. meddle sz opr c ms st = st\<lparr>element := e, world := w\<rparr>"
proof (induction ms arbitrary: st)
  case Nil
  show ?case by (intro exI [of _ "element st"] exI [of _ "world st"]) (simp add: meddle_def)
next
  case (Cons m ms)
  have "\<exists>e w. modify_by sz opr c m st = st\<lparr>element := e, world := w\<rparr>"
  proof (cases "registered sz c st (fst m)")
    case None
    then show ?thesis by (intro exI [of _ "element st"] exI [of _ "world st"]) (simp add: modify_by_def)
  qed (use modify_only in \<open>auto simp: modify_by_def\<close>)
  then obtain e w where "modify_by sz opr c m st = st\<lparr>element := e, world := w\<rparr>" by blast
  moreover obtain e2 w2 where "meddle sz opr c ms (st\<lparr>element := e, world := w\<rparr>) = st\<lparr>element := e2, world := w2\<rparr>"
    using Cons.IH [of "st\<lparr>element := e, world := w\<rparr>"] by auto
  ultimately show ?case by (intro exI [of _ e2] exI [of _ w2]) (simp add: meddle_def)
qed


section \<open>The promise under the contract\<close>

context combining
begin

lemma accounts_modify:
  assumes fin: "finite (slots st)" and a: "owner st a = Some c"
    and acc: "accounts den st val (add_mset (v, x) Q)"
  shows "accounts den (modify opr a v st) (val(Elem a := val (Elem a) + x)) Q"
proof -
  have s: "Elem a \<in> slots st" using a by (simp add: slots_def)
  obtain z w where z: "opr (element st a) v (world st) = (z, w)" by (metis prod.exhaust)
  have m: "modify opr a v st = st\<lparr>element := (element st)(a := z), world := w\<rparr>"
    using z by (simp add: modify_def call_op_returning_void_def)
  have "den (world st) (add_mset (element st a, val (Elem a)) (add_mset (v, x) (rest st val {Elem a} + Q)))"
    using acc by (simp add: accounts_def worths_split [OF fin s] add_mset_commute)
  from den_join [OF this z] have "den w (add_mset (z, val (Elem a) + x) (rest st val {Elem a} + Q))" .
  moreover have "rest (modify opr a v st) (val(Elem a := val (Elem a) + x)) {Elem a} = rest st val {Elem a}"
  proof (rule rest_cong)
    show "content (modify opr a v st) s = content st s \<and> (val(Elem a := val (Elem a) + x)) s = val s"
      if "s \<in> slots st - {Elem a}" for s using that by (cases s) (auto simp: m)
  qed (simp add: m)
  moreover have "Elem a \<in> slots (modify opr a v st)" "finite (slots (modify opr a v st))" using s fin by (simp_all add: m)
  ultimately show ?thesis
    by (simp add: accounts_def worths_split) (simp add: m)
qed

lemma accounts_meddle:
  assumes "group_ok sz st" and "accounts den st val (pairs worth (taken sz c st ms) + Q)"
  shows "\<exists>val'. accounts den (meddle sz opr c ms st) val' Q \<and>
    holdings (owner st) val' c = holdings (owner st) val c + (\<Sum>v\<leftarrow>taken sz c st ms. worth v) \<and>
    (\<forall>d. d \<noteq> c \<longrightarrow> holdings (owner st) val' d = holdings (owner st) val d) \<and> (ms = [] \<longrightarrow> val' = val) \<and>
    (\<exists>inc. \<forall>s. val' s = val s + inc s)"
  using assms
proof (induction ms arbitrary: st val)
  case Nil
  then show ?case by (intro exI [of _ val]) (auto simp: meddle_def intro!: exI [of _ "\<lambda>_. 0"])
next
  case (Cons m ms)
  note fin = finite_slots [OF Cons.prems(1)] finite_owned [OF Cons.prems(1)]
  show ?case
  proof (cases "registered sz c st (fst m)")
    case None
    then have "meddle sz opr c (m # ms) st = meddle sz opr c ms st" "taken sz c st (m # ms) = taken sz c st ms"
      by (simp_all add: meddle_def modify_by_def taken_def)
    then show ?thesis using Cons.IH [OF Cons.prems(1), of val] Cons.prems(2) by auto
  next
    case (Some a)
    have own: "owner st a = Some c" by (rule registered_owner [OF Some])
    let ?st = "modify opr a (snd m) st" and ?x = "worth (snd m)"
    have step: "meddle sz opr c (m # ms) st = meddle sz opr c ms ?st"
      "taken sz c st (m # ms) = snd m # taken sz c st ms"
      using Some by (simp_all add: meddle_def modify_by_def taken_def del: not_None_eq)
    obtain e w where e: "?st = st\<lparr>element := e, world := w\<rparr>"
      using modify_only [of opr a "snd m" st] by blast
    have same: "taken sz c ?st ms = taken sz c st ms" "owner ?st = owner st" "group_ok sz ?st"
      unfolding e using Cons.prems(1) by (auto intro!: taken_cong simp: group_ok_elements)
    let ?val = "val(Elem a := val (Elem a) + ?x)"
    have "accounts den ?st ?val (pairs worth (taken sz c ?st ms) + Q)"
      using Cons.prems(2) by (intro accounts_modify [OF fin(1) own]) (simp add: step same)
    from Cons.IH [OF same(3) this] obtain val' where v: "accounts den (meddle sz opr c ms ?st) val' Q"
      "holdings (owner st) val' c = holdings (owner st) ?val c + (\<Sum>v\<leftarrow>taken sz c st ms. worth v)"
      "\<And>d. d \<noteq> c \<Longrightarrow> holdings (owner st) val' d = holdings (owner st) ?val d" "\<exists>inc. \<forall>s. val' s = ?val s + inc s"
      unfolding same by blast
    obtain inc where "\<forall>s. val' s = ?val s + inc s" using v(4) by blast
    then have grown: "\<exists>inc. \<forall>s. val' s = val s + inc s"
      by (intro exI [of _ "inc(Elem a := ?x + inc (Elem a))"]) (simp add: add.assoc)
    have "holdings (owner st) ?val d = holdings (owner st) val d + (if d = c then ?x else 0)" for d
      by (rule holdings_gain [OF fin(2) own])
    then show ?thesis using v(1-3) grown by (intro exI [of _ val']) (simp add: step ac_simps)
  qed
qed

text \<open>One iteration of the resetting loop moves the worth of an element into the result.\<close>

lemma accounts_take:
  assumes ok: "group_ok sz st" and a: "owner st a = Some c"
    and acc: "accounts den st val (add_mset (tmp, y) Q)"
    and op: "opr tmp (element st a) (world st) = (tmp', w)"
  shows "accounts den (st\<lparr>element := (element st)(a := ident), world := w\<rparr>) (val(Elem a := 0))
    (add_mset (tmp', y + val (Elem a)) Q)"
proof -
  note fin = finite_slots [OF ok]
  have s: "Elem a \<in> slots st" using a by (simp add: slots_def)
  let ?st = "st\<lparr>element := (element st)(a := ident), world := w\<rparr>"
  have "den (world st) (add_mset (tmp, y) (add_mset (element st a, val (Elem a)) (rest st val {Elem a} + Q)))"
    using acc by (simp add: accounts_def worths_split [OF fin s] add_mset_commute)
  from den_ident [OF den_join [OF this op]]
  have "den w (add_mset (ident, 0) (add_mset (tmp', y + val (Elem a)) (rest st val {Elem a} + Q)))" .
  moreover have "rest ?st (val(Elem a := 0)) {Elem a} = rest st val {Elem a}"
  proof (rule rest_cong)
    show "content ?st s = content st s \<and> (val(Elem a := 0)) s = val s" if "s \<in> slots st - {Elem a}" for s
      using that by (cases s) auto
  qed simp
  ultimately show ?thesis
    using worths_split [of ?st "Elem a" "val(Elem a := 0)"] s fin by (simp add: accounts_def add_mset_commute)
qed

lemma reset_body_accounts:
  assumes ok: "group_ok sz st" and own: "owner st a = Some c"
    and acc: "accounts den st val (add_mset (tmp, y) (pairs worth (taken sz c st (others i)) + Q))"
  obtains tmp' e w val' got inc where
    "reset_body sz opr others c ident (Node a) (tmp, i, st) = (tmp', Suc i, st\<lparr>element := e, world := w\<rparr>)"
    "accounts den (st\<lparr>element := e, world := w\<rparr>) val' (add_mset (tmp', y + val (Elem a) + got) Q)"
    "val (Elem a) + got + holdings (owner st) val' c = holdings (owner st) val c + (\<Sum>v\<leftarrow>taken sz c st (others i). worth v)"
    "\<And>d. d \<noteq> c \<Longrightarrow> holdings (owner st) val' d = holdings (owner st) val d"
    "\<And>s. s \<noteq> Elem a \<Longrightarrow> val' s = val s + inc s" "others i = [] \<Longrightarrow> got = 0 \<and> (\<forall>s. s \<noteq> Elem a \<longrightarrow> val' s = val s)"
proof -
  obtain e1 w1 where m: "meddle sz opr c (others i) st = st\<lparr>element := e1, world := w1\<rparr>"
    using meddle_only [of sz opr c "others i" st] by blast
  let ?st1 = "st\<lparr>element := e1, world := w1\<rparr>"
  have "accounts den st val (pairs worth (taken sz c st (others i)) + add_mset (tmp, y) Q)"
    using acc by (simp add: ac_simps)
  from accounts_meddle [OF ok this] obtain val1 where v1: "accounts den ?st1 val1 (add_mset (tmp, y) Q)"
    "holdings (owner st) val1 c = holdings (owner st) val c + (\<Sum>v\<leftarrow>taken sz c st (others i). worth v)"
    "\<And>d. d \<noteq> c \<Longrightarrow> holdings (owner st) val1 d = holdings (owner st) val d" "others i = [] \<Longrightarrow> val1 = val"
    "\<exists>inc. \<forall>s. val1 s = val s + inc s"
    unfolding m by auto
  have "\<exists>inc. (\<forall>s. val1 s = val s + inc s) \<and> (others i = [] \<longrightarrow> inc = (\<lambda>_. 0))"
    using v1(4,5) by (cases "others i = []") auto
  then obtain inc where inc: "\<And>s. val1 s = val s + inc s" and none: "others i = [] \<Longrightarrow> inc = (\<lambda>_. 0)" by auto
  have own1: "owner ?st1 a = Some c" and ok1: "group_ok sz ?st1" using own ok by (simp_all add: group_ok_elements)
  obtain tmp' w where op: "opr tmp (element ?st1 a) (world ?st1) = (tmp', w)" by (metis prod.exhaust)
  let ?val = "val1(Elem a := 0)"
  have t: "holdings (owner st) ?val d + (if d = c then val1 (Elem a) else 0) = holdings (owner st) val1 d" for d
    using holdings_upd [OF finite_owned [OF ok], of val1 a 0 d] own by (auto split: if_splits)
  show ?thesis
  proof (rule that [of tmp' w "e1(a := ident)" ?val "inc (Elem a)" inc])
    show "reset_body sz opr others c ident (Node a) (tmp, i, st) = (tmp', Suc i, st\<lparr>element := e1(a := ident), world := w\<rparr>)"
      using op by (simp add: reset_body_def m exchange_def call_op_returning_void_def Let_def)
    show "accounts den (st\<lparr>element := e1(a := ident), world := w\<rparr>) ?val (add_mset (tmp', y + val (Elem a) + inc (Elem a)) Q)"
      using accounts_take [OF ok1 own1 v1(1) op] by (simp add: inc add.assoc)
    show "val (Elem a) + inc (Elem a) + holdings (owner st) ?val c =
        holdings (owner st) val c + (\<Sum>v\<leftarrow>taken sz c st (others i). worth v)"
      using t [of c] unfolding inc [symmetric] by (simp add: v1(2) add.commute)
    show "holdings (owner st) ?val d = holdings (owner st) val d" if "d \<noteq> c" for d using t [of d] v1(3) [OF that] that by simp
  qed (use inc none in auto)
qed

lemma reset_fold:
  assumes "group_ok sz st" and "\<forall>a\<in>set as. owner st a = Some c"
    and "accounts den st val (add_mset (tmp, y) (pairs worth (taken sz c st (concat (map others [i..<i + length as]))) + Q))"
  shows "\<exists>r y' val' e w. fold (reset_body sz opr others c ident) (map Node as) (tmp, i, st) =
      (r, i + length as, st\<lparr>element := e, world := w\<rparr>) \<and>
    accounts den (st\<lparr>element := e, world := w\<rparr>) val' (add_mset (r, y') Q) \<and>
    y' + holdings (owner st) val' c = y + holdings (owner st) val c +
      (\<Sum>v\<leftarrow>taken sz c st (concat (map others [i..<i + length as])). worth v) \<and>
    (\<forall>d. d \<noteq> c \<longrightarrow> holdings (owner st) val' d = holdings (owner st) val d) \<and>
    ((\<forall>j. others j = []) \<and> distinct as \<longrightarrow> y' = y + (\<Sum>a\<in>set as. val (Elem a))) \<and>
    (distinct as \<longrightarrow> (\<exists>got. y' = y + (\<Sum>a\<in>set as. val (Elem a)) + got))"
  using assms
proof (induction as arbitrary: st val tmp y i)
  case Nil
  then show ?case
    by (intro exI [of _ tmp] exI [of _ y] exI [of _ val] exI [of _ "element st"] exI [of _ "world st"])
      (auto intro: exI [of _ 0])
next
  case (Cons a as)
  note [simp del] = upt_Suc
  let ?later = "concat (map others [Suc i..<Suc i + length as])"
  have upt: "[i..<i + length (a # as)] = i # [Suc i..<Suc i + length as]"
    using upt_conv_Cons [of i "i + length (a # as)"] by simp
  then have later: "taken sz c st (concat (map others [i..<i + length (a # as)])) =
      taken sz c st (others i) @ taken sz c st ?later" by (simp add: taken_def)
  have acc: "accounts den st val (add_mset (tmp, y) (pairs worth (taken sz c st (others i)) + (pairs worth (taken sz c st ?later) + Q)))"
    using Cons.prems(3) unfolding later by (simp add: ac_simps)
  have own: "owner st a = Some c" using Cons.prems(2) by simp
  obtain tmp2 e2 w2 val2 got inc where b:
    "reset_body sz opr others c ident (Node a) (tmp, i, st) = (tmp2, Suc i, st\<lparr>element := e2, world := w2\<rparr>)"
    "accounts den (st\<lparr>element := e2, world := w2\<rparr>) val2
      (add_mset (tmp2, y + val (Elem a) + got) (pairs worth (taken sz c st ?later) + Q))"
    "val (Elem a) + got + holdings (owner st) val2 c = holdings (owner st) val c + (\<Sum>v\<leftarrow>taken sz c st (others i). worth v)"
    "\<And>d. d \<noteq> c \<Longrightarrow> holdings (owner st) val2 d = holdings (owner st) val d"
    "\<And>s. s \<noteq> Elem a \<Longrightarrow> val2 s = val s + inc s" "others i = [] \<Longrightarrow> got = 0 \<and> (\<forall>s. s \<noteq> Elem a \<longrightarrow> val2 s = val s)"
    by (rule reset_body_accounts [where others = others and i = i, OF Cons.prems(1) own acc]) (rule that)
  let ?st2 = "st\<lparr>element := e2, world := w2\<rparr>"
  have same: "taken sz c ?st2 ?later = taken sz c st ?later" by (rule taken_cong) simp_all
  have ok2: "group_ok sz ?st2" and own2: "\<forall>a\<in>set as. owner ?st2 a = Some c"
    using Cons.prems(1,2) by (simp_all add: group_ok_elements)
  have ow: "owner ?st2 = owner st" by simp
  from Cons.IH [OF ok2 own2 b(2) [folded same], unfolded ow same] obtain r y' val' e w where ih:
    "fold (reset_body sz opr others c ident) (map Node as) (tmp2, Suc i, ?st2) =
      (r, Suc i + length as, ?st2\<lparr>element := e, world := w\<rparr>)"
    "accounts den (?st2\<lparr>element := e, world := w\<rparr>) val' (add_mset (r, y') Q)"
    "y' + holdings (owner st) val' c = y + val (Elem a) + got + holdings (owner st) val2 c + (\<Sum>v\<leftarrow>taken sz c st ?later. worth v)"
    "\<forall>d. d \<noteq> c \<longrightarrow> holdings (owner st) val' d = holdings (owner st) val2 d"
    "(\<forall>j. others j = []) \<and> distinct as \<longrightarrow> y' = y + val (Elem a) + got + (\<Sum>a\<in>set as. val2 (Elem a))"
    "distinct as \<longrightarrow> (\<exists>got'. y' = y + val (Elem a) + got + (\<Sum>a\<in>set as. val2 (Elem a)) + got')"
    by blast
  have "y' + holdings (owner st) val' c = y + (val (Elem a) + got + holdings (owner st) val2 c) + (\<Sum>v\<leftarrow>taken sz c st ?later. worth v)"
    unfolding ih(3) by (simp add: ac_simps)
  then have sum: "y' + holdings (owner st) val' c = y + holdings (owner st) val c +
      (\<Sum>v\<leftarrow>taken sz c st (concat (map others [i..<i + length (a # as)])). worth v)"
    unfolding b(3) later by (simp add: ac_simps)
  have "(\<Sum>b\<in>set as. val2 (Elem b)) = (\<Sum>b\<in>set as. val (Elem b))" if "\<forall>j. others j = []" "distinct (a # as)"
    using that b(6) by (intro sum.cong) auto
  then have "y' = y + (\<Sum>a\<in>set (a # as). val (Elem a))" if none: "\<forall>j. others j = []" and d: "distinct (a # as)"
    using ih(5) none d b(6) by (simp add: ac_simps)
  moreover have "\<exists>got. y' = y + (\<Sum>a\<in>set (a # as). val (Elem a)) + got" if d: "distinct (a # as)"
  proof -
    obtain got' where "y' = y + val (Elem a) + got + (\<Sum>b\<in>set as. val2 (Elem b)) + got'" using ih(6) d by auto
    moreover have "(\<Sum>b\<in>set as. val2 (Elem b)) = (\<Sum>b\<in>set as. val (Elem b) + inc (Elem b))"
      using d b(5) by (intro sum.cong refl) (metis distinct.simps(2) slot.inject(2))
    ultimately have "y' = y + (\<Sum>b\<in>set (a # as). val (Elem b)) + (got + (\<Sum>b\<in>set as. inc (Elem b)) + got')"
      using d by (simp add: sum.distrib ac_simps)
    then show ?thesis by blast
  qed
  ultimately show ?case
    using ih(1,2,4) b(4) sum
    by (intro exI [of _ r] exI [of _ y'] exI [of _ val'] exI [of _ e] exI [of _ w]) (simp add: b(1))
qed

end


context combining
begin

text \<open>
  \<open>reset_all_agents\<close> returns a value worth everything the combiner held and what others added
  meanwhile, except what is left in its elements, which was added meanwhile; nothing is left if nobody
  interfered.
\<close>

lemma reset_accounts:
  assumes ok: "group_ok sz st" and k: "combiners st c = Some k" and ids: "identities ident st"
    and n: "n = card {a. owner st a = Some c}"
    and acc: "accounts den st val (pairs worth (taken sz c st (concat (map others [0..<n]))) + Q)"
  shows "\<exists>r y val' h e w. reset_all_agents sz opr others c st =
      Some (r, st\<lparr>combiners := (combiners st)(c := Some h), element := e, world := w\<rparr>) \<and>
    combiner_id h = combiner_id k \<and> group_ok sz (st\<lparr>combiners := (combiners st)(c := Some h), element := e, world := w\<rparr>) \<and>
    identities ident (st\<lparr>combiners := (combiners st)(c := Some h), element := e, world := w\<rparr>) \<and>
    accounts den (st\<lparr>combiners := (combiners st)(c := Some h), element := e, world := w\<rparr>) val' (add_mset (r, y) Q) \<and>
    y + holdings (owner st) val' c = holdings (owner st) val c +
      (\<Sum>v\<leftarrow>taken sz c st (concat (map others [0..<n])). worth v) \<and>
    (\<forall>d. d \<noteq> c \<longrightarrow> holdings (owner st) val' d = holdings (owner st) val d) \<and>
    ((\<forall>j. others j = []) \<longrightarrow> holdings (owner st) val' c = 0) \<and> (\<exists>got. y = holdings (owner st) val c + got)"
proof -
  note fin = finite_slots [OF ok]
  let ?h = "k\<lparr>global_result := result_identify k\<rparr>"
  let ?st0 = "st\<lparr>combiners := (combiners st)(c := Some ?h)\<rparr>" and ?val0 = "val(Global c := 0)"
  obtain as where as: "lists_agents (nodes st) (owner st) c as" using group_okD(6) [OF ok, of c] k by auto
  have owned: "set as = {a. owner st a = Some c}" using as by (simp add: lists_agents_def)
  have dis: "distinct as" by (rule lists_agents_distinct [OF as])
  have len: "length as = n" using distinct_card [OF dis] by (simp add: owned n)
  have ident0: "result_identify k = ident" "element_identify k = ident" using identitiesD [OF ids k] by auto
  have ok0: "group_ok sz ?st0" by (rule group_ok_values [OF ok]) (use k in auto)
  have own0: "\<forall>a\<in>set as. owner ?st0 a = Some c" by (simp add: owned)
  have slots0: "slots ?st0 = slots st" and s: "Global c \<in> slots st" using k by (auto simp: slots_def)
  have reg: "registered sz c ?st0 = registered sz c st" using k by (intro ext) (simp add: registered_def cong: option.case_cong)
  have rest0: "rest ?st0 ?val0 {Global c} = rest st val {Global c}"
  proof (rule rest_cong)
    show "content ?st0 s = content st s \<and> ?val0 s = val s" if "s \<in> slots st - {Global c}" for s
      using that by (cases s) auto
  qed (simp add: slots0)
  have "worths ?st0 ?val0 = add_mset (content ?st0 (Global c), ?val0 (Global c)) (rest ?st0 ?val0 {Global c})"
    by (rule worths_split) (simp_all only: slots0 fin s)
  then have w0: "worths ?st0 ?val0 = add_mset (ident, 0) (rest st val {Global c})"
    unfolding rest0 by (simp add: ident0)
  let ?P = "pairs worth (taken sz c st (concat (map others [0..<n])))"
  have "den (world st) (add_mset (global_result k, val (Global c)) (rest st val {Global c} + (?P + Q)))"
    using acc k by (simp add: accounts_def worths_split [OF fin s])
  from den_ident [OF this]
  have "accounts den ?st0 ?val0 (add_mset (global_result k, val (Global c)) (?P + Q))"
    by (simp add: accounts_def w0 add_mset_commute)
  moreover have tk: "taken sz c ?st0 ms = taken sz c st ms" for ms by (simp add: taken_def reg)
  moreover have "0 + length as = n" by (simp add: len)
  ultimately have "accounts den ?st0 ?val0 (add_mset (global_result k, val (Global c))
      (pairs worth (taken sz c ?st0 (concat (map others [0..<0 + length as]))) + Q))"
    by (simp only:)
  note rf = reset_fold [OF ok0 own0 this, unfolded tk add_0 len]
  obtain r y val' e w where f:
    "fold (reset_body sz opr others c ident) (map Node as) (global_result k, 0, ?st0) = (r, n, ?st0\<lparr>element := e, world := w\<rparr>)"
    "accounts den (?st0\<lparr>element := e, world := w\<rparr>) val' (add_mset (r, y) Q)"
    "y + holdings (owner ?st0) val' c = val (Global c) + holdings (owner ?st0) ?val0 c +
      (\<Sum>v\<leftarrow>taken sz c st (concat (map others [0..<n])). worth v)"
    "\<forall>d. d \<noteq> c \<longrightarrow> holdings (owner ?st0) val' d = holdings (owner ?st0) ?val0 d"
    "(\<forall>j. others j = []) \<and> distinct as \<longrightarrow> y = val (Global c) + (\<Sum>a\<in>set as. ?val0 (Elem a))"
    "distinct as \<longrightarrow> (\<exists>got. y = val (Global c) + (\<Sum>a\<in>set as. ?val0 (Elem a)) + got)"
    using rf by blast
  have old: "\<exists>got. y = holdings (owner st) val c + got"
    using f(6) dis by (auto simp: holdings_def owned)
  let ?body = "reset_body sz opr others c (element_identify k)"
  have body: "\<And>p s. True \<Longrightarrow> True \<and> nodes (snd (snd (?body p s))) =
      (if True then nodes (snd (snd s)) else remove_from_list p (nodes (snd (snd s))))"
  proof -
    fix p and s :: "'v \<times> nat \<times> ('v, 'w) group"
    obtain tmp i st1 where s: "s = (tmp, i, st1)" by (cases s)
    obtain e1 w1 where "meddle sz opr c (others i) st1 = st1\<lparr>element := e1, world := w1\<rparr>"
      using meddle_only [of sz opr c "others i" st1] by blast
    then show "True \<and> nodes (snd (snd (?body p s))) =
        (if True then nodes (snd (snd s)) else remove_from_list p (nodes (snd (snd s))))"
      by (simp add: s reset_body_def exchange_def Let_def split: prod.split)
  qed
  have "ring (nodes (snd (snd (global_result k, 0 :: nat, ?st0)))) (Root c # map Node as)"
    using as by (simp add: lists_agents_def)
  from ll.scan(1) [of "\<lambda>_. True" ?body "\<lambda>s. nodes (snd (snd s))" "\<lambda>_. True", OF body TrueI this]
  have run: "reset_all_agents sz opr others c st = Some (r, ?st0\<lparr>element := e, world := w\<rparr>)"
    using k f(1) by (simp add: reset_all_agents_def list_head_def ident0 Let_def)
  have h0: "holdings (owner st) ?val0 d = holdings (owner st) val d" if "d \<noteq> c" for d
    using that by (intro holdings_cong) auto
  have hc: "val (Global c) + holdings (owner st) ?val0 c = holdings (owner st) val c"
    by (simp add: holdings_def)
  have none: "holdings (owner st) val' c = 0" if "\<forall>j. others j = []"
  proof -
    have "y = holdings (owner st) val c" using f(5) that dis by (simp add: holdings_def owned)
    moreover have "concat (map others [0..<n]) = []" using that by simp
    then have "taken sz c st (concat (map others [0..<n])) = []" by (simp only: taken_Nil)
    then have "y + holdings (owner st) val' c = holdings (owner st) val c"
      using f(3) hc by simp
    ultimately show ?thesis by simp
  qed
  have ok': "group_ok sz (?st0\<lparr>element := e, world := w\<rparr>)" using ok0 by (simp only: group_ok_elements)
  have "identities ident (?st0\<lparr>element := e, world := w\<rparr>)" using ids k ident0 by (auto simp: identities_def)
  then show ?thesis
    using run f(2,3,4) h0 hc none ok' old
    by (intro exI [of _ r] exI [of _ y] exI [of _ val'] exI [of _ ?h] exI [of _ e] exI [of _ w]) simp
qed

end


context combining
begin

lemma den_subset: "den w P \<Longrightarrow> P' \<subseteq># P \<Longrightarrow> den w P'"
proof (induction "P - P'" arbitrary: P)
  case empty
  then show ?case by (metis add.right_neutral subset_mset.add_diff_inverse)
next
  case (add p R)
  have "P = P' + add_mset p R" using add.hyps(2) add.prems(2) by (metis subset_mset.add_diff_inverse)
  then have "den w (add_mset p (P' + R))" using add.prems(1) by simp
  from den_drop [OF this] have "den w (P' + R)" .
  then show ?case using add.hyps(1) [of "P' + R"] by simp
qed

text \<open>A new combiner holds nothing.\<close>

lemma create_accounts:
  assumes ok: "group_ok sz st" and c: "combiners st c = None" and ids: "identities ident st"
    and new: "Reducer_new ident c st = Some st'" and acc: "accounts den st val Q"
  shows "group_ok sz st' \<and> identities ident st' \<and> accounts den st' (val(Global c := 0)) Q \<and>
    holdings (owner st') (val(Global c := 0)) c = 0 \<and> dom (combiners st') = insert c (dom (combiners st)) \<and>
    (\<forall>d. d \<noteq> c \<longrightarrow> holdings (owner st') (val(Global c := 0)) d = holdings (owner st) val d) \<and> world st' = world st"
proof -
  obtain k where st': "combiners st' = (combiners st)(c := Some k)" "global_result k = ident"
    "result_identify k = ident" "element_identify k = ident" "owner st' = owner st" "element st' = element st"
    "world st' = world st" "group_ok sz st'"
    using AgentCombiner_new_ok [OF ok c new [unfolded Reducer_new_def]] by auto
  have none: "owner st a \<noteq> Some c" for a using group_okD(5) [OF ok, of a c] c by auto
  have s: "slots st' - {Global c} = slots st - {}" "Global c \<in> slots st'"
    using c by (auto simp: slots_def st')
  have "rest st' (val(Global c := 0)) {Global c} = rest st val {}"
  proof (rule rest_cong [OF s(1)])
    show "content st' s = content st s \<and> (val(Global c := 0)) s = val s" if "s \<in> slots st - {}" for s
      using that c by (cases s) (auto simp: st' slots_def)
  qed
  then have "worths st' (val(Global c := 0)) = add_mset (ident, 0) (worths st val)"
    using worths_split [OF finite_slots [OF st'(8)] s(2), of "val(Global c := 0)"] by (simp add: st' worths_def)
  then have "accounts den st' (val(Global c := 0)) Q"
    using acc den_ident by (simp add: accounts_def st')
  moreover have "holdings (owner st') (val(Global c := 0)) c = 0" using none by (simp add: holdings_def st')
  moreover have "holdings (owner st') (val(Global c := 0)) d = holdings (owner st) val d" if "d \<noteq> c" for d
    unfolding st' by (rule holdings_cong) (use that in auto)
  moreover have "identities ident st'" using ids st' by (auto simp: identities_def)
  ultimately show ?thesis using st' by auto
qed

text \<open>A destroyed combiner takes what it held with it, and nothing of the others.\<close>

lemma destroy_accounts:
  assumes ok: "group_ok sz st" and k: "combiners st c = Some k" and ids: "identities ident st"
    and acc: "accounts den st val Q"
  shows "\<exists>st'. AgentCombiner_destruct dflt c st = Some st' \<and> group_ok sz st' \<and> identities ident st' \<and>
    accounts den st' val Q \<and> dom (combiners st') = dom (combiners st) - {c} \<and>
    (\<forall>d. d \<noteq> c \<longrightarrow> holdings (owner st') val d = holdings (owner st) val d) \<and> world st' = world st"
proof -
  obtain st' where st': "AgentCombiner_destruct dflt c st = Some st'" "group_ok sz st'"
    "combiners st' = (combiners st)(c := None)" "world st' = world st"
    "owner st' = (\<lambda>a. if owner st a = Some c then None else owner st a)"
    "\<And>a. owner st a \<noteq> Some c \<Longrightarrow> element st' a = element st a"
    using AgentCombiner_destruct_ok [OF ok k] by blast
  have sub: "slots st' \<subseteq> slots st" by (auto simp: slots_def st' split: if_splits)
  have "content st' s = content st s" if "s \<in> slots st'" for s
    using that st'(6) by (cases s) (auto simp: slots_def st'(3,5) split: if_splits)
  then have "rest st' val {} = rest st val (slots st - slots st')"
    using sub by (intro rest_cong) auto
  then have "worths st' val \<subseteq># worths st val"
    using rest_mono [OF finite_slots [OF ok], of "{}" "slots st - slots st'" val] by (simp add: worths_def)
  then have "worths st' val + Q \<subseteq># worths st val + Q" by simp
  from den_subset [OF _ this] have "accounts den st' val Q" using acc by (simp add: accounts_def st'(4))
  moreover have "holdings (owner st') val d = holdings (owner st) val d" if "d \<noteq> c" for d
    using that by (intro holdings_cong) (auto simp: st'(5))
  moreover have "identities ident st'" using ids by (auto simp: identities_def st'(3) split: if_splits)
  ultimately show ?thesis using st' by (intro exI [of _ st']) auto
qed

text \<open>What is submitted arrives, exactly once, at the combiner it was submitted to.\<close>

lemma submit_accounts:
  assumes ok: "group_ok sz st" and sz: "0 < sz" and k: "combiners st c = Some k" and ids: "identities ident st"
    and acc: "accounts den st val (add_mset (v, x) Q)"
  shows "\<exists>st' val'. submit sz opr t c v st = Some st' \<and> group_ok sz st' \<and> identities ident st' \<and>
    accounts den st' val' Q \<and> dom (combiners st') = dom (combiners st) \<and>
    holdings (owner st') val' c = holdings (owner st) val c + x \<and> registered sz c st' t \<noteq> None \<and>
    (\<forall>d. d \<noteq> c \<longrightarrow> holdings (owner st') val' d = holdings (owner st) val d)"
proof -
  obtain a st1 where st1: "combiner_agent sz t c st = Some (Some a, st1)" "group_ok sz st1"
    "owner st1 = (owner st)(a := Some c)" "registered sz c st1 t = Some a"
    "owner st a = Some c \<and> element st1 = element st \<or> owner st a = None \<and> element st1 = (element st)(a := ident)"
    "combiners st1 = combiners st" "world st1 = world st"
    using combiner_agent_ok [OF ok sz k, of t] identitiesD [OF ids k] by auto
  note fin1 = finite_slots [OF st1(2)] finite_owned [OF st1(2)]
  have own: "owner st1 a = Some c" by (simp add: st1(3))
  obtain val1 where v1: "accounts den st1 val1 (add_mset (v, x) Q)"
    "\<And>d. holdings (owner st1) val1 d = holdings (owner st) val d"
  proof (cases "owner st a")
    case None
    let ?val = "val(Elem a := 0)"
    have s: "slots st1 - {Elem a} = slots st - {}" "Elem a \<in> slots st1"
      using None by (auto simp: slots_def st1(3,6))
    have "rest st1 ?val {Elem a} = rest st val {}"
    proof (rule rest_cong [OF s(1)])
      show "content st1 s = content st s \<and> ?val s = val s" if "s \<in> slots st - {}" for s
        using that None st1(5,6) by (cases s) (auto simp: slots_def)
    qed
    moreover have "element st1 a = ident" using st1(5) None by auto
    ultimately have "worths st1 ?val = add_mset (ident, 0) (worths st val)"
      using worths_split [OF fin1(1) s(2), of ?val] by (simp add: worths_def)
    then have "accounts den st1 ?val (add_mset (v, x) Q)"
      using den_ident [of "world st" "add_mset (v, x) (worths st val + Q)"] acc
      by (simp add: accounts_def st1(7) add_mset_commute)
    moreover have "holdings (owner st1) ?val d = holdings (owner st) val d" for d
    proof (cases "d = c")
      case True
      have f: "finite {b. owner st b = Some c}" by (rule finite_subset [OF _ finite_owned [OF ok]]) auto
      have "{b. owner st1 b = Some c} = insert a {b. owner st b = Some c}" by (auto simp: st1(3))
      moreover have "(\<Sum>b | owner st b = Some c. ?val (Elem b)) = (\<Sum>b | owner st b = Some c. val (Elem b))"
        using None by (intro sum.cong) auto
      ultimately show ?thesis using f None by (simp add: True holdings_def)
    next
      case False
      then have "(owner st1 b = Some d) = (owner st b = Some d)" for b using None by (cases "b = a") (auto simp: st1(3))
      moreover have "?val (Elem b) = val (Elem b)" if "owner st b = Some d" for b using that None by auto
      ultimately show ?thesis by (intro holdings_cong) simp_all
    qed
    ultimately show thesis by (rule that)
  next
    case (Some d)
    then have same: "element st1 = element st" "owner st1 = owner st" using st1(3,5) by (auto simp: fun_upd_idem)
    then have "slots st1 = slots st" by (simp add: slots_def st1(6))
    then have "rest st1 val {} = rest st val {}"
    proof (intro rest_cong)
      show "content st1 s = content st s \<and> val s = val s" for s by (cases s) (simp_all add: same st1(6))
    qed simp
    then have "accounts den st1 val (add_mset (v, x) Q)" using acc by (simp add: accounts_def worths_def st1(7))
    then show thesis by (rule that) (simp add: same)
  qed
  let ?st = "modify opr a v st1" and ?val = "val1(Elem a := val1 (Elem a) + x)"
  obtain e w where m: "?st = st1\<lparr>element := e, world := w\<rparr>" using modify_only [of opr a v st1] by blast
  have run: "submit sz opr t c v st = Some ?st" by (simp add: submit_def st1(1))
  have "accounts den ?st ?val Q" by (rule accounts_modify [OF fin1(1) own v1(1)])
  moreover have "holdings (owner st1) ?val d = holdings (owner st) val d + (if d = c then x else 0)" for d
    unfolding v1(2) [of d, symmetric] by (rule holdings_gain [OF fin1(2) own])
  moreover have "group_ok sz ?st" "identities ident ?st" "dom (combiners ?st) = dom (combiners st)" "owner ?st = owner st1"
    using st1(2,6) ids by (simp_all add: m group_ok_elements identities_def)
  moreover have "registered sz c ?st t = Some a"
    using registered_cong [of ?st st1 sz c] st1(4) by (simp add: m)
  ultimately show ?thesis using run by (intro exI [of _ ?st] exI [of _ ?val]) simp
qed

end


context combining
begin

text \<open>An exiting thread leaves what its agents held in the results of their combiners.\<close>

lemma Agent_destruct_accounts:
  assumes ok: "group_ok sz st" and ids: "identities ident st" and acc: "accounts den st val Q"
  shows "\<exists>st' val'. Agent_destruct opr a st = Some st' \<and> group_ok sz st' \<and> identities ident st' \<and>
    accounts den st' val' Q \<and> (\<forall>d. holdings (owner st') val' d = holdings (owner st) val d) \<and>
    dom (combiners st') = dom (combiners st) \<and> owner st' = (owner st)(a := None) \<and> tls_of st' = tls_of st"
proof (cases "owner st a")
  case None
  then show ?thesis
    using assms by (intro exI [of _ st] exI [of _ val]) (simp add: Agent_destruct_def fun_upd_idem)
next
  case (Some c)
  obtain k g w st' where k: "combiners st c = Some k" and op: "opr (global_result k) (element st a) (world st) = (g, w)"
    and st': "Agent_destruct opr a st = Some st'" "group_ok sz st'"
      "combiners st' = (combiners st)(c := Some (k\<lparr>global_result := g\<rparr>))" "world st' = w"
      "owner st' = (owner st)(a := None)" "element st' = element st" "tls_of st' = tls_of st"
    using commit_and_erase_ok [OF ok Some, of opr] by blast
  note fin = finite_slots [OF ok]
  let ?val = "val(Global c := val (Global c) + val (Elem a))"
  have sa: "Elem a \<in> slots st" using Some by (auto simp: slots_def)
  have sc: "Global c \<in> slots st" "Global c \<notin> {Elem a}" using k by (auto simp: slots_def)
  let ?R = "rest st val {Global c, Elem a}"
  have "worths st val = add_mset (element st a, val (Elem a)) (add_mset (global_result k, val (Global c)) ?R)"
    using worths_split [OF fin sa, of val] rest_split [OF fin sc, of val] k by simp
  then have "den (world st) (add_mset (global_result k, val (Global c)) (add_mset (element st a, val (Elem a)) (?R + Q)))"
    using acc by (simp add: accounts_def add_mset_commute)
  from den_join [OF this op] have "den w (add_mset (g, val (Global c) + val (Elem a)) (?R + Q))" .
  moreover have s': "slots st' - {Global c} = slots st - {Global c, Elem a}" "Global c \<in> slots st'"
    using k by (auto simp: slots_def st'(3,5) split: if_splits)
  have "rest st' ?val {Global c} = ?R"
  proof (rule rest_cong [OF s'(1)])
    show "content st' s = content st s \<and> ?val s = val s" if "s \<in> slots st - {Global c, Elem a}" for s
      using that by (cases s) (auto simp: st'(3,6))
  qed
  then have "worths st' ?val = add_mset (g, val (Global c) + val (Elem a)) ?R"
    using worths_split [OF finite_slots [OF st'(2)] s'(2), of ?val] by (simp add: st'(3))
  ultimately have "accounts den st' ?val Q" by (simp add: accounts_def st'(4))
  moreover have "holdings (owner st') ?val d = holdings (owner st) val d" for d
  proof (cases "d = c")
    case True
    have f: "finite {b. owner st b = Some c}" by (rule finite_subset [OF _ finite_owned [OF ok]]) auto
    have "{b. owner st' b = Some c} = {b. owner st b = Some c} - {a}" by (auto simp: st'(5))
    moreover have "(\<Sum>b\<in>{b. owner st b = Some c} - {a}. ?val (Elem b)) = (\<Sum>b\<in>{b. owner st b = Some c} - {a}. val (Elem b))"
      by (rule sum.cong) auto
    ultimately show ?thesis
      using sum.remove [OF f, of a "\<lambda>b. val (Elem b)"] Some by (simp add: True holdings_def ac_simps)
  next
    case False
    then have "(owner st' b = Some d) = (owner st b = Some d)" for b
      using Some by (cases "b = a") (auto simp: st'(5))
    then show ?thesis using False by (intro holdings_cong) simp_all
  qed
  moreover have "identities ident st'" using ids k by (auto simp: identities_def st'(3) split: if_splits)
  moreover have "dom (combiners st') = dom (combiners st)" using k by (auto simp: st'(3))
  ultimately show ?thesis using st' by (intro exI [of _ st'] exI [of _ ?val]) simp
qed

lemma exit_accounts:
  assumes ok: "group_ok sz st" and sz: "0 < sz" and ids: "identities ident st" and acc: "accounts den st val Q"
  shows "\<exists>st' val'. exit_thread sz opr t st = Some st' \<and> group_ok sz st' \<and> identities ident st' \<and>
    accounts den st' val' Q \<and> (\<forall>d. holdings (owner st') val' d = holdings (owner st) val d) \<and>
    dom (combiners st') = dom (combiners st) \<and> (\<forall>x. owner st' (t, x) = None)"
proof (cases "tls_blocks (tls_of st t)")
  case None
  have "owner st (t, x) = None" for x
    using owner_in_block [OF ok sz, of t "fst x" "snd x"] None by (cases "owner st (t, x)") auto
  then show ?thesis
    using assms None by (intro exI [of _ st] exI [of _ val]) (simp add: exit_thread_def)
next
  case (Some v)
  have "\<exists>st' val'. foldM (Agent_destruct opr) as st = Some st' \<and> group_ok sz st' \<and> identities ident st' \<and>
    accounts den st' val' Q \<and> (\<forall>d. holdings (owner st') val' d = holdings (owner st) val d) \<and>
    dom (combiners st') = dom (combiners st) \<and> owner st' = (\<lambda>a. if a \<in> set as then None else owner st a) \<and>
    tls_of st' = tls_of st" for as
    using ok ids acc
  proof (induction as arbitrary: st val)
    case (Cons a as)
    obtain st1 val1 where s1: "Agent_destruct opr a st = Some st1" "group_ok sz st1" "identities ident st1"
      "accounts den st1 val1 Q" "\<forall>d. holdings (owner st1) val1 d = holdings (owner st) val d"
      "dom (combiners st1) = dom (combiners st)" "owner st1 = (owner st)(a := None)" "tls_of st1 = tls_of st"
      using Agent_destruct_accounts [OF Cons.prems] by blast
    obtain st2 val2 where s2: "foldM (Agent_destruct opr) as st1 = Some st2" "group_ok sz st2" "identities ident st2"
      "accounts den st2 val2 Q" "\<forall>d. holdings (owner st2) val2 d = holdings (owner st1) val1 d"
      "dom (combiners st2) = dom (combiners st1)" "owner st2 = (\<lambda>a. if a \<in> set as then None else owner st1 a)"
      "tls_of st2 = tls_of st1"
      using Cons.IH [OF s1(2,3,4)] by blast
    have "owner st2 = (\<lambda>b. if b \<in> set (a # as) then None else owner st b)"
      unfolding s2(7) s1(7) by (rule ext) simp
    then show ?case
      using s1 s2 by (intro exI [of _ st2] exI [of _ val2]) simp
  qed (intro exI, auto)
  from this [of "thread_agents sz t v"] obtain st1 val1 where
    s1: "foldM (Agent_destruct opr) (thread_agents sz t v) st = Some st1" "group_ok sz st1" "identities ident st1"
      "accounts den st1 val1 Q" "\<forall>d. holdings (owner st1) val1 d = holdings (owner st) val d"
      "dom (combiners st1) = dom (combiners st)"
      "owner st1 = (\<lambda>a. if a \<in> set (thread_agents sz t v) then None else owner st a)" "tls_of st1 = tls_of st"
    by blast
  have none: "owner st1 (t, x) = None" for x
    using thread_agents_all [OF ok sz Some, of x] by (cases "owner st (t, x)") (auto simp: s1(7))
  let ?st = "st1\<lparr>tls_of := (tls_of st1)(t := destroy_tls_blocks (tls_of st1 t))\<rparr>"
  have fields: "owner ?st = owner st1" "combiners ?st = combiners st1" "element ?st = element st1" "world ?st = world st1"
    by simp_all
  then have "slots ?st = slots st1" by (simp add: slots_def)
  then have "rest ?st val1 {} = rest st1 val1 {}"
  proof (intro rest_cong)
    show "content ?st s = content st1 s \<and> val1 s = val1 s" for s by (cases s) (simp_all add: fields)
  qed simp
  then have "accounts den ?st val1 Q" using s1(4) by (simp add: accounts_def worths_def)
  moreover have "exit_thread sz opr t st = Some ?st" using Some s1(1,8) by (simp add: exit_thread_eq)
  moreover have "identities ident ?st" using s1(3) by (simp add: identities_def)
  ultimately show ?thesis
    using group_ok_destroy_tls [OF s1(2) none] s1(5,6) none
    by (intro exI [of _ ?st] exI [of _ val1]) simp
qed

end


section \<open>Sums\<close>

text \<open>An operation that adds; \<open>T\<close> is any type with a cancellative commutative addition.\<close>

definition add_op :: "('m :: cancel_comm_monoid_add, unit) binary_op" where
  "add_op a b w = (a + b, w)"

definition exact :: "unit \<Rightarrow> ('m \<times> 'm) multiset \<Rightarrow> bool" where
  "exact w P \<longleftrightarrow> (\<forall>p \<in># P. fst p = snd p)"

interpretation adder: combining add_op 0 exact
  by unfold_locales (auto simp: exact_def add_op_def)

text \<open>The value of a combiner of sums.\<close>

definition sum_of :: "('m :: cancel_comm_monoid_add, unit) group \<Rightarrow> nat \<Rightarrow> 'm" where
  "sum_of st c = holdings (owner st) (content st) c"

lemma accounts_exact:
  assumes "group_ok sz st"
  shows "accounts exact st val {#} \<longleftrightarrow> (\<forall>s \<in> slots st. content st s = val s)"
  using finite_slots [OF assms] by (auto simp: accounts_def exact_def worths_def rest_def)

lemma sum_of_eq:
  assumes "group_ok sz st" and "accounts exact st val {#}" and "combiners st c \<noteq> None"
  shows "sum_of st c = holdings (owner st) val c"
proof -
  have e: "s \<in> slots st \<Longrightarrow> content st s = val s" for s using assms(1,2) by (simp add: accounts_exact)
  have "Global c \<in> slots st" "\<And>a. owner st a = Some c \<Longrightarrow> Elem a \<in> slots st"
    using assms(3) by (auto simp: slots_def)
  then show ?thesis unfolding sum_of_def by (intro holdings_cong) (auto simp only: e)
qed

text \<open>Others only add, each time at most one of their values to the elements that are looked at.\<close>

lemma meddle_sum:
  assumes "finite A"
  shows "\<exists>seen. seen \<subseteq># mset (taken sz c st ms) \<and>
    (\<Sum>a\<in>A. element (meddle sz add_op c ms st) a) = (\<Sum>a\<in>A. element st a) + sum_mset seen"
proof (induction ms arbitrary: st)
  case Nil
  show ?case by (intro exI [of _ "{#}"]) (simp add: meddle_def)
next
  case (Cons m ms)
  let ?st = "modify_by sz add_op c m st"
  obtain e w where only: "?st = st\<lparr>element := e, world := w\<rparr>"
    using meddle_only [of sz add_op c "[m]" st] by (auto simp: meddle_def)
  have tk: "taken sz c ?st ms = taken sz c st ms" by (rule taken_cong) (simp_all add: only)
  obtain seen where s: "seen \<subseteq># mset (taken sz c st ms)"
    "(\<Sum>a\<in>A. element (meddle sz add_op c ms ?st) a) = (\<Sum>a\<in>A. element ?st a) + sum_mset seen"
    using Cons.IH [of ?st] unfolding tk by blast
  have step: "meddle sz add_op c (m # ms) st = meddle sz add_op c ms ?st" by (simp add: meddle_def)
  show ?case
  proof (cases "registered sz c st (fst m)")
    case None
    then have "?st = st" "taken sz c st (m # ms) = taken sz c st ms" by (simp_all add: modify_by_def taken_def)
    then show ?thesis using s step by auto
  next
    case (Some b)
    then have st: "?st = modify add_op b (snd m) st" and t: "taken sz c st (m # ms) = snd m # taken sz c st ms"
      by (simp_all add: modify_by_def taken_def del: not_None_eq)
    have el: "element ?st = (element st)(b := element st b + snd m)"
      unfolding st by (simp add: modify_def call_op_returning_void_def add_op_def)
    have "(\<Sum>a\<in>A. element ?st a) = (\<Sum>a\<in>A. element st a) + (if b \<in> A then snd m else 0)"
    proof (cases "b \<in> A")
      case True
      have "(\<Sum>a\<in>A - {b}. element ?st a) = (\<Sum>a\<in>A - {b}. element st a)" by (rule sum.cong) (auto simp: el)
      then show ?thesis
        using True sum.remove [OF assms True, of "element ?st"] sum.remove [OF assms True, of "element st"]
        by (simp add: el ac_simps)
    next
      case False
      then have "(\<Sum>a\<in>A. element ?st a) = (\<Sum>a\<in>A. element st a)" by (intro sum.cong) (auto simp: el)
      then show ?thesis using False by simp
    qed
    then show ?thesis
      using s by (intro exI [of _ "if b \<in> A then add_mset (snd m) seen else seen"])
        (auto simp: step t ac_simps intro: subset_mset.order_trans)
  qed
qed

lemma combine_fold:
  assumes "distinct as"
  shows "\<exists>seen e. seen \<subseteq># mset (taken sz c st (concat (map others [i..<i + length as]))) \<and>
    fold (combine_body sz add_op others c) (map Node as) (ret, i, st) =
      (ret + (\<Sum>a\<in>set as. element st a) + sum_mset seen, i + length as, st\<lparr>element := e\<rparr>) \<and>
    ((\<forall>j. others j = []) \<longrightarrow> e = element st)"
  using assms
proof (induction as arbitrary: st ret i)
  case Nil
  show ?case by (intro exI [of _ "{#}"] exI [of _ "element st"]) simp
next
  case (Cons a as)
  note [simp del] = upt_Suc
  let ?later = "concat (map others [Suc i..<Suc i + length as])"
  have "[i..<i + length (a # as)] = i # [Suc i..<Suc i + length as]"
    using upt_conv_Cons [of i "i + length (a # as)"] by simp
  then have later: "taken sz c st (concat (map others [i..<i + length (a # as)])) =
      taken sz c st (others i) @ taken sz c st ?later" by (simp add: taken_def)
  obtain e1 w1 where m: "meddle sz add_op c (others i) st = st\<lparr>element := e1, world := w1\<rparr>"
    using meddle_only [of sz add_op c "others i" st] by blast
  let ?st1 = "st\<lparr>element := e1\<rparr>"
  have m1: "meddle sz add_op c (others i) st = ?st1" by (simp add: m)
  have same1: "e1 = element st" if "\<forall>j. others j = []"
  proof -
    have "element (meddle sz add_op c (others i) st) = element st" using that by (simp add: meddle_def)
    then show ?thesis by (simp add: m1)
  qed
  obtain seen1 where s1: "seen1 \<subseteq># mset (taken sz c st (others i))"
    "(\<Sum>b\<in>set (a # as). e1 b) = (\<Sum>b\<in>set (a # as). element st b) + sum_mset seen1"
    using meddle_sum [of "set (a # as)" sz c st "others i"] by (auto simp: m1)
  have tk: "taken sz c ?st1 ?later = taken sz c st ?later" by (rule taken_cong) simp_all
  obtain seen2 e2 where s2: "seen2 \<subseteq># mset (taken sz c st ?later)"
    "fold (combine_body sz add_op others c) (map Node as) (ret + e1 a, Suc i, ?st1) =
      (ret + e1 a + (\<Sum>b\<in>set as. e1 b) + sum_mset seen2, Suc i + length as, st\<lparr>element := e2\<rparr>)"
    "(\<forall>j. others j = []) \<longrightarrow> e2 = e1"
    using Cons.IH [where st = ?st1 and ret = "ret + e1 a" and i = "Suc i"] Cons.prems unfolding tk by auto
  have "combine_body sz add_op others c (Node a) (ret, i, st) = (ret + e1 a, Suc i, ?st1)"
    by (simp add: combine_body_def m1 load_def call_op_returning_void_def add_op_def Let_def)
  moreover have "ret + e1 a + (\<Sum>b\<in>set as. e1 b) + sum_mset seen2 =
      ret + (\<Sum>b\<in>set (a # as). element st b) + sum_mset (seen1 + seen2)"
    using s1(2) Cons.prems by (simp add: ac_simps)
  ultimately have "fold (combine_body sz add_op others c) (map Node (a # as)) (ret, i, st) =
      (ret + (\<Sum>b\<in>set (a # as). element st b) + sum_mset (seen1 + seen2), i + length (a # as), st\<lparr>element := e2\<rparr>)"
    using s2(2) by simp
  moreover have "seen1 + seen2 \<subseteq># mset (taken sz c st (concat (map others [i..<i + length (a # as)])))"
    unfolding later using s1(1) s2(1) by (simp add: subset_mset.add_mono)
  ultimately show ?case using s2(3) same1 by blast
qed

lemma get_value_sum:
  assumes ok: "group_ok sz st" and k: "combiners st c = Some k" and n: "n = card {a. owner st a = Some c}"
  shows "\<exists>seen e. seen \<subseteq># mset (taken sz c st (concat (map others [0..<n]))) \<and>
    get_value sz add_op others c st = Some (sum_of st c + sum_mset seen, st\<lparr>element := e\<rparr>) \<and>
    ((\<forall>j. others j = []) \<longrightarrow> e = element st)"
proof -
  obtain as where as: "lists_agents (nodes st) (owner st) c as" using group_okD(6) [OF ok, of c] k by auto
  have owned: "set as = {a. owner st a = Some c}" using as by (simp add: lists_agents_def)
  have dis: "distinct as" by (rule lists_agents_distinct [OF as])
  have len: "length as = n" using distinct_card [OF dis] by (simp add: owned n)
  obtain seen e where f: "seen \<subseteq># mset (taken sz c st (concat (map others [0..<n])))"
    "fold (combine_body sz add_op others c) (map Node as) (global_result k, 0, st) =
      (global_result k + (\<Sum>a\<in>set as. element st a) + sum_mset seen, n, st\<lparr>element := e\<rparr>)"
    "(\<forall>j. others j = []) \<longrightarrow> e = element st"
    using combine_fold [OF dis, of sz c st others 0 "global_result k"] by (auto simp: len)
  let ?body = "combine_body sz add_op others c"
  have body: "\<And>p s. True \<Longrightarrow> True \<and> nodes (snd (snd (?body p s))) =
      (if True then nodes (snd (snd s)) else remove_from_list p (nodes (snd (snd s))))"
  proof -
    fix p and s :: "'a \<times> nat \<times> ('a, unit) group"
    obtain tmp i st1 where s: "s = (tmp, i, st1)" by (cases s)
    obtain e1 w1 where "meddle sz add_op c (others i) st1 = st1\<lparr>element := e1, world := w1\<rparr>"
      using meddle_only [of sz add_op c "others i" st1] by blast
    then show "True \<and> nodes (snd (snd (?body p s))) =
        (if True then nodes (snd (snd s)) else remove_from_list p (nodes (snd (snd s))))"
      by (simp add: s combine_body_def Let_def split: prod.split)
  qed
  have "ring (nodes (snd (snd (global_result k, 0 :: nat, st)))) (Root c # map Node as)"
    using as by (simp add: lists_agents_def)
  from ll.scan(1) [of "\<lambda>_. True" ?body "\<lambda>s. nodes (snd (snd s))" "\<lambda>_. True", OF body TrueI this]
  have "get_value sz add_op others c st =
      Some (global_result k + (\<Sum>a\<in>set as. element st a) + sum_mset seen, st\<lparr>element := e\<rparr>)"
    using k f(2) by (simp add: get_value_def combine_agents_def list_head_def)
  moreover have "sum_of st c = global_result k + (\<Sum>a\<in>set as. element st a)"
    by (simp add: sum_of_def holdings_def owned k)
  ultimately show ?thesis using f(1,3) by auto
qed


section \<open>Any use of the reducers\<close>

text \<open>
  What threads do with reducers, with what was submitted to and returned by the resets of each.
  Uses of a reducer that does not exist are left out, as is a creation beyond the identifiers.
\<close>

datatype 'v reducer_use =
  Create nat
  | Destroy nat
  | Submit nat nat 'v
  | Reset nat "nat \<Rightarrow> (nat \<times> 'v) list"
  | Exit nat

fun reducer_step :: "nat \<Rightarrow> 'v :: cancel_comm_monoid_add reducer_use \<Rightarrow> ('v, unit) group \<times> (nat \<Rightarrow> 'v) \<times> (nat \<Rightarrow> 'v) \<Rightarrow>
    (('v, unit) group \<times> (nat \<Rightarrow> 'v) \<times> (nat \<Rightarrow> 'v)) option" where
  "reducer_step sz (Create c) (st, sub, ret) =
     (if combiners st c \<noteq> None then Some (st, sub, ret)
      else case Reducer_new 0 c st of
          Some st' \<Rightarrow> Some (st', sub(c := 0), ret(c := 0))
        | None \<Rightarrow> Some (st, sub, ret))"
| "reducer_step sz (Destroy c) (st, sub, ret) =
     (if combiners st c = None then Some (st, sub, ret)
      else do { st' \<leftarrow> AgentCombiner_destruct 0 c st; Some (st', sub, ret) })"
| "reducer_step sz (Submit t c v) (st, sub, ret) =
     (if combiners st c = None then Some (st, sub, ret)
      else do { st' \<leftarrow> submit sz add_op t c v st; Some (st', sub(c := sub c + v), ret) })"
| "reducer_step sz (Reset c others) (st, sub, ret) =
     (if combiners st c = None then Some (st, sub, ret)
      else do {
        (r, st') \<leftarrow> reset sz add_op others c st;
        let added = taken sz c st (concat (map others [0..<card {a. owner st a = Some c}]));
        Some (st', sub(c := sub c + sum_list added), ret(c := ret c + r)) })"
| "reducer_step sz (Exit t) (st, sub, ret) = do { st' \<leftarrow> exit_thread sz add_op t st; Some (st', sub, ret) }"

definition balanced :: "nat \<Rightarrow> ('v :: cancel_comm_monoid_add, unit) group \<times> (nat \<Rightarrow> 'v) \<times> (nat \<Rightarrow> 'v) \<Rightarrow> bool" where
  "balanced sz s \<longleftrightarrow> (case s of (st, sub, ret) \<Rightarrow>
     group_ok sz st \<and> identities 0 st \<and> (\<exists>val. accounts exact st val {#} \<and>
       (\<forall>c. combiners st c \<noteq> None \<longrightarrow> ret c + holdings (owner st) val c = sub c)))"

lemma balancedI:
  "group_ok sz st \<Longrightarrow> identities 0 st \<Longrightarrow> accounts exact st val {#} \<Longrightarrow>
   (\<And>c. combiners st c \<noteq> None \<Longrightarrow> ret c + holdings (owner st) val c = sub c) \<Longrightarrow> balanced sz (st, sub, ret)"
  unfolding balanced_def split by blast

lemma accounts_exact_extend: "accounts exact st val Q \<Longrightarrow> accounts exact st val (pairs id vs + Q)"
  by (auto simp: accounts_def exact_def pairs_def)

lemma accounts_exact_shrink: "accounts exact st val (Q + R) \<Longrightarrow> accounts exact st val R"
  by (auto simp: accounts_def exact_def)

text \<open>Each use keeps the balance.\<close>

lemma balancedE:
  assumes "balanced sz (st, sub, ret)"
  obtains val where "group_ok sz st" "identities 0 st" "accounts exact st val {#}"
    "\<And>c. combiners st c \<noteq> None \<Longrightarrow> ret c + holdings (owner st) val c = sub c"
  using assms by (auto simp: balanced_def)

lemma balanced_create:
  assumes b: "balanced sz (st, sub, ret)" and c: "combiners st c = None" and new: "Reducer_new 0 c st = Some st'"
  shows "balanced sz (st', sub(c := 0), ret(c := 0))"
proof -
  obtain val where ok: "group_ok sz st" "identities 0 st" "accounts exact st val {#}"
    and bal: "\<And>c. combiners st c \<noteq> None \<Longrightarrow> ret c + holdings (owner st) val c = sub c" using b by (rule balancedE) (rule that)
  note a = adder.create_accounts [OF ok(1) c ok(2) new ok(3)]
  then have al: "combiners st' d \<noteq> None \<longleftrightarrow> d = c \<or> combiners st d \<noteq> None" for d by blast
  have "(ret(c := 0)) d + holdings (owner st') (val(Global c := 0)) d = (sub(c := 0)) d"
    if "combiners st' d \<noteq> None" for d using a bal [of d] al [of d] that by auto
  then show ?thesis using a by (intro balancedI) blast+
qed

lemma balanced_destroy:
  assumes b: "balanced sz (st, sub, ret)" and k: "combiners st c = Some k"
  shows "\<exists>st'. AgentCombiner_destruct 0 c st = Some st' \<and> balanced sz (st', sub, ret)"
proof -
  obtain val where ok: "group_ok sz st" "identities 0 st" "accounts exact st val {#}"
    and bal: "\<And>c. combiners st c \<noteq> None \<Longrightarrow> ret c + holdings (owner st) val c = sub c" using b by (rule balancedE) (rule that)
  obtain st' where a: "AgentCombiner_destruct 0 c st = Some st'" "group_ok sz st'" "identities 0 st'"
    "accounts exact st' val {#}" "dom (combiners st') = dom (combiners st) - {c}"
    "\<forall>d. d \<noteq> c \<longrightarrow> holdings (owner st') val d = holdings (owner st) val d"
    using adder.destroy_accounts [OF ok(1) k ok(2,3), of 0] by blast
  have al: "combiners st' d \<noteq> None \<longleftrightarrow> d \<noteq> c \<and> combiners st d \<noteq> None" for d using a(5) by blast
  have "ret d + holdings (owner st') val d = sub d" if "combiners st' d \<noteq> None" for d
    using a(6) bal [of d] al [of d] that by simp
  then have "balanced sz (st', sub, ret)" using a(2,3,4) by (intro balancedI)
  then show ?thesis using a(1) by blast
qed

lemma balanced_submit:
  assumes b: "balanced sz (st, sub, ret)" and sz: "0 < sz" and k: "combiners st c = Some k"
  shows "\<exists>st'. submit sz add_op t c v st = Some st' \<and> balanced sz (st', sub(c := sub c + v), ret)"
proof -
  obtain val where ok: "group_ok sz st" "identities 0 st" "accounts exact st val {#}"
    and bal: "\<And>c. combiners st c \<noteq> None \<Longrightarrow> ret c + holdings (owner st) val c = sub c" using b by (rule balancedE) (rule that)
  have "accounts exact st val (add_mset (v, v) {#})" using accounts_exact_extend [OF ok(3), of "[v]"] by simp
  from adder.submit_accounts [OF ok(1) sz k ok(2) this, of t] obtain st' val' where
    a: "submit sz add_op t c v st = Some st'" "group_ok sz st'" "identities 0 st'" "accounts exact st' val' {#}"
    "dom (combiners st') = dom (combiners st)" "holdings (owner st') val' c = holdings (owner st) val c + v"
    "\<forall>d. d \<noteq> c \<longrightarrow> holdings (owner st') val' d = holdings (owner st) val d" by blast
  have al: "combiners st' d \<noteq> None \<longleftrightarrow> combiners st d \<noteq> None" for d using a(5) by blast
  have "ret d + holdings (owner st') val' d = (sub(c := sub c + v)) d" if "combiners st' d \<noteq> None" for d
    using a(6,7) bal [of d] al [of d] that by (auto simp: ac_simps)
  then have "balanced sz (st', sub(c := sub c + v), ret)" using a(2,3,4) by (intro balancedI)
  then show ?thesis using a(1) by blast
qed

lemma balanced_reset:
  assumes b: "balanced sz (st, sub, ret)" and k: "combiners st c = Some k"
    and tk: "tk = taken sz c st (concat (map others [0..<card {a. owner st a = Some c}]))"
  shows "\<exists>r st'. reset sz add_op others c st = Some (r, st') \<and>
    balanced sz (st', sub(c := sub c + sum_list tk), ret(c := ret c + r))"
proof -
  obtain val where ok: "group_ok sz st" "identities 0 st" "accounts exact st val {#}"
    and bal: "\<And>c. combiners st c \<noteq> None \<Longrightarrow> ret c + holdings (owner st) val c = sub c" using b by (rule balancedE) (rule that)
  have "accounts exact st val (pairs id tk + {#})" by (rule accounts_exact_extend [OF ok(3)])
  from adder.reset_accounts [OF ok(1) k ok(2) refl this [unfolded tk], folded tk] obtain r y val' h e w where
    a: "reset sz add_op others c st = Some (r, st\<lparr>combiners := (combiners st)(c := Some h), element := e, world := w\<rparr>)"
    "group_ok sz (st\<lparr>combiners := (combiners st)(c := Some h), element := e, world := w\<rparr>)"
    "identities 0 (st\<lparr>combiners := (combiners st)(c := Some h), element := e, world := w\<rparr>)"
    "accounts exact (st\<lparr>combiners := (combiners st)(c := Some h), element := e, world := w\<rparr>) val' (add_mset (r, y) {#})"
    "y + holdings (owner st) val' c = holdings (owner st) val c + (\<Sum>v\<leftarrow>tk. id v)"
    "\<forall>d. d \<noteq> c \<longrightarrow> holdings (owner st) val' d = holdings (owner st) val d"
    unfolding reset_def by blast
  let ?st = "st\<lparr>combiners := (combiners st)(c := Some h), element := e, world := w\<rparr>"
  have y: "r = y" using a(4) by (simp add: accounts_def exact_def)
  have "ret c + r + holdings (owner st) val' c = ret c + (r + holdings (owner st) val' c)" by (simp add: ac_simps)
  also have "\<dots> = sub c + sum_list tk" using bal [of c] k a(5) by (simp add: y flip: add.assoc)
  finally have "(ret(c := ret c + r)) d + holdings (owner ?st) val' d = (sub(c := sub c + sum_list tk)) d"
    if "combiners ?st d \<noteq> None" for d using a(6) bal [of d] that by (cases "d = c") simp_all
  moreover have "accounts exact ?st val' {#}"
    using accounts_exact_shrink [of ?st val' "{#(r, y)#}" "{#}"] a(4) by simp
  ultimately have "balanced sz (?st, sub(c := sub c + sum_list tk), ret(c := ret c + r))"
    using a(2,3) by (intro balancedI)
  then show ?thesis using a(1) by blast
qed

lemma balanced_exit:
  assumes b: "balanced sz (st, sub, ret)" and sz: "0 < sz"
  shows "\<exists>st'. exit_thread sz add_op t st = Some st' \<and> balanced sz (st', sub, ret)"
proof -
  obtain val where ok: "group_ok sz st" "identities 0 st" "accounts exact st val {#}"
    and bal: "\<And>c. combiners st c \<noteq> None \<Longrightarrow> ret c + holdings (owner st) val c = sub c" using b by (rule balancedE) (rule that)
  obtain st' val' where a: "exit_thread sz add_op t st = Some st'" "group_ok sz st'" "identities 0 st'"
    "accounts exact st' val' {#}" "\<forall>d. holdings (owner st') val' d = holdings (owner st) val d"
    "dom (combiners st') = dom (combiners st)"
    using adder.exit_accounts [OF ok(1) sz ok(2,3), of t] by blast
  have al: "combiners st' d \<noteq> None \<longleftrightarrow> combiners st d \<noteq> None" for d using a(6) by blast
  have "ret d + holdings (owner st') val' d = sub d" if "combiners st' d \<noteq> None" for d
    using a(5) bal [of d] al [of d] that by simp
  then have "balanced sz (st', sub, ret)" using a(2,3,4) by (intro balancedI)
  then show ?thesis using a(1) by blast
qed

lemma balanced_step:
  assumes b: "balanced sz s" and sz: "0 < sz"
  shows "\<exists>s'. reducer_step sz u s = Some s' \<and> balanced sz s'"
proof -
  obtain st sub ret where s: "s = (st, sub, ret)" by (cases s)
  note b' = b [unfolded s]
  show ?thesis
  proof (cases u)
    case (Create c)
    then show ?thesis using b' balanced_create [OF b', of c] by (auto simp: s split: option.splits)
  next
    case (Destroy c)
    then show ?thesis using b' balanced_destroy [OF b', of c] by (cases "combiners st c") (auto simp: s)
  next
    case (Submit t c v)
    then show ?thesis using b' balanced_submit [OF b' sz, of c _ t v] by (cases "combiners st c") (auto simp: s)
  next
    case (Reset c others)
    then show ?thesis using b' balanced_reset [OF b' _ refl, of c _ others]
      by (cases "combiners st c") (auto simp: s Let_def)
  next
    case (Exit t)
    then show ?thesis using balanced_exit [OF b' sz, of t] by (auto simp: s)
  qed
qed

lemma balanced_run:
  "balanced sz s \<Longrightarrow> 0 < sz \<Longrightarrow> \<exists>s'. foldM (reducer_step sz) us s = Some s' \<and> balanced sz s'"
proof (induction us arbitrary: s)
  case (Cons u us)
  obtain s1 where "reducer_step sz u s = Some s1" "balanced sz s1" using balanced_step [OF Cons.prems] by blast
  with Cons.IH [of s1] Cons.prems(2) show ?case by simp
qed simp

lemma balanced_init: "balanced sz (group_init v w, sub, ret)"
proof -
  have "slots (group_init v w) = {}" by (simp add: slots_def group_init_def)
  then have "accounts exact (group_init v w) (\<lambda>_. 0) {#}"
    by (simp add: accounts_def exact_def worths_def rest_def)
  moreover have "identities 0 (group_init v w)" "combiners (group_init v w) c = None" for c
    by (simp_all add: identities_def group_init_def)
  ultimately show ?thesis using group_ok_init [of sz v w] unfolding balanced_def by auto
qed

section \<open>Properties\<close>

text \<open>
  C4. A reducer loses nothing and counts nothing twice. For any number of reducers and threads and
  any sequence of creations, destructions, submissions, resets (with other threads submitting
  between the iterations of the loop) and thread exits, every operation returns, no agent refers
  to a reducer that is gone, and for every reducer what the resets returned plus its present
  value is what was submitted to it, whichever threads submitted and whether or not they still
  run. A value read while other threads submit counts each of their submissions at most once.
\<close>

theorem reducer_conserves_submissions:
  fixes v :: "'v :: cancel_comm_monoid_add"
  assumes "0 < sz"
  shows "\<exists>st sub ret. foldM (reducer_step sz) us (group_init v (), \<lambda>_. 0, \<lambda>_. 0) = Some (st, sub, ret) \<and>
    (\<forall>a c. owner st a = Some c \<longrightarrow> combiners st c \<noteq> None) \<and>
    (\<forall>c others. combiners st c \<noteq> None \<longrightarrow>
      (\<exists>x st' seen. get_value sz add_op others c st = Some (x, st') \<and>
        seen \<subseteq># mset (taken sz c st (concat (map others [0..<card {a. owner st a = Some c}]))) \<and>
        ret c + x = sub c + sum_mset seen))"
proof -
  obtain st sub ret where run: "foldM (reducer_step sz) us (group_init v (), \<lambda>_. 0, \<lambda>_. 0) = Some (st, sub, ret)"
    and b: "balanced sz (st, sub, ret)"
    using balanced_run [OF balanced_init assms, of us v "()" "\<lambda>_. 0" "\<lambda>_. 0"] by (metis prod.exhaust)
  obtain val where ok: "group_ok sz st" and acc: "accounts exact st val {#}"
    and bal: "\<And>c. combiners st c \<noteq> None \<Longrightarrow> ret c + holdings (owner st) val c = sub c"
    using b by (auto simp: balanced_def)
  have "\<exists>x st' seen. get_value sz add_op others c st = Some (x, st') \<and>
      seen \<subseteq># mset (taken sz c st (concat (map others [0..<card {a. owner st a = Some c}]))) \<and>
      ret c + x = sub c + sum_mset seen" if c: "combiners st c \<noteq> None" for c others
  proof -
    obtain k where "combiners st c = Some k" using c by blast
    from get_value_sum [OF ok this refl, of others] obtain seen e where
      "seen \<subseteq># mset (taken sz c st (concat (map others [0..<card {a. owner st a = Some c}])))"
      "get_value sz add_op others c st = Some (sum_of st c + sum_mset seen, st\<lparr>element := e\<rparr>)" by blast
    moreover have "ret c + (sum_of st c + sum_mset seen) = sub c + sum_mset seen"
      using bal [OF c] sum_of_eq [OF ok acc c] by (simp add: add.assoc [symmetric])
    ultimately show ?thesis by blast
  qed
  moreover have "combiners st c \<noteq> None" if "owner st a = Some c" for a c
    using group_okD(5) [OF ok that] by auto
  ultimately show ?thesis using run by blast
qed

theorem reducer_conserves_submissions_witness:
  "\<exists>st sub ret x st'. foldM (reducer_step 2048) [Create 7, Submit 0 7 (5 :: nat)] (group_init 0 (), \<lambda>_. 0, \<lambda>_. 0) =
      Some (st, sub, ret) \<and> get_value 2048 add_op (\<lambda>_. []) 7 st = Some (x, st') \<and> ret 7 + x = 5"
proof -
  let ?us = "[Create 7, Submit 0 7 (5 :: nat)]"
  obtain st sub ret where run: "foldM (reducer_step 2048) ?us (group_init 0 (), \<lambda>_. 0, \<lambda>_. 0) = Some (st, sub, ret)"
    and val: "combiners st 7 \<noteq> None \<Longrightarrow> \<exists>x st' seen. get_value 2048 add_op (\<lambda>_. []) 7 st = Some (x, st') \<and>
      seen \<subseteq># mset (taken 2048 7 st (concat (map (\<lambda>_. []) [0..<card {a. owner st a = Some 7}]))) \<and>
      ret 7 + x = sub 7 + sum_mset seen"
    using reducer_conserves_submissions [of 2048 ?us 0] by auto
  have "combiners st 7 \<noteq> None \<and> sub 7 = 5"
    using run by (auto simp: Reducer_new_def AgentCombiner_new_def group_init_def create_new_agent_def agent_ids_init_def
        submit_def combiner_agent_def find_agent_def get_tls_agent_def Agent_Group.get_or_create_tls_agent_def
        agent_blocks_init_def resize_for_def ELEMENT_PER_BLOCK_def block_at_def Let_def ThreadBlock_new_def
        Agent_reset_def store_def modify_def call_op_returning_void_def add_op_def)
  moreover have "concat (map (\<lambda>_. []) [0..<n]) = ([] :: (nat \<times> nat) list)" for n by simp
  ultimately show ?thesis using run val by (simp only: taken_Nil) fastforce
qed

end
