(* ===== verification/Grab_Dump.thy ===== *)
theory Grab_Dump
  imports "HOL-Library.Sublist" Collector
begin

text \<open>
  The grab thread and the dump thread of \<^verbatim>\<open>src/collector.cpp\<close> as they interleave: one step takes the
  samples of a round over, looks at one sample, hands the kept ones over, dumps one sample, and so
  on. What a thread does to \<open>dump_root_\<close> under \<open>dump_thread_mutex_\<close> is one step, and so is dumping
  a sample and counting it. \<open>stop_\<close> may be set at any time. Both threads together refine a bounded
  queue.
\<close>

section \<open>The steps of the grab thread\<close>

text \<open>What a step reads: the flag \<open>collector_expected_per_second\<close> and the clocks.\<close>

record readings =
  r_expected :: int
  r_wall :: "u64 \<Rightarrow> int"
  r_now :: int
  r_real :: timespec

text \<open>The start of a round; \<open>head\<close> is what \<open>reset()\<close> returned.\<close>

definition grab_begin :: "surroundings \<Rightarrow> u64 option \<Rightarrow> collector \<Rightarrow> collector option" where
  "grab_begin w head st = do {
     abstime \<leftarrow> chk_long (last_active_cpuwide_us st + COLLECTOR_GRAB_INTERVAL_US);
     st \<leftarrow> take_in w head st;
     Some (st\<lparr>grab_pos := if head = None then Grab_adapt abstime else Grab_look abstime [] (prep_map st)\<rparr>) }"

text \<open>Every other step; at \<open>Grab_start\<close> the loop is left when \<open>stop_\<close> is set.\<close>

definition grab_next :: "surroundings \<Rightarrow> readings \<Rightarrow> collector \<Rightarrow> collector option" where
  "grab_next w e st = (case grab_pos st of
       Grab_start \<Rightarrow> if stop_flag st then Some (st\<lparr>grab_pos := Grab_quit\<rparr>) else None
     | Grab_look abstime (p # ps) bs \<Rightarrow> Some ((grab_one w p st)\<lparr>grab_pos := Grab_look abstime ps bs\<rparr>)
     | Grab_look abstime [] (b # bs) \<Rightarrow> Some (st\<lparr>grab_pos := Grab_look abstime (bucket_list w b) bs\<rparr>)
     | Grab_look abstime [] [] \<Rightarrow> Some ((hand_to_dumper w st)\<lparr>grab_pos := Grab_adapt abstime\<rparr>)
     | Grab_adapt abstime \<Rightarrow> do {
         st \<leftarrow> update_speed_limits (r_expected e) (r_wall e) (r_now e) st;
         Some (st\<lparr>grab_pos := Grab_doze abstime\<rparr>) }
     | Grab_doze abstime \<Rightarrow> do {
         (st, deadline) \<leftarrow> grab_doze abstime (r_now e) (r_real e) st;
         Some (st\<lparr>grab_pos := Grab_asleep\<rparr>) }
     | Grab_asleep \<Rightarrow> Some (st\<lparr>last_active_cpuwide_us := r_now e, grab_pos := Grab_start\<rparr>)
     | Grab_quit \<Rightarrow> None)"

section \<open>The steps of the dump thread\<close>

text \<open>At \<open>Dump_await\<close> the thread waits as long as nothing is linked and \<open>stop_\<close> is not set.\<close>

definition dump_next :: "surroundings \<Rightarrow> collector \<Rightarrow> collector option" where
  "dump_next w st = (case dump_pos st of
       Dump_start n \<Rightarrow> Some (st\<lparr>dump_pos := if stop_flag st then Dump_quit else Dump_await (n + 1)\<rparr>)
     | Dump_await n \<Rightarrow>
         if stop_flag st then Some (st\<lparr>dump_pos := Dump_quit\<rparr>)
         else if next_ptr (c_links st) (dump_root w) = dump_root w then None
         else (let st = dump_take w st
               in Some (st\<lparr>dump_pos := Dump_work n (next_ptr (c_links st) (dump_local w))\<rparr>))
     | Dump_work n p \<Rightarrow>
         if stop_flag st \<or> p = dump_local w then Some (st\<lparr>dump_pos := Dump_start n\<rparr>)
         else Some ((dump_one n p st)\<lparr>dump_pos := Dump_work n (next_ptr (c_links st) p)\<rparr>)
     | Dump_quit \<Rightarrow> None)"

section \<open>Undisturbed, the steps make up the rounds\<close>

definition grab_steps :: "surroundings \<Rightarrow> collector \<Rightarrow> collector \<Rightarrow> bool" where
  "grab_steps w = (\<lambda>st st'. \<exists>e. grab_next w e st = Some st')\<^sup>*\<^sup>*"

definition dump_steps :: "surroundings \<Rightarrow> collector \<Rightarrow> collector \<Rightarrow> bool" where
  "dump_steps w = (\<lambda>st st'. dump_next w st = Some st')\<^sup>*\<^sup>*"

lemma grab_steps_refl [intro, simp]: "grab_steps w st st"
  by (simp add: grab_steps_def)

lemma grab_steps_trans: "grab_steps w st st' \<Longrightarrow> grab_steps w st' st'' \<Longrightarrow> grab_steps w st st''"
  unfolding grab_steps_def by (rule rtranclp_trans)

lemma grab_steps_one: "grab_next w e st = Some st' \<Longrightarrow> grab_steps w st st'"
  unfolding grab_steps_def by blast

lemma grab_one_pos: "grab_one w p (st\<lparr>grab_pos := q\<rparr>) = (grab_one w p st)\<lparr>grab_pos := q\<rparr>"
  by (simp add: grab_one_def Let_def)

lemma fold_grab_one_pos: "fold (grab_one w) ps (st\<lparr>grab_pos := q\<rparr>) = (fold (grab_one w) ps st)\<lparr>grab_pos := q\<rparr>"
  by (induction ps arbitrary: st) (simp_all add: grab_one_pos)

lemma look_at_list:
  "grab_steps w (st\<lparr>grab_pos := Grab_look a ps bs\<rparr>) ((fold (grab_one w) ps st)\<lparr>grab_pos := Grab_look a [] bs\<rparr>)"
proof (induction ps arbitrary: st)
  case (Cons p ps)
  have "grab_steps w (st\<lparr>grab_pos := Grab_look a (p # ps) bs\<rparr>) ((grab_one w p st)\<lparr>grab_pos := Grab_look a ps bs\<rparr>)"
    by (rule grab_steps_one) (simp add: grab_next_def grab_one_pos)
  from grab_steps_trans [OF this Cons.IH] show ?case by simp
qed simp

lemma look_at_buckets:
  "grab_steps w (st\<lparr>grab_pos := Grab_look a [] bs\<rparr>) ((fold (grab_bucket w) bs st)\<lparr>grab_pos := Grab_look a [] []\<rparr>)"
proof (induction bs arbitrary: st)
  case (Cons b bs)
  have "grab_steps w (st\<lparr>grab_pos := Grab_look a [] (b # bs)\<rparr>) (st\<lparr>grab_pos := Grab_look a (bucket_list w b) bs\<rparr>)"
    by (rule grab_steps_one) (simp add: grab_next_def)
  from grab_steps_trans [OF grab_steps_trans [OF this look_at_list] Cons.IH] show ?case by (simp add: grab_bucket_def)
qed simp
lemma take_in_pos: "take_in w head st = Some st' \<Longrightarrow> grab_pos st' = grab_pos st"
proof -
  have "grab_pos s' = grab_pos s" if "classify_all w h s = Some s'" for h s s'
    using ring_for_keeps [where f = grab_pos, OF that [unfolded classify_all_def Let_def]]
    by (simp add: classify_def)
  then show "take_in w head st = Some st' \<Longrightarrow> grab_pos st' = grab_pos st"
    by (fastforce simp: take_in_def Let_def split: option.splits Option.bind_splits)
qed

lemma grab_bucket_pos: "fold (grab_bucket w) bs (st\<lparr>grab_pos := q\<rparr>) = (fold (grab_bucket w) bs st)\<lparr>grab_pos := q\<rparr>"
  by (induction bs arbitrary: st) (simp_all add: grab_bucket_def fold_grab_one_pos)

lemma hand_to_dumper_pos: "hand_to_dumper w (st\<lparr>grab_pos := q\<rparr>) = (hand_to_dumper w st)\<lparr>grab_pos := q\<rparr>"
  by (simp add: hand_to_dumper_def Let_def)

lemma update_speed_limits_pos:
  "update_speed_limits expected wall now (st\<lparr>grab_pos := q\<rparr>) =
     map_option (\<lambda>st. st\<lparr>grab_pos := q\<rparr>) (update_speed_limits expected wall now st)"
proof -
  have one: "update_one expected wall interval e (s\<lparr>grab_pos := q\<rparr>) =
      map_option (\<lambda>st. st\<lparr>grab_pos := q\<rparr>) (update_one expected wall interval e s)" for interval e s
    by (simp add: update_one_def split: prod.split Option.bind_split option.split)
  have "foldM (update_one expected wall interval) es (s\<lparr>grab_pos := q\<rparr>) =
      map_option (\<lambda>st. st\<lparr>grab_pos := q\<rparr>) (foldM (update_one expected wall interval) es s)" for interval es s
    by (induction es arbitrary: s) (simp_all add: one split: Option.bind_split)
  from this [where s = "st\<lparr>last_before_update_sl := now\<rparr>"]
  have "foldM (update_one expected wall interval) es (st\<lparr>last_before_update_sl := now, grab_pos := q\<rparr>) =
      map_option (\<lambda>st. st\<lparr>grab_pos := q\<rparr>) (foldM (update_one expected wall interval) es (st\<lparr>last_before_update_sl := now\<rparr>))"
    for interval es .
  moreover have c: "st\<lparr>last_before_update_sl := now, grab_pos := q\<rparr> = st\<lparr>grab_pos := q, last_before_update_sl := now\<rparr>" by simp
  ultimately have "foldM (update_one expected wall interval) es (st\<lparr>grab_pos := q, last_before_update_sl := now\<rparr>) =
      map_option (\<lambda>st. st\<lparr>grab_pos := q\<rparr>) (foldM (update_one expected wall interval) es (st\<lparr>last_before_update_sl := now\<rparr>))"
    for interval es by (simp only:)
  then show ?thesis by (simp add: update_speed_limits_def Let_def split: Option.bind_split)
qed

text \<open>A round that runs alone is its first step and the steps after it.\<close>

lemma pos_same: "grab_pos (st :: collector) = q \<Longrightarrow> st\<lparr>grab_pos := q\<rparr> = st"
  by simp

lemma grab_pos_after: "grab_pos ((st :: collector)\<lparr>grab_pos := q\<rparr>) = q"
  by simp

lemma rest_of_round:
  assumes u: "update_speed_limits expected wall now st = Some st1" and s: "grab_sleep a now2 realtime now3 st1 = Some (st', deadline)"
    and q: "grab_pos st = Grab_start"
  shows "grab_steps w (st\<lparr>grab_pos := Grab_adapt a\<rparr>) st'"
proof -
  let ?e = "\<lambda>t. \<lparr>r_expected = expected, r_wall = wall, r_now = t, r_real = realtime\<rparr>"
  obtain st2 where d: "grab_doze a now2 realtime st1 = Some (st2, deadline)" "st' = st2\<lparr>last_active_cpuwide_us := now3\<rparr>"
    using s by (auto simp: grab_sleep_def split: Option.bind_splits)
  have st2: "st2 = st1\<lparr>last_active_cpuwide_us := now2\<rparr>"
    using d(1) by (auto simp: grab_doze_def Let_def split: Option.bind_splits)
  have q1: "grab_pos st1 = Grab_start" using update_speed_limits_frame [OF u] q by auto
  have "grab_doze a now2 realtime (st1\<lparr>grab_pos := Grab_doze a\<rparr>) = Some (st2\<lparr>grab_pos := Grab_doze a\<rparr>, deadline)"
    using d(1) unfolding st2 by (auto simp: grab_doze_def Let_def split: Option.bind_splits if_splits)
  then have "grab_next w (?e now2) (st1\<lparr>grab_pos := Grab_doze a\<rparr>) = Some (st2\<lparr>grab_pos := Grab_asleep\<rparr>)"
    by (simp add: grab_next_def)
  moreover have "grab_next w (?e now) (st\<lparr>grab_pos := Grab_adapt a\<rparr>) = Some (st1\<lparr>grab_pos := Grab_doze a\<rparr>)"
    using u by (simp add: grab_next_def update_speed_limits_pos)
  moreover have "grab_next w (?e now3) (st2\<lparr>grab_pos := Grab_asleep\<rparr>) = Some st'"
    using q1 pos_same [of st' Grab_start] by (simp add: grab_next_def d(2) st2)
  ultimately show ?thesis by (meson grab_steps_one grab_steps_trans)
qed

lemma grab_round_alone:
  assumes q: "grab_pos st = Grab_start"
    and run: "grab_round w head expected wall now now2 realtime now3 st = Some (st', deadline)"
  shows "\<exists>st1. grab_begin w head st = Some st1 \<and> grab_steps w st1 st'"
proof -
  obtain a s0 s1 s2 where a: "chk_long (last_active_cpuwide_us st + COLLECTOR_GRAB_INTERVAL_US) = Some a"
    and s0: "take_in w head st = Some s0"
    and s1: "s1 = (if head = None then s0 else hand_to_dumper w (fold (grab_bucket w) (prep_map s0) s0))"
    and s2: "update_speed_limits expected wall now s1 = Some s2" "grab_sleep a now2 realtime now3 s2 = Some (st', deadline)"
    using run by (auto simp: grab_round_def grab_collect_def split: Option.bind_splits)
  have q0: "grab_pos s0 = Grab_start" using take_in_pos [OF s0] q by simp
  let ?s = "fold (grab_bucket w) (prep_map s0) s0"
  have "?s = ?s\<lparr>grab_pos := Grab_start\<rparr>"
    using grab_bucket_pos [where w = w and bs = "prep_map s0" and st = s0 and q = Grab_start] pos_same [OF q0] by simp
  then have qs: "grab_pos ?s = Grab_start" by (metis grab_pos_after)
  have "grab_pos (hand_to_dumper w ?s) = Grab_start"
    using hand_to_dumper_pos [where w = w and st = ?s and q = Grab_start] pos_same [OF qs] by (metis grab_pos_after)
  then have q1: "grab_pos s1 = Grab_start" using q0 by (simp add: s1)
  note rest = rest_of_round [OF s2 q1, of w]
  show ?thesis
  proof (cases "head = None")
    case True
    then show ?thesis using a s0 rest by (simp add: grab_begin_def s1)
  next
    case False
    then obtain h where h: "head = Some h" by blast
    let ?bs = "prep_map s0"
    have "grab_next w e ((fold (grab_bucket w) ?bs s0)\<lparr>grab_pos := Grab_look a [] []\<rparr>) = Some (s1\<lparr>grab_pos := Grab_adapt a\<rparr>)" for e
      by (simp add: grab_next_def s1 hand_to_dumper_pos h)
    from grab_steps_trans [OF look_at_buckets grab_steps_trans [OF grab_steps_one [OF this] rest]]
    show ?thesis using a s0 False by (auto simp: grab_begin_def)
  qed
qed

lemma dump_loop_alone:
  assumes "dump_loop stop n sentinel i p st = Some st'"
  shows "stop = (\<lambda>_. False) \<longrightarrow> sentinel = dump_local w \<longrightarrow> \<not> stop_flag st \<longrightarrow>
    dump_steps w (st\<lparr>dump_pos := Dump_work n p\<rparr>) (st'\<lparr>dump_pos := Dump_start n\<rparr>)"
proof (rule dump_loop.raw_induct [where P = "\<lambda>stop n sentinel i p st st'.
      stop = (\<lambda>_. False) \<longrightarrow> sentinel = dump_local w \<longrightarrow> \<not> stop_flag st \<longrightarrow>
      dump_steps w (st\<lparr>dump_pos := Dump_work n p\<rparr>) (st'\<lparr>dump_pos := Dump_start n\<rparr>)", OF _ assms])
  fix loop :: "(nat \<Rightarrow> bool) \<Rightarrow> u64 \<Rightarrow> u64 \<Rightarrow> nat \<Rightarrow> u64 \<Rightarrow> collector \<Rightarrow> collector option"
    and stop :: "nat \<Rightarrow> bool" and n sentinel i p st st'
  assume IH: "\<And>stop n sentinel i p st st'. loop stop n sentinel i p st = Some st' \<Longrightarrow>
      stop = (\<lambda>_. False) \<longrightarrow> sentinel = dump_local w \<longrightarrow> \<not> stop_flag st \<longrightarrow>
      dump_steps w (st\<lparr>dump_pos := Dump_work n p\<rparr>) (st'\<lparr>dump_pos := Dump_start n\<rparr>)"
    and run: "(if stop i \<or> p = sentinel then Some st
      else loop stop n sentinel (i + 1) (next_ptr (c_links st) p) (dump_one n p st)) = Some st'"
  show "stop = (\<lambda>_. False) \<longrightarrow> sentinel = dump_local w \<longrightarrow> \<not> stop_flag st \<longrightarrow>
      dump_steps w (st\<lparr>dump_pos := Dump_work n p\<rparr>) (st'\<lparr>dump_pos := Dump_start n\<rparr>)"
  proof (intro impI)
    assume a: "stop = (\<lambda>_. False)" "sentinel = dump_local w" "\<not> stop_flag st"
    show "dump_steps w (st\<lparr>dump_pos := Dump_work n p\<rparr>) (st'\<lparr>dump_pos := Dump_start n\<rparr>)"
    proof (cases "p = dump_local w")
      case True
      then show ?thesis using run a by (auto simp: dump_steps_def dump_next_def)
    next
      case False
      have "dump_next w (st\<lparr>dump_pos := Dump_work n p\<rparr>) =
          Some ((dump_one n p st)\<lparr>dump_pos := Dump_work n (next_ptr (c_links st) p)\<rparr>)"
        using False a by (simp add: dump_next_def dump_one_def)
      moreover have "dump_steps w ((dump_one n p st)\<lparr>dump_pos := Dump_work n (next_ptr (c_links st) p)\<rparr>)
          (st'\<lparr>dump_pos := Dump_start n\<rparr>)"
        using IH [of stop n sentinel "i + 1" "next_ptr (c_links st) p" "dump_one n p st" st'] run a False
        by (simp add: dump_one_def)
      ultimately show ?thesis unfolding dump_steps_def by (rule converse_rtranclp_into_rtranclp)
    qed
  qed
qed

lemma dump_round_alone:
  assumes "dump_pos st = Dump_await n" and "\<not> stop_flag st" and "next_ptr (c_links st) (dump_root w) \<noteq> dump_root w"
    and "dump_round w (\<lambda>_. False) n st = Some st'"
  shows "dump_steps w st (st'\<lparr>dump_pos := Dump_start n\<rparr>)"
proof -
  let ?t = "dump_take w st"
  have "dump_next w st = Some (?t\<lparr>dump_pos := Dump_work n (next_ptr (c_links ?t) (dump_local w))\<rparr>)"
    using assms(1-3) by (simp add: dump_next_def Let_def)
  moreover have "dump_steps w (?t\<lparr>dump_pos := Dump_work n (next_ptr (c_links ?t) (dump_local w))\<rparr>) (st'\<lparr>dump_pos := Dump_start n\<rparr>)"
    using dump_loop_alone [OF assms(4) [unfolded dump_round_def Let_def], of w] assms(2)
    by (simp add: dump_take_def Let_def)
  ultimately show ?thesis unfolding dump_steps_def by (rule converse_rtranclp_into_rtranclp)
qed

section \<open>The specification: a bounded queue\<close>

text \<open>
  Samples arrive in batches. Each is put into the queue, or dropped when \<open>cap - 1\<close> are in the queue;
  those in the queue are dumped in their order.
\<close>

record hand_off =
  h_new :: "u64 multiset"
  h_queue :: "u64 list"
  h_dropped :: "u64 list"
  h_dumped :: "(u64 \<times> u64) list"

definition hand_off_init :: hand_off where
  "hand_off_init = \<lparr>h_new = {#}, h_queue = [], h_dropped = [], h_dumped = []\<rparr>"

inductive hand_off_step :: "int \<Rightarrow> u64 multiset \<Rightarrow> hand_off \<Rightarrow> hand_off \<Rightarrow> bool" for cap where
  idle: "hand_off_step cap {#} q q"
| arrived: "h_new q = {#} \<Longrightarrow> hand_off_step cap X q (q\<lparr>h_new := X\<rparr>)"
| kept: "h_new q = add_mset p X \<Longrightarrow> int (length (h_queue q)) + 1 < cap \<Longrightarrow>
    hand_off_step cap {#} q (q\<lparr>h_new := X, h_queue := h_queue q @ [p]\<rparr>)"
| dropped: "h_new q = add_mset p X \<Longrightarrow> cap \<le> int (length (h_queue q)) + 1 \<Longrightarrow>
    hand_off_step cap {#} q (q\<lparr>h_new := X, h_dropped := h_dropped q @ [p]\<rparr>)"
| delivered: "h_queue q = p # ps \<Longrightarrow>
    hand_off_step cap {#} q (q\<lparr>h_queue := ps, h_dumped := h_dumped q @ [(n, p)]\<rparr>)"

text \<open>The runs of the queue, with all that has arrived.\<close>

inductive hand_off_run :: "int \<Rightarrow> u64 multiset \<Rightarrow> hand_off \<Rightarrow> bool" for cap where
  start: "hand_off_run cap {#} hand_off_init"
| step: "hand_off_run cap A q \<Longrightarrow> hand_off_step cap X q q' \<Longrightarrow> hand_off_run cap (A + X) q'"

definition h_inside :: "hand_off \<Rightarrow> u64 multiset" where
  "h_inside q = mset (h_queue q) + h_new q"

definition h_total :: "hand_off \<Rightarrow> u64 multiset" where
  "h_total q = mset (h_dropped q) + mset (map snd (h_dumped q)) + h_inside q"

lemma hand_off_step_total: "hand_off_step cap X q q' \<Longrightarrow> h_total q' = h_total q + X"
  by (induction rule: hand_off_step.induct) (simp_all add: h_total_def h_inside_def)

lemma hand_off_step_inside: "hand_off_step cap X q q' \<Longrightarrow> h_inside q' \<subseteq># h_inside q + X"
  by (induction rule: hand_off_step.induct) (auto simp: h_inside_def)

lemma hand_off_step_logs:
  "hand_off_step cap X q q' \<Longrightarrow> prefix (h_dropped q) (h_dropped q') \<and> prefix (h_dumped q) (h_dumped q')"
  by (induction rule: hand_off_step.induct) simp_all

lemma hand_off_run_total: "hand_off_run cap A q \<Longrightarrow> h_total q = A"
  by (induction rule: hand_off_run.induct)
    (simp_all add: hand_off_step_total, simp add: h_total_def h_inside_def hand_off_init_def)

section \<open>The lists of the two threads\<close>

text \<open>
  \<open>ls\<close> is linked under the root of the dump thread, \<open>ws\<close> under \<open>dump_root_\<close>, \<open>ks\<close> under the root of a
  grab round; the samples the grab thread still has to look at are in its vectors.
\<close>

definition in_hand :: "collector \<Rightarrow> u64 list" where
  "in_hand st = (case grab_pos st of Grab_look a ps bs \<Rightarrow> ps @ all_of bs | _ \<Rightarrow> [])"

definition keeping :: "collector \<Rightarrow> bool" where
  "keeping st = (case grab_pos st of Grab_look a ps bs \<Rightarrow> True | _ \<Rightarrow> False)"

definition own_lists :: "surroundings \<Rightarrow> collector \<Rightarrow> u64 list \<Rightarrow> u64 list \<Rightarrow> u64 list \<Rightarrow> u64 list set" where
  "own_lists w st ls ws ks =
     {dump_root w # ws, dump_local w # ls} \<union> (if keeping st then {kept_root w # ks} else {})"

definition off_heads :: "surroundings \<Rightarrow> u64 list \<Rightarrow> bool" where
  "off_heads w xs \<longleftrightarrow> distinct xs \<and> heads w \<inter> set xs = {}"

definition counters_ok :: "surroundings \<Rightarrow> collector \<Rightarrow> u64 list \<Rightarrow> bool" where
  "counters_ok w st queue \<longleftrightarrow> int (length queue) < max_pending w \<and>
     grab_count st = drop_count st + dump_count st + int (length queue) \<and>
     drop_count st = int (length (destroyed st)) \<and> dump_count st = int (length (dumped st))"

text \<open>A dump thread at work is at the first sample of its list; otherwise it has none unless it was stopped.\<close>

definition dumper_ok :: "surroundings \<Rightarrow> collector \<Rightarrow> u64 list \<Rightarrow> bool" where
  "dumper_ok w st ls = (case dump_pos st of
       Dump_work n p \<Rightarrow> p = hd (ls @ [dump_local w])
     | Dump_quit \<Rightarrow> stop_flag st
     | _ \<Rightarrow> ls = [] \<or> stop_flag st)"

definition lanes_ok :: "surroundings \<Rightarrow> collector \<Rightarrow> u64 list \<Rightarrow> u64 list \<Rightarrow> u64 list \<Rightarrow> bool" where
  "lanes_ok w st ls ws ks \<longleftrightarrow> (\<forall>zs \<in> own_lists w st ls ws ks. ring (c_links st) zs) \<and>
     off_heads w (ls @ ws @ ks @ in_hand st) \<and> (\<not> keeping st \<longrightarrow> ks = []) \<and> dumper_ok w st ls \<and>
     counters_ok w st (ls @ ws @ ks)"

definition queue_view :: "collector \<Rightarrow> u64 list \<Rightarrow> hand_off" where
  "queue_view st queue = \<lparr>h_new = mset (in_hand st), h_queue = queue, h_dropped = destroyed st, h_dumped = dumped st\<rparr>"

text \<open>Lists of other threads stay rings.\<close>

definition keeps_others :: "surroundings \<Rightarrow> u64 list \<Rightarrow> collector \<Rightarrow> collector \<Rightarrow> bool" where
  "keeps_others w own st st' \<longleftrightarrow>
     (\<forall>zs. ring (c_links st) zs \<and> set zs \<inter> (heads w \<union> set own) = {} \<longrightarrow> ring (c_links st') zs)"

lemma keeps_others_same: "c_links st' = c_links st \<Longrightarrow> keeps_others w own st st'"
  by (simp add: keeps_others_def)

lemma off_heads_sub: "off_heads w xs \<Longrightarrow> mset ys \<subseteq># mset xs \<Longrightarrow> off_heads w ys"
proof -
  assume a: "off_heads w xs" and s: "mset ys \<subseteq># mset xs"
  have "set ys \<subseteq> set xs" using set_mset_mono [OF s] by simp
  moreover have "count (mset ys) p \<le> 1" for p
    using mset_subset_eq_count [OF s, of p] a by (simp add: off_heads_def distinct_count_atmost_1 le_trans)
  ultimately show "off_heads w ys"
    using a unfolding off_heads_def by (metis (no_types, lifting) One_nat_def count_eq_zero_iff disjoint_iff
      distinct_count_atmost_1 le_Suc_eq le_zero_eq set_mset_mset subsetD)
qed

text \<open>A step that only moves a thread on.\<close>

lemma lanes_ok_same:
  assumes "lanes_ok w st ls ws ks" and "c_links st' = c_links st" and "in_hand st' = in_hand st" and "keeping st' = keeping st"
    and "dumper_ok w st' ls" and "grab_count st' = grab_count st" and "drop_count st' = drop_count st"
    and "dump_count st' = dump_count st" and "destroyed st' = destroyed st" and "dumped st' = dumped st"
  shows "lanes_ok w st' ls ws ks \<and> keeps_others w own st st' \<and>
    hand_off_step cap {#} (queue_view st (ls @ ws @ ks)) (queue_view st' (ls @ ws @ ks))"
  using assms by (simp add: lanes_ok_def own_lists_def counters_ok_def queue_view_def keeps_others_same hand_off_step.idle)

lemma lanes_ok_rings:
  assumes "lanes_ok w st ls ws ks"
  shows "ring (c_links st) (dump_root w # ws)" and "ring (c_links st) (dump_local w # ls)"
    and "keeping st \<Longrightarrow> ring (c_links st) (kept_root w # ks)"
  using assms by (simp_all add: lanes_ok_def own_lists_def)

section \<open>Every step keeps the lists and refines a step of the queue\<close>

definition advances ::
  "surroundings \<Rightarrow> collector \<Rightarrow> u64 list \<Rightarrow> u64 list \<Rightarrow> u64 list \<Rightarrow> collector \<Rightarrow> bool" where
  "advances w st ls ws ks st' \<longleftrightarrow> (\<exists>ls' ws' ks'. lanes_ok w st' ls' ws' ks' \<and>
     keeps_others w (ls @ ws @ ks @ in_hand st) st st' \<and>
     hand_off_step (max_pending w) {#} (queue_view st (ls @ ws @ ks)) (queue_view st' (ls' @ ws' @ ks')))"

lemma advancesI:
  "lanes_ok w st' ls' ws' ks' \<Longrightarrow> keeps_others w (ls @ ws @ ks @ in_hand st) st st' \<Longrightarrow>
   hand_off_step (max_pending w) {#} (queue_view st (ls @ ws @ ks)) (queue_view st' (ls' @ ws' @ ks')) \<Longrightarrow>
   advances w st ls ws ks st'"
  unfolding advances_def by blast

lemma advancesI_idle:
  assumes "lanes_ok w st' ls' ws' ks'" and "keeps_others w (ls @ ws @ ks @ in_hand st) st st'"
    and "queue_view st' (ls' @ ws' @ ks') = queue_view st (ls @ ws @ ks)"
  shows "advances w st ls ws ks st'"
  by (rule advancesI [OF assms(1,2)]) (simp add: assms(3) hand_off_step.idle)

lemma advances_same:
  assumes "lanes_ok w st ls ws ks" and "c_links st' = c_links st" and "in_hand st' = in_hand st" and "keeping st' = keeping st"
    and "dumper_ok w st' ls" and "grab_count st' = grab_count st" and "drop_count st' = drop_count st"
    and "dump_count st' = dump_count st" and "destroyed st' = destroyed st" and "dumped st' = dumped st"
  shows "advances w st ls ws ks st'"
  unfolding advances_def using lanes_ok_same [OF assms, of "ls @ ws @ ks @ in_hand st" "max_pending w"] by blast

lemma dumper_ok_same: "dumper_ok w st ls \<Longrightarrow> dump_pos st' = dump_pos st \<Longrightarrow> stop_flag st' = stop_flag st \<Longrightarrow> dumper_ok w st' ls"
  by (cases "dump_pos st") (simp_all add: dumper_ok_def)

text \<open>A sample is kept or dropped.\<close>

lemma look_one:
  assumes ok: "lanes_ok w st ls ws ks" and w: "heads_ok w" and pos: "grab_pos st = Grab_look a (p # ps) bs"
  shows "advances w st ls ws ks ((grab_one w p st)\<lparr>grab_pos := Grab_look a ps bs\<rparr>)"
proof -
  let ?q = "ls @ ws @ ks" and ?st' = "(grab_one w p st)\<lparr>grab_pos := Grab_look a ps bs\<rparr>"
  define k where "k = nat (max_pending w - 1 - int (length ?q))"
  have hand: "in_hand st = p # (ps @ all_of bs)" and kp: "keeping st" by (simp_all add: in_hand_def keeping_def pos)
  have ap: "off_heads w (?q @ p # (ps @ all_of bs))" and cnt: "counters_ok w st ?q" and dmp: "dumper_ok w st ls"
    using ok by (simp_all add: lanes_ok_def hand)
  note r = lanes_ok_rings [OF ok]
  have kr: "kept_root w \<in> heads w" "dump_root w \<in> heads w" "dump_local w \<in> heads w" "kept_root w \<noteq> dump_root w" "kept_root w \<noteq> dump_local w"
    using w by (auto simp: heads_def heads_ok_def)
  define Z where "Z = {zs. ring (c_links st) zs \<and> set zs \<inter> set (kept_root w # ks) = {} \<and> set zs \<inter> set [p] = {}}"
  have p: "set [p] \<inter> set (kept_root w # ks) = {}" using ap kr by (auto simp: off_heads_def)
  have "\<exists>L G. fold (grab_one w) [p] st = st\<lparr>c_links := L, grab_count_map := G,
      grab_count := grab_count st + int (length [p]),
      drop_count := drop_count st + int (length (drop k [p])), destroyed := destroyed st @ drop k [p]\<rparr> \<and>
    ring L (kept_root w # ks @ take k [p]) \<and> (\<forall>zs\<in>Z. ring L zs)"
    using cnt by (intro grab_ones [OF r(3) [OF kp] _ _ p _ _ k_def]) (auto simp: Z_def counters_ok_def)
  then obtain L G where one: "grab_one w p st = st\<lparr>c_links := L, grab_count_map := G, grab_count := grab_count st + 1,
      drop_count := drop_count st + int (length (drop k [p])), destroyed := destroyed st @ drop k [p]\<rparr>"
    and L: "ring L (kept_root w # ks @ take k [p])" "\<forall>zs\<in>Z. ring L zs" by auto
  have "dump_root w # ws \<in> Z" "dump_local w # ls \<in> Z" using r(1,2) ap kr by (auto simp: Z_def off_heads_def)
  then have L2: "ring L (dump_root w # ws)" "ring L (dump_local w # ls)" using L(2) by blast+
  have hand': "in_hand ?st' = ps @ all_of bs" and kp': "keeping ?st'" by (simp_all add: in_hand_def keeping_def)
  have queue_view': "queue_view ?st' qs = \<lparr>h_new = mset (ps @ all_of bs), h_queue = qs,
      h_dropped = destroyed st @ drop k [p], h_dumped = dumped st\<rparr>" for qs
    unfolding queue_view_def hand' by (simp add: one)
  have others: "keeps_others w (?q @ in_hand st) st ?st'"
    unfolding keeps_others_def
  proof (intro allI impI)
    fix zs assume a: "ring (c_links st) zs \<and> set zs \<inter> (heads w \<union> set (?q @ in_hand st)) = {}"
    then have "kept_root w \<notin> set zs" "set zs \<inter> set ks = {}" "p \<notin> set zs" using kr(1) unfolding hand by auto
    then have "zs \<in> Z" using a by (simp add: Z_def)
    then show "ring (c_links ?st') zs" using L(2) by (simp add: one)
  qed
  have dmp': "dumper_ok w ?st' ls" by (rule dumper_ok_same [OF dmp]) (simp_all add: one)
  have "k = 0 \<and> max_pending w \<le> int (length ?q) + 1 \<or> 0 < k \<and> int (length ?q) + 1 < max_pending w"
    unfolding k_def by linarith
  then consider "k = 0" "max_pending w \<le> int (length ?q) + 1" | j where "k = Suc j" "int (length ?q) + 1 < max_pending w"
    by (metis Suc_pred)
  then show ?thesis
  proof cases
    case 1
    have "off_heads w (?q @ ps @ all_of bs)" by (rule off_heads_sub [OF ap]) simp
    then have "lanes_ok w ?st' ls ws ks"
      using L(1) L2 cnt dmp' 1(1) kp' unfolding lanes_ok_def hand' by (simp add: own_lists_def one counters_ok_def)
    moreover have "hand_off_step (max_pending w) {#} (queue_view st ?q) (queue_view ?st' ?q)"
      using hand_off_step.dropped [of "queue_view st ?q" p "mset (ps @ all_of bs)" "max_pending w"] 1
      unfolding queue_view' by (simp add: queue_view_def hand)
    ultimately show ?thesis using others unfolding advances_def by auto
  next
    case 2
    have "off_heads w (?q @ [p] @ ps @ all_of bs)" by (rule off_heads_sub [OF ap]) simp
    then have "lanes_ok w ?st' ls ws (ks @ [p])"
      using L(1) L2 cnt dmp' 2 kp' unfolding lanes_ok_def hand' by (simp add: own_lists_def one counters_ok_def)
    moreover have "hand_off_step (max_pending w) {#} (queue_view st ?q) (queue_view ?st' (ls @ ws @ ks @ [p]))"
      using hand_off_step.kept [of "queue_view st ?q" p "mset (ps @ all_of bs)" "max_pending w"] 2
      unfolding queue_view' by (simp add: queue_view_def hand)
    ultimately show ?thesis using others unfolding advances_def by auto
  qed
qed

text \<open>A vector is processed.\<close>

lemma look_bucket:
  assumes ok: "lanes_ok w st ls ws ks" and w: "heads_ok w" and pos: "grab_pos st = Grab_look a [] (b # bs)"
  shows "advances w st ls ws ks (st\<lparr>grab_pos := Grab_look a (bucket_list w b) bs\<rparr>)"
proof -
  let ?q = "ls @ ws @ ks" and ?st' = "st\<lparr>grab_pos := Grab_look a (bucket_list w b) bs\<rparr>"
  have hand: "in_hand st = snd b @ all_of bs" "in_hand ?st' = bucket_list w b @ all_of bs" and kp: "keeping st" "keeping ?st'"
    by (simp_all add: in_hand_def keeping_def pos all_of_def)
  have same: "mset (in_hand ?st') = mset (in_hand st)"
    using w mset_bucket_list [of w b] by (simp add: hand heads_ok_def)
  have "off_heads w (?q @ in_hand ?st')"
    by (rule off_heads_sub [of _ "?q @ in_hand st"]) (use ok same in \<open>simp_all add: lanes_ok_def\<close>)
  moreover have "dumper_ok w ?st' ls" using ok by (auto simp: lanes_ok_def intro: dumper_ok_same)
  ultimately have "lanes_ok w ?st' ls ws ks"
    using ok kp by (simp add: lanes_ok_def own_lists_def counters_ok_def)
  moreover have "queue_view ?st' ?q = queue_view st ?q" unfolding queue_view_def same by simp
  ultimately show ?thesis by (intro advancesI_idle keeps_others_same) simp_all
qed

text \<open>The kept samples are handed over.\<close>

lemma hand_over_kept:
  assumes ok: "lanes_ok w st ls ws ks" and w: "heads_ok w" and pos: "grab_pos st = Grab_look a [] []"
  shows "advances w st ls ws ks ((hand_to_dumper w st)\<lparr>grab_pos := Grab_adapt a\<rparr>)"
proof -
  let ?q = "ls @ ws @ ks" and ?st' = "(hand_to_dumper w st)\<lparr>grab_pos := Grab_adapt a\<rparr>"
  have hand: "in_hand st = []" "in_hand ?st' = []" and kp: "keeping st" "\<not> keeping ?st'"
    by (simp_all add: in_hand_def keeping_def pos all_of_def)
  have ap: "off_heads w ?q" using ok by (simp add: lanes_ok_def hand)
  note r = lanes_ok_rings [OF ok]
  have hd: "kept_root w \<in> heads w" "dump_root w \<in> heads w" "dump_local w \<in> heads w"
    "distinct [kept_root w, dump_root w, dump_local w]" using w by (auto simp: heads_def heads_ok_def)
  define Z where "Z = {zs. ring (c_links st) zs \<and> set zs \<inter> (set (kept_root w # ks) \<union> set (dump_root w # ws)) = {}}"
  have "set (kept_root w # ks) \<inter> set (dump_root w # ws) = {}" using ap hd by (auto simp: off_heads_def)
  from hand_to_dumper_ring [where Z = Z, OF r(3) [OF kp(1)] r(1) this]
  obtain L where h: "hand_to_dumper w st = st\<lparr>c_links := L\<rparr>" and L: "ring L (dump_root w # ws @ ks)" "\<forall>zs\<in>Z. ring L zs"
    by (auto simp: Z_def)
  have "dump_local w # ls \<in> Z" using r(2) ap hd by (auto simp: Z_def off_heads_def)
  then have "ring L (dump_local w # ls)" using L(2) by blast
  moreover have "dumper_ok w ?st' ls" using ok by (auto simp: lanes_ok_def h intro: dumper_ok_same)
  ultimately have lanes: "lanes_ok w ?st' ls (ws @ ks) []"
    using ok L(1) kp unfolding lanes_ok_def hand by (simp add: h own_lists_def counters_ok_def)
  have others: "keeps_others w (?q @ in_hand st) st ?st'"
    unfolding keeps_others_def
  proof (intro allI impI)
    fix zs assume "ring (c_links st) zs \<and> set zs \<inter> (heads w \<union> set (?q @ in_hand st)) = {}"
    then have "zs \<in> Z" using hd(1,2) by (auto simp: Z_def)
    then show "ring (c_links ?st') zs" using L(2) by (simp add: h)
  qed
  have "queue_view ?st' (ls @ (ws @ ks) @ []) = queue_view st ?q" unfolding queue_view_def hand by (simp add: h)
  then show ?thesis using others by (intro advancesI_idle [OF lanes]) simp_all
qed

lemma grab_next_advances:
  assumes ok: "lanes_ok w st ls ws ks" and w: "heads_ok w" and step: "grab_next w e st = Some st'"
  shows "advances w st ls ws ks st'"
proof (cases "grab_pos st")
  case Grab_start
  then have "st' = st\<lparr>grab_pos := Grab_quit\<rparr>" using step by (simp add: grab_next_def split: if_splits)
  then show ?thesis using ok Grab_start
    by (intro advances_same [OF ok]) (auto simp: in_hand_def keeping_def lanes_ok_def intro: dumper_ok_same)
next
  case (Grab_look a ps bs)
  then show ?thesis using step look_one [OF ok w] look_bucket [OF ok w] hand_over_kept [OF ok w]
    by (cases ps; cases bs) (auto simp: grab_next_def)
next
  case (Grab_adapt a)
  then obtain st1 where "update_speed_limits (r_expected e) (r_wall e) (r_now e) st = Some st1" "st' = st1\<lparr>grab_pos := Grab_doze a\<rparr>"
    using step by (auto simp: grab_next_def split: Option.bind_splits)
  then show ?thesis using ok Grab_adapt update_speed_limits_frame
    by (intro advances_same [OF ok]) (fastforce simp: in_hand_def keeping_def lanes_ok_def intro: dumper_ok_same)+
next
  case (Grab_doze a)
  then have "st' = st\<lparr>last_active_cpuwide_us := r_now e, grab_pos := Grab_asleep\<rparr>"
    using step by (auto simp: grab_next_def grab_doze_def Let_def split: Option.bind_splits)
  then show ?thesis using ok Grab_doze
    by (intro advances_same [OF ok]) (auto simp: in_hand_def keeping_def lanes_ok_def intro: dumper_ok_same)
next
  case Grab_asleep
  then have "st' = st\<lparr>last_active_cpuwide_us := r_now e, grab_pos := Grab_start\<rparr>" using step by (simp add: grab_next_def)
  then show ?thesis using ok Grab_asleep
    by (intro advances_same [OF ok]) (auto simp: in_hand_def keeping_def lanes_ok_def intro: dumper_ok_same)
next
  case Grab_quit
  then show ?thesis using step by (simp add: grab_next_def)
qed

text \<open>The waiting samples are taken.\<close>

lemma take_waiting:
  assumes ok: "lanes_ok w st ls ws ks" and w: "heads_ok w" and pos: "dump_pos st = Dump_await n" and run: "\<not> stop_flag st"
    and ne: "next_ptr (c_links st) (dump_root w) \<noteq> dump_root w"
  shows "advances w st ls ws ks ((dump_take w st)\<lparr>dump_pos := Dump_work n (next_ptr (c_links (dump_take w st)) (dump_local w))\<rparr>)"
proof -
  let ?q = "ls @ ws @ ks"
  let ?st' = "(dump_take w st)\<lparr>dump_pos := Dump_work n (next_ptr (c_links (dump_take w st)) (dump_local w))\<rparr>"
  note r = lanes_ok_rings [OF ok]
  have ls: "ls = []" using ok pos run by (simp add: lanes_ok_def dumper_ok_def)
  obtain x xs where ws: "ws = x # xs" using r(1) ne by (cases ws) (auto simp: ring_singleton)
  have hd: "kept_root w \<in> heads w" "dump_root w \<in> heads w" "dump_local w \<in> heads w"
    "distinct [kept_root w, dump_root w, dump_local w]" using w by (auto simp: heads_def heads_ok_def)
  have ap: "off_heads w (ws @ ks @ in_hand st)" using ok by (simp add: lanes_ok_def ls)
  define Z where "Z = {zs. ring (c_links st) zs \<and> set zs \<inter> set (dump_local w # dump_root w # ws) = {}}"
  have "dump_local w \<notin> set (dump_root w # ws)" using ap hd by (auto simp: off_heads_def)
  from dump_take_rings [where Z = Z, OF r(1) [unfolded ws] r(2) [unfolded ls] this [unfolded ws]]
  obtain L where t: "dump_take w st = st\<lparr>c_links := L\<rparr>" and L: "ring L [dump_root w]" "ring L (dump_local w # ws)"
    "next_ptr L (dump_local w) = x" "\<forall>zs\<in>Z. ring L zs" by (auto simp: Z_def ws)
  have hand: "in_hand ?st' = in_hand st" "keeping ?st' = keeping st" by (simp_all add: t in_hand_def keeping_def)
  have "keeping st \<longrightarrow> kept_root w # ks \<in> Z" using r(3) ap hd by (auto simp: Z_def off_heads_def)
  then have "keeping st \<longrightarrow> ring L (kept_root w # ks)" using L(4) by blast
  moreover have "dumper_ok w ?st' ws" by (simp add: dumper_ok_def t L(3) ws)
  ultimately have lanes: "lanes_ok w ?st' ws [] ks"
    using ok L(1,2) unfolding lanes_ok_def own_lists_def hand by (auto simp: ls t counters_ok_def)
  have others: "keeps_others w (?q @ in_hand st) st ?st'"
    unfolding keeps_others_def
  proof (intro allI impI)
    fix zs assume "ring (c_links st) zs \<and> set zs \<inter> (heads w \<union> set (?q @ in_hand st)) = {}"
    then have "zs \<in> Z" using hd(2,3) by (auto simp: Z_def)
    then show "ring (c_links ?st') zs" using L(4) by (simp add: t)
  qed
  have "queue_view ?st' (ws @ [] @ ks) = queue_view st ?q" unfolding queue_view_def hand by (simp add: t ls)
  then show ?thesis using others by (intro advancesI_idle [OF lanes]) simp_all
qed

text \<open>A sample is dumped.\<close>

lemma dump_first:
  assumes ok: "lanes_ok w st ls ws ks" and w: "heads_ok w" and pos: "dump_pos st = Dump_work n p" and ne: "p \<noteq> dump_local w"
  shows "advances w st ls ws ks ((dump_one n p st)\<lparr>dump_pos := Dump_work n (next_ptr (c_links st) p)\<rparr>)"
proof -
  let ?q = "ls @ ws @ ks" and ?st' = "(dump_one n p st)\<lparr>dump_pos := Dump_work n (next_ptr (c_links st) p)\<rparr>"
  note r = lanes_ok_rings [OF ok]
  obtain ps where ls: "ls = p # ps"
    using ok pos ne by (cases ls) (auto simp: lanes_ok_def dumper_ok_def)
  have hd: "kept_root w \<in> heads w" "dump_root w \<in> heads w" "dump_local w \<in> heads w"
    "distinct [kept_root w, dump_root w, dump_local w]" using w by (auto simp: heads_def heads_ok_def)
  have ap: "off_heads w (?q @ in_hand st)" using ok by (simp add: lanes_ok_def)
  have rot: "ring (c_links st) (p # (ps @ [dump_local w]))"
    using ring_rotate1 [of "c_links st" "dump_local w" "p # ps"] r(2) by (simp add: ls)
  let ?L = "remove_from_list p (c_links st)"
  have "ring ?L (ps @ [dump_local w])" using remove_from_list_ring [OF rot] by simp
  then have L: "ring ?L (dump_local w # ps)" using ring_append_commute [of _ ps "[dump_local w]"] by simp
  have frame: "ring ?L zs" if "ring (c_links st) zs" "set zs \<inter> set (dump_local w # ls) = {}" for zs
    using remove_from_list_frame [OF rot that(1)] that(2) by (auto simp: ls)
  have hand: "in_hand ?st' = in_hand st" "keeping ?st' = keeping st" by (simp_all add: dump_one_def in_hand_def keeping_def)
  have lw: "set (dump_root w # ws) \<inter> set (dump_local w # ls) = {}" and lk: "set (kept_root w # ks) \<inter> set (dump_local w # ls) = {}"
    using ap hd by (auto simp: off_heads_def)
  have "next_ptr (c_links st) p = hd (ps @ [dump_local w])"
    using ring_next_hd [OF rot] by (cases ps) simp_all
  then have "dumper_ok w ?st' ps" by (simp add: dumper_ok_def dump_one_def)
  moreover have "off_heads w (ps @ ws @ ks @ in_hand st)" by (rule off_heads_sub [OF ap]) (simp add: ls)
  moreover have "ring ?L (dump_root w # ws)" "keeping st \<longrightarrow> ring ?L (kept_root w # ks)"
    using frame r(1,3) lw lk by blast+
  ultimately have lanes: "lanes_ok w ?st' ps ws ks"
    using ok L unfolding lanes_ok_def own_lists_def hand by (auto simp: ls dump_one_def counters_ok_def)
  have others: "keeps_others w (ls @ ws @ ks @ in_hand st) st ?st'"
    unfolding keeps_others_def using frame hd(3) by (auto simp: dump_one_def)
  have "queue_view ?st' (ps @ ws @ ks) = queue_view st ?q \<lparr>h_queue := ps @ ws @ ks, h_dumped := h_dumped (queue_view st ?q) @ [(n, p)]\<rparr>"
    unfolding queue_view_def hand by (simp add: dump_one_def)
  then have "hand_off_step (max_pending w) {#} (queue_view st ?q) (queue_view ?st' (ps @ ws @ ks))"
    using hand_off_step.delivered [of "queue_view st ?q" p "ps @ ws @ ks" "max_pending w" n] by (simp add: queue_view_def ls)
  then show ?thesis by (rule advancesI [OF lanes others])
qed

lemma dump_next_advances:
  assumes ok: "lanes_ok w st ls ws ks" and w: "heads_ok w" and step: "dump_next w st = Some st'"
  shows "advances w st ls ws ks st'"
proof (cases "dump_pos st")
  case (Dump_start n)
  then have "st' = st\<lparr>dump_pos := if stop_flag st then Dump_quit else Dump_await (n + 1)\<rparr>"
    using step by (simp add: dump_next_def)
  then show ?thesis using ok Dump_start
    by (intro advances_same [OF ok]) (auto simp: in_hand_def keeping_def lanes_ok_def dumper_ok_def)
next
  case (Dump_await n)
  show ?thesis
  proof (cases "stop_flag st")
    case True
    then have "st' = st\<lparr>dump_pos := Dump_quit\<rparr>" using step Dump_await by (simp add: dump_next_def)
    then show ?thesis using ok True
      by (intro advances_same [OF ok]) (auto simp: in_hand_def keeping_def dumper_ok_def)
  next
    case False
    then show ?thesis using step Dump_await take_waiting [OF ok w Dump_await False]
      by (auto simp: dump_next_def Let_def split: if_splits)
  qed
next
  case (Dump_work n p)
  show ?thesis
  proof (cases "stop_flag st \<or> p = dump_local w")
    case True
    then have st': "st' = st\<lparr>dump_pos := Dump_start n\<rparr>" using step Dump_work by (simp add: dump_next_def)
    have "p = hd (ls @ [dump_local w])" "heads w \<inter> set ls = {}"
      using ok Dump_work by (auto simp: lanes_ok_def dumper_ok_def off_heads_def)
    then have "ls = [] \<or> stop_flag st" using True by (cases ls) (auto simp: heads_def)
    then show ?thesis unfolding st'
      by (intro advances_same [OF ok]) (auto simp: in_hand_def keeping_def dumper_ok_def)
  next
    case False
    then show ?thesis using step Dump_work dump_first [OF ok w Dump_work] by (simp add: dump_next_def)
  qed
next
  case Dump_quit
  then show ?thesis using step by (simp add: dump_next_def)
qed

text \<open>The start of a round, with the samples \<open>xs\<close> that \<open>reset()\<close> returned.\<close>

definition headed :: "u64 links \<Rightarrow> u64 option \<Rightarrow> u64 list \<Rightarrow> bool" where
  "headed l head xs \<longleftrightarrow> (case head of None \<Rightarrow> xs = [] | Some h \<Rightarrow> xs \<noteq> [] \<and> hd xs = h \<and> ring l xs)"

lemma begin_with_samples:
  assumes ok: "lanes_ok w st ls ws ks" and w: "heads_ok w" and pos: "grab_pos st = Grab_start"
    and h: "ring (c_links st) (h # xs)" and new: "off_heads w (ls @ ws @ h # xs)"
    and step: "grab_begin w (Some h) st = Some st'"
  shows "lanes_ok w st' ls ws [] \<and> keeps_others w (ls @ ws @ h # xs) st st' \<and>
    queue_view st' (ls @ ws) = queue_view st (ls @ ws) \<lparr>h_new := mset (h # xs)\<rparr>"
proof -
  note r = lanes_ok_rings [OF ok]
  have hd: "tmp_root w \<in> heads w" "kept_root w \<in> heads w" "dump_root w \<in> heads w" "dump_local w \<in> heads w"
    "distinct [tmp_root w, kept_root w, dump_root w, dump_local w]" using w by (auto simp: heads_def heads_ok_def)
  have idle: "\<not> keeping st" "in_hand st = []" by (simp_all add: keeping_def in_hand_def pos)
  have ks: "ks = []" using ok idle(1) by (simp add: lanes_ok_def)
  define Z where "Z = {zs. ring (c_links st) zs \<and> set zs \<inter> set (tmp_root w # h # xs) = {} \<and> kept_root w \<notin> set zs}"
  have "tmp_root w \<notin> set (h # xs)" using new hd by (auto simp: off_heads_def)
  from take_in_rings [where Z = Z, OF h this]
  obtain L P where t: "take_in w (Some h) st = Some (st\<lparr>c_links := L, prep_map := P\<rparr>)"
    and P: "mset (all_of P) = mset (h # xs)" and L: "ring L [kept_root w]" "\<forall>zs\<in>Z. ring L zs"
    by (auto simp: Z_def)
  obtain a where st': "st' = st\<lparr>c_links := L, prep_map := P, grab_pos := Grab_look a [] P\<rparr>"
    using step by (auto simp: grab_begin_def t split: Option.bind_splits)
  have "set (dump_root w # ws) \<inter> set (tmp_root w # h # xs) = {}" "kept_root w \<notin> set (dump_root w # ws)"
    "set (dump_local w # ls) \<inter> set (tmp_root w # h # xs) = {}" "kept_root w \<notin> set (dump_local w # ls)"
    using new hd by (auto simp: off_heads_def)
  then have "dump_root w # ws \<in> Z" "dump_local w # ls \<in> Z" using r(1,2) unfolding Z_def by blast+
  then have L2: "ring L (dump_root w # ws)" "ring L (dump_local w # ls)" using L(2) by blast+
  have hand: "in_hand st' = all_of P" "keeping st'" by (simp_all add: st' in_hand_def keeping_def)
  have "mset (ls @ ws @ all_of P) = mset (ls @ ws @ h # xs)" using P by simp
  then have "off_heads w (ls @ ws @ [] @ in_hand st')" unfolding hand by (intro off_heads_sub [OF new]) simp
  moreover have "dumper_ok w st' ls" using ok by (auto simp: lanes_ok_def st' intro: dumper_ok_same)
  ultimately have "lanes_ok w st' ls ws []"
    using ok L(1) L2 hand(2) unfolding lanes_ok_def by (simp add: st' own_lists_def counters_ok_def ks)
  moreover have "keeps_others w (ls @ ws @ h # xs) st st'"
    unfolding keeps_others_def
  proof (intro allI impI)
    fix zs assume "ring (c_links st) zs \<and> set zs \<inter> (heads w \<union> set (ls @ ws @ h # xs)) = {}"
    then have "zs \<in> Z" using hd(1,2) by (auto simp: Z_def)
    then show "ring (c_links st') zs" using L(2) by (simp add: st')
  qed
  moreover have "queue_view st' (ls @ ws) = queue_view st (ls @ ws) \<lparr>h_new := mset (h # xs)\<rparr>"
    unfolding queue_view_def hand P by (simp add: st')
  ultimately show ?thesis by blast
qed

lemma grab_begin_ok:
  assumes ok: "lanes_ok w st ls ws ks" and w: "heads_ok w" and pos: "grab_pos st = Grab_start"
    and h: "headed (c_links st) head xs" and new: "off_heads w (ls @ ws @ xs)"
    and step: "grab_begin w head st = Some st'"
  shows "ks = [] \<and> lanes_ok w st' ls ws [] \<and> keeps_others w (ls @ ws @ xs) st st' \<and>
    hand_off_step (max_pending w) (mset xs) (queue_view st (ls @ ws)) (queue_view st' (ls @ ws))"
proof -
  have idle: "\<not> keeping st" "in_hand st = []" by (simp_all add: keeping_def in_hand_def pos)
  have ks: "ks = []" using ok idle(1) by (simp add: lanes_ok_def)
  have new0: "h_new (queue_view st (ls @ ws)) = {#}" by (simp add: queue_view_def idle)
  show ?thesis
  proof (cases head)
    case None
    then have xs: "xs = []" using h by (simp add: headed_def)
    have "c_links st' = c_links st \<and> in_hand st' = [] \<and> \<not> keeping st' \<and> dump_pos st' = dump_pos st \<and> stop_flag st' = stop_flag st \<and>
        grab_count st' = grab_count st \<and> drop_count st' = drop_count st \<and> dump_count st' = dump_count st \<and>
        destroyed st' = destroyed st \<and> dumped st' = dumped st"
      using step by (auto simp: None grab_begin_def take_in_def Let_def in_hand_def keeping_def split: Option.bind_splits)
    moreover from this have "dumper_ok w st' ls" using ok by (auto simp: lanes_ok_def intro: dumper_ok_same)
    ultimately show ?thesis
      using lanes_ok_same [OF ok, of st' "ls @ ws @ xs" "max_pending w"] idle by (simp add: xs ks)
  next
    case (Some h0)
    then obtain ys where xs: "xs = h0 # ys" "ring (c_links st) (h0 # ys)" using h by (cases xs) (auto simp: headed_def)
    from begin_with_samples [OF ok w pos xs(2) new [unfolded xs(1)] step [unfolded Some]]
    show ?thesis using hand_off_step.arrived [OF new0, of "max_pending w" "mset xs"] ks by (simp add: xs(1))
  qed
qed

text \<open>A round can begin while the clock is in its range.\<close>

lemma grab_begin_returns:
  assumes h: "headed (c_links st) head xs" and t: "tmp_root w \<notin> set xs"
    and "long_range (last_active_cpuwide_us st + COLLECTOR_GRAB_INTERVAL_US)"
  shows "\<exists>st'. grab_begin w head st = Some st' \<and> dump_pos st' = dump_pos st \<and> stop_flag st' = stop_flag st"
proof (cases head)
  case None
  then show ?thesis using assms(3) by (simp add: grab_begin_def take_in_def Let_def)
next
  case (Some h0)
  then obtain ys where "xs = h0 # ys" "ring (c_links st) (h0 # ys)" using h by (cases xs) (auto simp: headed_def)
  then obtain L P where "take_in w (Some h0) st = Some (st\<lparr>c_links := L, prep_map := P\<rparr>)"
    using take_in_rings [where Z = "{}", of st h0 ys w] t by auto
  then show ?thesis using assms(3) by (simp add: grab_begin_def Some)
qed

text \<open>The destructor sets \<open>stop_\<close>; other threads change links that are not of these lists.\<close>

lemma stop_advances:
  assumes ok: "lanes_ok w st ls ws ks"
  shows "advances w st ls ws ks (st\<lparr>stop_flag := True\<rparr>)"
proof -
  have "dumper_ok w (st\<lparr>stop_flag := True\<rparr>) ls" using ok by (cases "dump_pos st") (simp_all add: lanes_ok_def dumper_ok_def)
  then show ?thesis by (intro advances_same [OF ok]) (simp_all add: in_hand_def keeping_def)
qed

lemma lanes_ok_links:
  assumes ok: "lanes_ok w st ls ws ks" and r: "\<forall>zs \<in> own_lists w st ls ws ks. ring l zs"
  shows "lanes_ok w (st\<lparr>c_links := l\<rparr>) ls ws ks" and "queue_view (st\<lparr>c_links := l\<rparr>) q = queue_view st q"
    and "own_lists w (st\<lparr>c_links := l\<rparr>) ls ws ks = own_lists w st ls ws ks" and "in_hand (st\<lparr>c_links := l\<rparr>) = in_hand st"
proof -
  have k: "in_hand (st\<lparr>c_links := l\<rparr>) = in_hand st" "keeping (st\<lparr>c_links := l\<rparr>) = keeping st"
    by (simp_all add: in_hand_def keeping_def)
  show o: "own_lists w (st\<lparr>c_links := l\<rparr>) ls ws ks = own_lists w st ls ws ks" by (simp add: own_lists_def k)
  have "dumper_ok w (st\<lparr>c_links := l\<rparr>) ls" using ok by (auto simp: lanes_ok_def intro: dumper_ok_same)
  then show "lanes_ok w (st\<lparr>c_links := l\<rparr>) ls ws ks"
    using ok r unfolding lanes_ok_def o k by (auto simp: counters_ok_def)
  show "queue_view (st\<lparr>c_links := l\<rparr>) q = queue_view st q" by (simp add: queue_view_def k)
  show "in_hand (st\<lparr>c_links := l\<rparr>) = in_hand st" by (rule k)
qed

lemma lanes_ok_init:
  assumes "heads_ok w" and "ring l [dump_root w]" and "ring l [dump_local w]"
  shows "lanes_ok w (collector_init now l sls) [] [] []" and "queue_view (collector_init now l sls) [] = hand_off_init"
  using assms by (simp_all add: lanes_ok_def own_lists_def in_hand_def keeping_def collector_init_def off_heads_def
    dumper_ok_def counters_ok_def heads_ok_def queue_view_def hand_off_init_def)

end
