(* ===== verification/Sample_Intake.thy ===== *)
theory Sample_Intake
  imports Grab_Dump Reducer_Total
begin

text \<open>
  The collector as the reducer it is (\<^verbatim>\<open>class Collector : public Reducer<Collected*, CombineCollected>\<close>
  in \<^verbatim>\<open>src/collector.cpp\<close>): submitted samples are linked in the agents of the submitting threads,
  reach the grab thread by \<open>reset()\<close>, and go through the lists of the collector from there. The
  links of the samples are the world of the reducer and \<open>c_links\<close> of the collector.
\<close>

type_synonym intake = "(u64 option, u64 links) group"

section \<open>Linked samples as values of a reducer\<close>

text \<open>A pointer to the first sample of a circular list is worth the samples of the list.\<close>

definition denotes :: "u64 links \<Rightarrow> u64 option \<Rightarrow> u64 multiset \<Rightarrow> bool" where
  "denotes l v x \<longleftrightarrow> (case v of None \<Rightarrow> x = {#} | Some h \<Rightarrow> \<exists>xs. ring l (h # xs) \<and> x = mset (h # xs))"

definition all_samples :: "(u64 option \<times> u64 multiset) multiset \<Rightarrow> u64 multiset" where
  "all_samples P = sum_mset (image_mset snd P)"

lemma all_samples_simps [simp]: "all_samples {#} = {#}" "all_samples (add_mset p P) = snd p + all_samples P"
    "all_samples (P + Q) = all_samples P + all_samples Q"
  by (simp_all add: all_samples_def)

text \<open>The lists of different values share no sample, and keep off the lists \<open>F\<close> of the collector.\<close>

definition linked :: "u64 list set \<Rightarrow> u64 links \<Rightarrow> (u64 option \<times> u64 multiset) multiset \<Rightarrow> bool" where
  "linked F l P \<longleftrightarrow> (\<forall>p \<in># P. denotes l (fst p) (snd p)) \<and> (\<forall>n. count (all_samples P) n \<le> 1) \<and>
     (\<forall>zs \<in> F. ring l zs \<and> (\<forall>n \<in> set zs. n \<notin># all_samples P))"

lemma in_all_samples: "p \<in># P \<Longrightarrow> n \<in># snd p \<Longrightarrow> n \<in># all_samples P"
proof -
  assume "p \<in># P" and n: "n \<in># snd p"
  then obtain Q where "P = add_mset p Q" using multi_member_split [of p P] by blast
  then show ?thesis using n by simp
qed

lemma count_le_one_disjoint: "\<forall>n. count (x + y) n \<le> (1 :: nat) \<Longrightarrow> n \<in># x \<Longrightarrow> n \<notin># y"
proof
  assume once: "\<forall>k. count (x + y) k \<le> 1" and "n \<in># x" "n \<in># y"
  then have "0 < count x n" "0 < count y n" by (simp_all add: count_greater_zero_iff)
  moreover have "count x n + count y n \<le> 1" using once by (metis count_union)
  ultimately show False by linarith
qed

lemma linked_join:
  assumes lk: "linked F l (add_mset (a, x) (add_mset (b, y) P))" and op: "CombineCollected a b l = (c, l')"
  shows "linked F l' (add_mset (c, x + y) P)"
proof (cases "a = None \<or> b = None")
  case True
  then show ?thesis using lk op
    by (auto simp: linked_def denotes_def CombineCollected_def add.assoc split: option.splits)
next
  case False
  then obtain h k where ab: "a = Some h" "b = Some k" by auto
  obtain xs ys where r: "ring l (h # xs)" "x = mset (h # xs)" "ring l (k # ys)" "y = mset (k # ys)"
    using lk by (auto simp: linked_def denotes_def ab)
  have once: "\<forall>n. count (x + (y + all_samples P)) n \<le> 1" using lk by (simp add: linked_def)
  have dis: "set (h # xs) \<inter> set (k # ys) = {}"
    using count_le_one_disjoint [OF once] r(2,4) by (auto simp flip: set_mset_mset)
  have once2: "\<forall>n. count ((x + y) + all_samples P) n \<le> 1" using once by (simp add: add.assoc)
  have c: "c = a" and l': "l' = insert_before_as_list h k l" using op by (simp_all add: ab CombineCollected_def)
  have frame: "ring l' zs" if "ring l zs" "set zs \<inter> (set (h # xs) \<union> set (k # ys)) = {}" for zs
    unfolding l' by (rule ll.splice_frame [OF r(1,3) that])
  have "ring l' ((k # ys) @ (h # xs))" using ll.splice_join [OF r(1,3) dis] by (simp add: l')
  then have "ring l' (h # xs @ k # ys)" using ring_append_commute by fastforce
  then have "denotes l' c (x + y)" by (auto simp: denotes_def c ab r(2,4))
  moreover have "denotes l' (fst p) (snd p)" if p: "p \<in># P" for p
  proof (cases "fst p")
    case (Some j)
    have "denotes l (fst p) (snd p)" using lk p by (simp add: linked_def)
    then obtain zs where z: "ring l (j # zs)" "snd p = mset (j # zs)" by (auto simp: denotes_def Some)
    have "n \<notin># x + y" if "n \<in># snd p" for n
      using count_le_one_disjoint [OF once2] in_all_samples [OF p that] by blast
    then have "ring l' (j # zs)" by (intro frame z(1)) (auto simp: z(2) r(2,4) simp flip: set_mset_mset)
    then show ?thesis using z(2) by (auto simp: denotes_def Some)
  qed (use lk p in \<open>auto simp: linked_def denotes_def\<close>)
  moreover have "ring l' zs \<and> (\<forall>n \<in> set zs. n \<notin># x + y + all_samples P)" if z: "zs \<in> F" for zs
  proof -
    have "ring l zs" and off: "\<forall>n \<in> set zs. n \<notin># x + (y + all_samples P)" using lk z by (simp_all add: linked_def)
    then have "ring l' zs" by (intro frame) (auto simp: r(2,4))
    then show ?thesis using off by (simp add: add.assoc)
  qed
  ultimately show ?thesis using once2 by (auto simp: linked_def)
qed

interpretation intake: combining CombineCollected None "linked F" for F
proof unfold_locales
  fix w :: "u64 links" and P and p :: "u64 option \<times> u64 multiset" and a b c x y w'
  show "linked F w P \<Longrightarrow> linked F w (add_mset (None, 0) P)" by (auto simp: linked_def denotes_def)
  show "linked F w P" if l: "linked F w (add_mset p P)"
  proof -
    have "count (all_samples P) n \<le> 1" for n
      using l unfolding linked_def by (metis add_leD2 all_samples_simps(2) count_union)
    then show ?thesis using l by (auto simp: linked_def)
  qed
  show "linked F w (add_mset (a, x) (add_mset (b, y) P)) \<Longrightarrow> CombineCollected a b w = (c, w') \<Longrightarrow>
      linked F w' (add_mset (c, x + y) P)" by (rule linked_join)
qed

section \<open>Samples and lists of the collector side by side\<close>

lemma linked_empty: "(\<forall>zs \<in> F. ring l zs) \<Longrightarrow> linked F l {#}"
  by (simp add: linked_def)

lemma linked_off:
  "linked F l P \<Longrightarrow> zs \<in> F \<Longrightarrow> ring l zs \<and> set zs \<inter> set_mset (all_samples P) = {}"
  by (auto simp: linked_def)

text \<open>Whoever keeps the rings of the values keeps what they denote.\<close>

lemma linked_relink:
  assumes lk: "linked F l P"
    and keep: "\<And>zs. ring l zs \<Longrightarrow> set zs \<subseteq> set_mset (all_samples P) \<Longrightarrow> ring l' zs"
    and F': "\<And>zs. zs \<in> F' \<Longrightarrow> ring l' zs \<and> set zs \<inter> set_mset (all_samples P) = {}"
  shows "linked F' l' P"
proof -
  have "denotes l' (fst p) (snd p)" if p: "p \<in># P" for p
  proof (cases "fst p")
    case None
    then show ?thesis using lk p by (auto simp: linked_def denotes_def)
  next
    case (Some j)
    have "denotes l (fst p) (snd p)" using lk p by (simp add: linked_def)
    then obtain zs where z: "ring l (j # zs)" "snd p = mset (j # zs)" by (auto simp: denotes_def Some)
    have "set (j # zs) \<subseteq> set_mset (all_samples P)"
      using in_all_samples [OF p] unfolding z(2) by (metis set_mset_mset subsetI)
    from keep [OF z(1) this] show ?thesis using z(2) by (auto simp: denotes_def Some)
  qed
  then show ?thesis using lk F' by (auto simp: linked_def)
qed

text \<open>A sample that was just constructed is a list of its own.\<close>

definition self_linked :: "u64 option \<Rightarrow> u64 multiset" where
  "self_linked v = (case v of None \<Rightarrow> {#} | Some p \<Rightarrow> {#p#})"

lemma self_linked_Some [simp]: "self_linked (Some p) = {#p#}"
  by (simp add: self_linked_def)

lemma all_samples_pairs [simp]: "all_samples (pairs self_linked (map Some ps)) = mset ps"
  by (induction ps) simp_all

lemma linked_ready:
  assumes "linked F l P" and "distinct ps"
    and "\<And>p. p \<in> set ps \<Longrightarrow> ring l [p] \<and> p \<notin># all_samples P \<and> (\<forall>zs \<in> F. p \<notin> set zs)"
  shows "linked F l (pairs self_linked (map Some ps) + P)"
  using assms(2,3)
proof (induction ps)
  case Nil
  then show ?case using assms(1) by simp
next
  case (Cons p ps)
  then have IH: "linked F l (pairs self_linked (map Some ps) + P)" by simp
  have p: "ring l [p]" "p \<notin># all_samples P" "\<forall>zs \<in> F. p \<notin> set zs" "p \<notin> set ps" using Cons.prems by auto
  have "count (all_samples P) p = 0" "count (mset ps) p = 0" using p(2,4) by (simp_all add: not_in_iff)
  then have "count (all_samples (pairs self_linked (map Some (p # ps)) + P)) n \<le> 1" for n
    using IH by (cases "n = p") (auto simp: linked_def)
  then show ?case using IH p(1,3)
    by (auto simp: linked_def denotes_def)
qed

text \<open>With one combiner, the values of the group are what this combiner holds.\<close>

lemma all_samples_worths:
  assumes ok: "group_ok sz g" and c: "dom (combiners g) = {c}"
  shows "all_samples (worths g val) = holdings (owner g) val c"
proof -
  let ?A = "{a. owner g a = Some c}"
  have own: "{a. owner g a \<noteq> None} = ?A" using group_okD(5) [OF ok] c by fastforce
  have fin: "finite ?A" using finite_owned [OF ok] unfolding own .
  have s: "slots g = insert (Global c) (Elem ` ?A)" unfolding slots_def own c by simp
  have "all_samples (worths g val) = (\<Sum>x\<in>slots g. val x)"
    by (simp add: all_samples_def worths_def rest_def image_mset.compositionality comp_def sum_unfold_sum_mset)
  also have "\<dots> = val (Global c) + (\<Sum>x\<in>Elem ` ?A. val x)"
    unfolding s using fin by (subst sum.insert) auto
  also have "(\<Sum>x\<in>Elem ` ?A. val x) = (\<Sum>a\<in>?A. val (Elem a))"
    by (subst sum.reindex) (auto intro: inj_onI)
  finally show ?thesis by (simp add: holdings_def)
qed

section \<open>Submitting threads, grab thread and dump thread\<close>

text \<open>
  A sample is outside when it was destroyed or dumped as often as it was submitted: it can be
  constructed and submitted (again). \<open>ready\<close> says that the samples \<open>ps\<close> can be submitted.
\<close>

definition outside :: "u64 list \<Rightarrow> collector \<Rightarrow> u64 \<Rightarrow> bool" where
  "outside subs st p \<longleftrightarrow> count (mset subs) p = count (mset (destroyed st) + mset (map snd (dumped st))) p"

definition ready :: "surroundings \<Rightarrow> u64 list \<Rightarrow> collector \<Rightarrow> u64 list \<Rightarrow> bool" where
  "ready w subs st ps \<longleftrightarrow> distinct ps \<and>
     (\<forall>p \<in> set ps. ring (c_links st) [p] \<and> p \<notin> heads w \<and> outside subs st p)"

text \<open>
  The steps of the threads that use the collector: one constructs a sample, submits it, or exits. \<open>c\<close>
  is the combiner of the collector, \<open>sz\<close> the size of an agent, \<open>subs\<close> the samples submitted so far; a
  step submits the samples \<open>ps\<close>.
\<close>

inductive user_step ::
  "surroundings \<Rightarrow> nat \<Rightarrow> nat \<Rightarrow> u64 list \<Rightarrow> intake \<Rightarrow> collector \<Rightarrow> u64 list \<Rightarrow> intake \<Rightarrow> collector \<Rightarrow> bool" for w sz c where
  construct: "p \<notin> heads w \<Longrightarrow> outside subs st p \<Longrightarrow>
    user_step w sz c subs g st [] (g\<lparr>world := LinkNode p (c_links st)\<rparr>) (st\<lparr>c_links := LinkNode p (c_links st)\<rparr>)"
| submitted: "ready w subs st [p] \<Longrightarrow> submit sz CombineCollected t c (Some p) g = Some g' \<Longrightarrow>
    user_step w sz c subs g st [p] g' (st\<lparr>c_links := world g'\<rparr>)"
| exited: "exit_thread sz CombineCollected t g = Some g' \<Longrightarrow>
    user_step w sz c subs g st [] g' (st\<lparr>c_links := world g'\<rparr>)"

text \<open>
  The steps of all threads. The samples of the start of a round are what other threads submit while
  the grab thread resets the combiner. \<open>stop_\<close> is set by the destructor of the collector.
\<close>

inductive system_step ::
  "surroundings \<Rightarrow> nat \<Rightarrow> nat \<Rightarrow> u64 list \<Rightarrow> intake \<Rightarrow> collector \<Rightarrow> u64 list \<Rightarrow> intake \<Rightarrow> collector \<Rightarrow> bool" for w sz c where
  used: "user_step w sz c subs g st ps g' st' \<Longrightarrow> system_step w sz c subs g st ps g' st'"
| grab_began: "grab_pos st = Grab_start \<Longrightarrow> \<not> stop_flag st \<Longrightarrow> ready w subs st ps \<Longrightarrow>
    taken sz c g (concat (map others [0..<card {a. owner g a = Some c}])) = map Some ps \<Longrightarrow>
    reset sz CombineCollected others c g = Some (h, g') \<Longrightarrow>
    grab_begin w h (st\<lparr>c_links := world g'\<rparr>) = Some st' \<Longrightarrow>
    system_step w sz c subs g st ps (g'\<lparr>world := c_links st'\<rparr>) st'"
| grab_moved: "grab_next w e st = Some st' \<Longrightarrow> system_step w sz c subs g st [] (g\<lparr>world := c_links st'\<rparr>) st'"
| dump_moved: "dump_next w st = Some st' \<Longrightarrow> system_step w sz c subs g st [] (g\<lparr>world := c_links st'\<rparr>) st'"
| stop_set: "system_step w sz c subs g st [] g (st\<lparr>stop_flag := True\<rparr>)"

text \<open>The states these steps reach, in any order, from a collector that was just constructed.\<close>

inductive system :: "surroundings \<Rightarrow> nat \<Rightarrow> nat \<Rightarrow> u64 list \<Rightarrow> intake \<Rightarrow> collector \<Rightarrow> bool" for w sz c where
  created: "ring l [dump_root w] \<Longrightarrow> ring l [dump_local w] \<Longrightarrow>
    Reducer_new None c (group_init None l) = Some g \<Longrightarrow> system w sz c [] g (collector_init now l sls)"
| step: "system w sz c subs g st \<Longrightarrow> system_step w sz c subs g st ps g' st' \<Longrightarrow> system w sz c (subs @ ps) g' st'"

text \<open>The threads of the collector have the samples of \<open>queue_view\<close>, the values of the combiner are worth \<open>val\<close>.\<close>

definition machine_ok :: "surroundings \<Rightarrow> nat \<Rightarrow> nat \<Rightarrow> u64 list \<Rightarrow> intake \<Rightarrow> collector \<Rightarrow>
    u64 list \<Rightarrow> u64 list \<Rightarrow> u64 list \<Rightarrow> (slot \<Rightarrow> u64 multiset) \<Rightarrow> bool" where
  "machine_ok w sz c subs g st ls ws ks val \<longleftrightarrow> group_ok sz g \<and> identities None g \<and> dom (combiners g) = {c} \<and>
     accounts (linked (own_lists w st ls ws ks)) g val {#} \<and> world g = c_links st \<and> lanes_ok w st ls ws ks \<and>
     (heads w \<union> set_mset (h_inside (queue_view st (ls @ ws @ ks)))) \<inter> set_mset (holdings (owner g) val c) = {} \<and>
     mset subs = h_total (queue_view st (ls @ ws @ ks)) + holdings (owner g) val c"

definition system_ok :: "surroundings \<Rightarrow> nat \<Rightarrow> nat \<Rightarrow> u64 list \<Rightarrow> intake \<Rightarrow> collector \<Rightarrow> u64 list \<Rightarrow>
    (slot \<Rightarrow> u64 multiset) \<Rightarrow> bool" where
  "system_ok w sz c subs g st pend val \<longleftrightarrow>
     (\<exists>ls ws ks. pend = ls @ ws @ ks @ in_hand st \<and> machine_ok w sz c subs g st ls ws ks val)"

lemma inside_view: "h_inside (queue_view st q) = mset (q @ in_hand st)"
  by (simp add: h_inside_def queue_view_def)

lemma total_view: "h_total (queue_view st q) = mset (destroyed st) + mset (map snd (dumped st)) + mset (q @ in_hand st)"
  by (simp add: h_total_def h_inside_def queue_view_def)

lemma machine_ok_linked:
  "machine_ok w sz c subs g st ls ws ks val \<Longrightarrow> linked (own_lists w st ls ws ks) (c_links st) (worths g val)"
  by (auto simp: machine_ok_def accounts_def)

lemma machine_ok_samples:
  "machine_ok w sz c subs g st ls ws ks val \<Longrightarrow> all_samples (worths g val) = holdings (owner g) val c"
  unfolding machine_ok_def by (intro all_samples_worths) auto

lemma machine_ok_combiner:
  assumes "machine_ok w sz c subs g st ls ws ks val"
  obtains k where "group_ok sz g" "identities None g" "combiners g c = Some k" "dom (combiners g) = {c}"
  using assms by (auto simp: machine_ok_def)

lemma machine_outside:
  assumes "machine_ok w sz c subs g st ls ws ks val" and "outside subs st p"
  shows "p \<notin> set (ls @ ws @ ks @ in_hand st)" and "p \<notin># holdings (owner g) val c"
proof -
  have "count (mset (ls @ ws @ ks @ in_hand st)) p + count (holdings (owner g) val c) p = 0"
    using assms by (simp add: machine_ok_def total_view outside_def)
  then have "p \<notin># mset (ls @ ws @ ks @ in_hand st)" and h: "p \<notin># holdings (owner g) val c"
    unfolding not_in_iff add_is_0 by blast+
  then show "p \<notin> set (ls @ ws @ ks @ in_hand st)" and "p \<notin># holdings (owner g) val c"
    unfolding set_mset_mset by blast+
qed

text \<open>The samples of the lists are those of the two threads.\<close>

lemma own_lists_within:
  "lanes_ok w st ls ws ks \<Longrightarrow> zs \<in> own_lists w st ls ws ks \<Longrightarrow> set zs \<subseteq> heads w \<union> set (ls @ ws @ ks @ in_hand st)"
  by (auto simp: own_lists_def heads_def split: if_splits)

text \<open>What is ready can be added to the values of the combiner.\<close>

lemma ready_linked:
  assumes ok: "machine_ok w sz c subs g st ls ws ks val" and r: "ready w subs st ps"
  shows "accounts (linked (own_lists w st ls ws ks)) g val (pairs self_linked (map Some ps) + {#})"
proof -
  have lanes: "lanes_ok w st ls ws ks" using ok by (simp add: machine_ok_def)
  have "linked (own_lists w st ls ws ks) (c_links st) (pairs self_linked (map Some ps) + worths g val)"
  proof (rule linked_ready [OF machine_ok_linked [OF ok]])
    show "distinct ps" using r by (simp add: ready_def)
    fix p assume "p \<in> set ps"
    then have p: "ring (c_links st) [p]" "p \<notin> heads w" "outside subs st p" using r by (simp_all add: ready_def)
    then show "ring (c_links st) [p] \<and> p \<notin># all_samples (worths g val) \<and> (\<forall>zs \<in> own_lists w st ls ws ks. p \<notin> set zs)"
      using machine_outside [OF ok p(3)] own_lists_within [OF lanes] by (auto simp: machine_ok_samples [OF ok])
  qed
  then show ?thesis using ok by (simp add: accounts_def machine_ok_def add.commute)
qed

section \<open>Every step keeps the samples\<close>

text \<open>A thread whose operation left the combiner worth the samples \<open>ps\<close> more.\<close>

lemma machine_ok_move:
  assumes ok: "machine_ok w sz c subs g st ls ws ks val"
    and g': "group_ok sz g'" "identities None g'" "dom (combiners g') = {c}"
      "accounts (linked (own_lists w st ls ws ks)) g' val' {#}"
      "holdings (owner g') val' c = holdings (owner g) val c + mset ps"
    and ps: "(heads w \<union> set (ls @ ws @ ks @ in_hand st)) \<inter> set ps = {}"
  shows "machine_ok w sz c (subs @ ps) g' (st\<lparr>c_links := world g'\<rparr>) ls ws ks val' \<and>
    hand_off_step (max_pending w) {#} (queue_view st (ls @ ws @ ks)) (queue_view (st\<lparr>c_links := world g'\<rparr>) (ls @ ws @ ks))"
proof -
  have lanes: "lanes_ok w st ls ws ks" using ok by (simp add: machine_ok_def)
  have r: "\<forall>zs \<in> own_lists w st ls ws ks. ring (world g') zs" using g'(4) by (simp add: accounts_def linked_def)
  note same = lanes_ok_links [OF lanes r]
  have i: "set_mset (h_inside (queue_view st (ls @ ws @ ks))) = set (ls @ ws @ ks @ in_hand st)"
    by (simp add: inside_view Un_assoc)
  have "(heads w \<union> set_mset (h_inside (queue_view st (ls @ ws @ ks)))) \<inter> set_mset (holdings (owner g') val' c) = {}"
    using ok ps unfolding machine_ok_def g'(5) i by auto
  then show ?thesis
    using ok g' same(1) unfolding machine_ok_def same(2,3) by (simp add: hand_off_step.idle)
qed

lemma submit_machine:
  assumes ok: "machine_ok w sz c subs g st ls ws ks val" and sz: "0 < sz" and r: "ready w subs st [p]"
  shows "\<exists>g' val'. submit sz CombineCollected t c (Some p) g = Some g' \<and>
    machine_ok w sz c (subs @ [p]) g' (st\<lparr>c_links := world g'\<rparr>) ls ws ks val' \<and>
    hand_off_step (max_pending w) {#} (queue_view st (ls @ ws @ ks)) (queue_view (st\<lparr>c_links := world g'\<rparr>) (ls @ ws @ ks))"
proof -
  obtain k where k: "group_ok sz g" "identities None g" "combiners g c = Some k" "dom (combiners g) = {c}"
    by (rule machine_ok_combiner [OF ok])
  have "accounts (linked (own_lists w st ls ws ks)) g val (add_mset (Some p, {#p#}) {#})"
    using ready_linked [OF ok r] by simp
  from intake.submit_accounts [OF k(1) sz k(3,2) this, of t] obtain g' val' where
    g': "submit sz CombineCollected t c (Some p) g = Some g'" "group_ok sz g'" "identities None g'" "dom (combiners g') = {c}"
      "accounts (linked (own_lists w st ls ws ks)) g' val' {#}" "holdings (owner g') val' c = holdings (owner g) val c + mset [p]"
    unfolding k(4) by auto
  have p: "p \<notin> heads w" "outside subs st p" using r by (simp_all add: ready_def)
  have "(heads w \<union> set (ls @ ws @ ks @ in_hand st)) \<inter> set [p] = {}" using p(1) machine_outside(1) [OF ok p(2)] by auto
  from machine_ok_move [OF ok g'(2-6) this] show ?thesis using g'(1) by blast
qed

lemma exit_machine:
  assumes ok: "machine_ok w sz c subs g st ls ws ks val" and sz: "0 < sz"
    and ex: "exit_thread sz CombineCollected t g = Some g'"
  shows "\<exists>val'. machine_ok w sz c subs g' (st\<lparr>c_links := world g'\<rparr>) ls ws ks val' \<and>
    hand_off_step (max_pending w) {#} (queue_view st (ls @ ws @ ks)) (queue_view (st\<lparr>c_links := world g'\<rparr>) (ls @ ws @ ks))"
proof -
  obtain k where k: "group_ok sz g" "identities None g" "combiners g c = Some k" "dom (combiners g) = {c}"
    by (rule machine_ok_combiner [OF ok])
  have "accounts (linked (own_lists w st ls ws ks)) g val {#}" using ok by (simp add: machine_ok_def)
  from intake.exit_accounts [OF k(1) sz k(2) this, of t] ex obtain val' where
    "group_ok sz g'" "identities None g'" "accounts (linked (own_lists w st ls ws ks)) g' val' {#}"
    "dom (combiners g') = dom (combiners g)"
    "holdings (owner g') val' c = holdings (owner g) val c" by auto
  then show ?thesis using machine_ok_move [OF ok, of g' val' "[]"] k(4) by auto
qed

text \<open>The links change, the values of the combiner do not.\<close>

lemma worths_world: "worths (g\<lparr>world := l\<rparr>) val = worths g val"
  unfolding worths_def
proof (rule rest_cong)
  show "content (g\<lparr>world := l\<rparr>) s = content g s \<and> val s = val s" for s by (cases s) simp_all
qed (simp add: slots_def)

lemma machine_ok_lanes:
  assumes ok: "machine_ok w sz c subs0 g st ls ws ks val" and lanes: "lanes_ok w st' ls' ws' ks'"
    and keep: "\<And>zs. ring (c_links st) zs \<Longrightarrow> set zs \<subseteq> set_mset (holdings (owner g) val c) \<Longrightarrow> ring (c_links st') zs"
    and sub: "set_mset (h_inside (queue_view st' (ls' @ ws' @ ks'))) \<inter> set_mset (holdings (owner g) val c) = {}"
    and sum: "mset subs = h_total (queue_view st' (ls' @ ws' @ ks')) + holdings (owner g) val c"
  shows "machine_ok w sz c subs (g\<lparr>world := c_links st'\<rparr>) st' ls' ws' ks' val"
proof -
  note samples = machine_ok_samples [OF ok]
  have hd: "heads w \<inter> set_mset (holdings (owner g) val c) = {}" using ok by (auto simp: machine_ok_def)
  have off: "set zs \<inter> set_mset (holdings (owner g) val c) = {}" if "zs \<in> own_lists w st' ls' ws' ks'" for zs
    using own_lists_within [OF lanes that] hd sub by (auto simp: inside_view)
  have "linked (own_lists w st' ls' ws' ks') (c_links st') (worths g val)"
    by (rule linked_relink [OF machine_ok_linked [OF ok]])
      (use keep off lanes in \<open>auto simp: samples lanes_ok_def\<close>)
  moreover have "worths (g\<lparr>world := c_links st'\<rparr>) val = worths g val"
    by (rule worths_world)
  moreover have "group_ok sz (g\<lparr>world := c_links st'\<rparr>)" "identities None (g\<lparr>world := c_links st'\<rparr>)"
    using ok by (simp_all add: machine_ok_def group_ok_def identities_def)
  ultimately show ?thesis
    using ok hd sub sum lanes by (auto simp: machine_ok_def accounts_def)
qed

lemma construct_machine:
  assumes ok: "machine_ok w sz c subs g st ls ws ks val" and p: "p \<notin> heads w" and out: "outside subs st p"
  shows "machine_ok w sz c subs (g\<lparr>world := LinkNode p (c_links st)\<rparr>) (st\<lparr>c_links := LinkNode p (c_links st)\<rparr>) ls ws ks val \<and>
    hand_off_step (max_pending w) {#} (queue_view st (ls @ ws @ ks)) (queue_view (st\<lparr>c_links := LinkNode p (c_links st)\<rparr>) (ls @ ws @ ks))"
proof -
  let ?st = "st\<lparr>c_links := LinkNode p (c_links st)\<rparr>"
  note nowhere = machine_outside [OF ok out]
  have lanes: "lanes_ok w st ls ws ks" using ok by (simp add: machine_ok_def)
  have "ring (LinkNode p (c_links st)) zs" if z: "zs \<in> own_lists w st ls ws ks" for zs
  proof (rule LinkNode_frame)
    show "ring (c_links st) zs" using lanes z by (simp add: lanes_ok_def)
    show "p \<notin> set zs" using own_lists_within [OF lanes z] p nowhere(1) by blast
  qed
  then have r: "\<forall>zs \<in> own_lists w st ls ws ks. ring (LinkNode p (c_links st)) zs" by blast
  note same = lanes_ok_links [OF lanes r]
  have "machine_ok w sz c subs (g\<lparr>world := c_links ?st\<rparr>) ?st ls ws ks val"
  proof (rule machine_ok_lanes [OF ok same(1)])
    show "ring (c_links ?st) zs" if "ring (c_links st) zs" "set zs \<subseteq> set_mset (holdings (owner g) val c)" for zs
      using LinkNode_frame [OF that(1)] that(2) nowhere(2) by auto
  qed (use ok in \<open>auto simp: machine_ok_def same(2)\<close>)
  then show ?thesis unfolding same(2) by (simp add: hand_off_step.idle)
qed

text \<open>A step of the grab thread or of the dump thread.\<close>

lemma advance_machine:
  assumes ok: "machine_ok w sz c subs g st ls ws ks val" and adv: "advances w st ls ws ks st'"
  shows "\<exists>ls' ws' ks'. machine_ok w sz c subs (g\<lparr>world := c_links st'\<rparr>) st' ls' ws' ks' val \<and>
    hand_off_step (max_pending w) {#} (queue_view st (ls @ ws @ ks)) (queue_view st' (ls' @ ws' @ ks'))"
proof -
  obtain ls' ws' ks' where lanes: "lanes_ok w st' ls' ws' ks'"
    and others: "keeps_others w (ls @ ws @ ks @ in_hand st) st st'"
    and q: "hand_off_step (max_pending w) {#} (queue_view st (ls @ ws @ ks)) (queue_view st' (ls' @ ws' @ ks'))"
    using adv by (auto simp: advances_def)
  let ?H = "set_mset (holdings (owner g) val c)"
  have dis: "heads w \<inter> ?H = {}" "set_mset (h_inside (queue_view st (ls @ ws @ ks))) \<inter> ?H = {}"
    using ok by (auto simp: machine_ok_def)
  have "machine_ok w sz c subs (g\<lparr>world := c_links st'\<rparr>) st' ls' ws' ks' val"
  proof (rule machine_ok_lanes [OF ok lanes])
    show "ring (c_links st') zs" if "ring (c_links st) zs" "set zs \<subseteq> ?H" for zs
      using others that dis by (auto simp: keeps_others_def inside_view)
    show "set_mset (h_inside (queue_view st' (ls' @ ws' @ ks'))) \<inter> ?H = {}"
      using set_mset_mono [OF hand_off_step_inside [OF q]] dis(2) by auto
    show "mset subs = h_total (queue_view st' (ls' @ ws' @ ks')) + holdings (owner g) val c"
      using ok hand_off_step_total [OF q] by (simp add: machine_ok_def)
  qed
  then show ?thesis using q by blast
qed

text \<open>What the reset takes out, and what it leaves in the elements of the threads that went on submitting.\<close>

lemma sum_self_linked: "(\<Sum>v\<leftarrow>map Some ps. self_linked v) = mset ps"
  by (induction ps) simp_all

lemma reset_ok:
  assumes ok: "machine_ok w sz c subs g st ls ws ks val" and r: "ready w subs st ps"
    and t: "taken sz c g (concat (map others [0..<card {a. owner g a = Some c}])) = map Some ps"
    and res: "reset sz CombineCollected others c g = Some (h, g')"
  shows "\<exists>val' y. group_ok sz g' \<and> identities None g' \<and> dom (combiners g') = {c} \<and>
    accounts (linked (own_lists w st ls ws ks)) g' val' {#(h, y)#} \<and>
    y + holdings (owner g') val' c = holdings (owner g) val c + mset ps \<and>
    ((\<forall>j. others j = []) \<longrightarrow> holdings (owner g') val' c = {#})"
proof -
  let ?F = "own_lists w st ls ws ks"
  obtain k where k: "group_ok sz g" "identities None g" "combiners g c = Some k" "dom (combiners g) = {c}"
    by (rule machine_ok_combiner [OF ok])
  have "accounts (linked ?F) g val
      (pairs self_linked (taken sz c g (concat (map others [0..<card {a. owner g a = Some c}]))) + {#})"
    unfolding t by (rule ready_linked [OF ok r])
  from intake.reset_accounts [OF k(1,3,2) refl this] obtain h0 y val' h' e l where
    run: "reset_all_agents sz CombineCollected others c g =
      Some (h0, g\<lparr>combiners := (combiners g)(c := Some h'), element := e, world := l\<rparr>)"
    and g0: "group_ok sz (g\<lparr>combiners := (combiners g)(c := Some h'), element := e, world := l\<rparr>)"
      "identities None (g\<lparr>combiners := (combiners g)(c := Some h'), element := e, world := l\<rparr>)"
      "accounts (linked ?F) (g\<lparr>combiners := (combiners g)(c := Some h'), element := e, world := l\<rparr>)
        val' {#(h0, y)#}"
      "y + holdings (owner g) val' c = holdings (owner g) val c + (\<Sum>v\<leftarrow>map Some ps. self_linked v)"
      "(\<forall>j. others j = []) \<longrightarrow> holdings (owner g) val' c = 0"
    unfolding t by blast
  have g': "h0 = h" "g\<lparr>combiners := (combiners g)(c := Some h'), element := e, world := l\<rparr> = g'"
    using res run by (simp_all add: reset_def)
  have "owner g' = owner g" "dom (combiners g') = {c}" using k(4) by (auto simp flip: g'(2))
  then show ?thesis using g0 unfolding sum_self_linked g' by (intro exI [of _ val'] exI [of _ y]) simp
qed

lemma denotes_headed: "denotes l h y \<Longrightarrow> \<exists>xs. headed l h xs \<and> y = mset xs"
  by (cases h) (fastforce simp: denotes_def headed_def)+

lemma reset_machine:
  assumes w: "heads_ok w" and ok: "machine_ok w sz c subs g st ls ws ks val" and pos: "grab_pos st = Grab_start"
    and r: "ready w subs st ps"
    and t: "taken sz c g (concat (map others [0..<card {a. owner g a = Some c}])) = map Some ps"
    and res: "reset sz CombineCollected others c g = Some (h, g')"
  shows "\<exists>val' xs subs1. machine_ok w sz c subs1 g' (st\<lparr>c_links := world g'\<rparr>) ls ws [] val' \<and>
    headed (world g') h xs \<and> off_heads w (ls @ ws @ xs) \<and>
    set (ls @ ws @ xs) \<inter> set_mset (holdings (owner g') val' c) = {} \<and> mset (subs @ ps) = mset subs1 + mset xs \<and> ks = []"
proof -
  let ?F = "own_lists w st ls ws ks" and ?st = "st\<lparr>c_links := world g'\<rparr>"
  obtain val' y where g': "group_ok sz g'" "identities None g'" "dom (combiners g') = {c}"
    "accounts (linked ?F) g' val' {#(h, y)#}"
    and y: "y + holdings (owner g') val' c = holdings (owner g) val c + mset ps"
    using reset_ok [OF ok r t res] by blast
  let ?H = "holdings (owner g') val' c"
  have lk: "linked ?F (world g') (add_mset (h, y) (worths g' val'))" using g'(4) by (simp add: accounts_def)
  have acc: "accounts (linked ?F) g' val' {#}" using intake.den_drop [OF lk] by (simp add: accounts_def)
  have samples: "all_samples (worths g' val') = ?H" by (rule all_samples_worths [OF g'(1,3)])
  have lanes: "lanes_ok w st ls ws ks" using ok by (simp add: machine_ok_def)
  have idle: "in_hand st = []" "\<not> keeping st" by (simp_all add: in_hand_def keeping_def pos)
  have ks: "ks = []" using lanes idle(2) by (simp add: lanes_ok_def)
  have ins: "set_mset (h_inside (queue_view st (ls @ ws @ ks))) = set (ls @ ws)" by (simp add: inside_view idle ks)
  have "p \<notin> heads w \<union> set (ls @ ws)" if p: "p \<in> set ps" for p
    using r p machine_outside(1) [OF ok, of p] by (auto simp: ready_def)
  then have "(heads w \<union> set (ls @ ws)) \<inter> set_mset (holdings (owner g) val c + mset ps) = {}"
    using ok unfolding machine_ok_def ins by auto
  then have dis: "(heads w \<union> set (ls @ ws)) \<inter> (set_mset y \<union> set_mset ?H) = {}" unfolding y [symmetric] by simp
  have "\<forall>n. count (y + all_samples (worths g' val')) n \<le> 1" using lk by (simp add: linked_def)
  from count_le_one_disjoint [OF this] have yH: "set_mset y \<inter> set_mset ?H = {}" unfolding samples by blast
  have rg: "\<forall>zs \<in> ?F. ring (world g') zs" and den: "denotes (world g') h y" using lk by (simp_all add: linked_def)
  note same = lanes_ok_links [OF lanes rg]
  obtain xs where xs: "headed (world g') h xs" "y = mset xs" using denotes_headed [OF den] by blast
  have "distinct xs" using xs(1) ring_distinct by (cases h) (auto simp: headed_def)
  then have new: "off_heads w (ls @ ws @ xs)" using dis lanes by (auto simp: off_heads_def lanes_ok_def xs(2))
  obtain subs1 where s1: "mset subs1 = h_total (queue_view st (ls @ ws @ ks)) + ?H" using ex_mset by blast
  have ok1: "machine_ok w sz c subs1 g' ?st ls ws ks val'"
    using g'(1-3) acc same(1) dis s1 ins unfolding machine_ok_def same(2,3) by auto
  have "mset (subs @ ps) = mset subs1 + mset xs" using ok y by (simp add: machine_ok_def s1 xs(2) ac_simps)
  moreover have "set (ls @ ws @ xs) \<inter> set_mset ?H = {}" using dis yH by (auto simp: xs(2))
  ultimately show ?thesis using ok1 xs(1) new ks by blast
qed

lemma begin_machine:
  assumes w: "heads_ok w" and ok: "machine_ok w sz c subs g st ls ws ks val" and pos: "grab_pos st = Grab_start"
    and r: "ready w subs st ps"
    and t: "taken sz c g (concat (map others [0..<card {a. owner g a = Some c}])) = map Some ps"
    and res: "reset sz CombineCollected others c g = Some (h, g')"
    and grab: "grab_begin w h (st\<lparr>c_links := world g'\<rparr>) = Some st'"
  shows "\<exists>val' X. machine_ok w sz c (subs @ ps) (g'\<lparr>world := c_links st'\<rparr>) st' ls ws [] val' \<and>
    hand_off_step (max_pending w) X (queue_view st (ls @ ws @ ks)) (queue_view st' (ls @ ws @ []))"
proof -
  let ?st = "st\<lparr>c_links := world g'\<rparr>"
  obtain val' xs subs1 where ok1: "machine_ok w sz c subs1 g' ?st ls ws [] val'" and xs: "headed (c_links ?st) h xs"
    and new: "off_heads w (ls @ ws @ xs)" and dis: "set (ls @ ws @ xs) \<inter> set_mset (holdings (owner g') val' c) = {}"
    and subs: "mset (subs @ ps) = mset subs1 + mset xs" and ks: "ks = []"
    using reset_machine [OF w ok pos r t res] by auto
  let ?H = "holdings (owner g') val' c"
  have hd: "heads w \<inter> set_mset ?H = {}" and lanes: "lanes_ok w ?st ls ws []" using ok1 by (auto simp: machine_ok_def)
  have "lanes_ok w st' ls ws [] \<and> keeps_others w (ls @ ws @ xs) ?st st' \<and>
      hand_off_step (max_pending w) (mset xs) (queue_view ?st (ls @ ws)) (queue_view st' (ls @ ws))"
    using grab_begin_ok [OF lanes w _ xs new grab] pos by simp
  then have begun: "lanes_ok w st' ls ws []" "keeps_others w (ls @ ws @ xs) ?st st'"
      "hand_off_step (max_pending w) (mset xs) (queue_view ?st (ls @ ws @ [])) (queue_view st' (ls @ ws @ []))" by simp_all
  have idle: "in_hand ?st = []" by (simp add: in_hand_def pos)
  have "machine_ok w sz c (subs @ ps) (g'\<lparr>world := c_links st'\<rparr>) st' ls ws [] val'"
  proof (rule machine_ok_lanes [OF ok1 begun(1)])
    fix zs assume z: "ring (c_links ?st) zs" "set zs \<subseteq> set_mset ?H"
    then have "set zs \<inter> (heads w \<union> set (ls @ ws @ xs)) = {}" using dis hd by blast
    then show "ring (c_links st') zs" using begun(2) z(1) unfolding keeps_others_def by blast
  next
    show "set_mset (h_inside (queue_view st' (ls @ ws @ []))) \<inter> set_mset ?H = {}"
      using set_mset_mono [OF hand_off_step_inside [OF begun(3)]] dis by (auto simp: inside_view idle)
    show "mset (subs @ ps) = h_total (queue_view st' (ls @ ws @ [])) + ?H"
      using ok1 subs hand_off_step_total [OF begun(3)] by (simp add: machine_ok_def ac_simps)
  qed
  moreover have "queue_view ?st (ls @ ws @ []) = queue_view st (ls @ ws @ ks)"
    by (simp add: ks queue_view_def in_hand_def)
  ultimately show ?thesis using begun(3) by auto
qed

text \<open>The lists of destroyed and of dumped samples only grow.\<close>

definition extends :: "collector \<Rightarrow> collector \<Rightarrow> bool" where
  "extends st st' \<longleftrightarrow> prefix (destroyed st) (destroyed st') \<and> prefix (dumped st) (dumped st')"

lemma ready_Nil: "ready w subs st []"
  by (simp add: ready_def)

lemma user_step_ok:
  assumes ok: "machine_ok w sz c subs g st ls ws ks val" and sz: "0 < sz" and "user_step w sz c subs g st ps g' st'"
  shows "\<exists>val'. machine_ok w sz c (subs @ ps) g' st' ls ws ks val' \<and> ready w subs st ps \<and>
    hand_off_step (max_pending w) {#} (queue_view st (ls @ ws @ ks)) (queue_view st' (ls @ ws @ ks))"
  using assms(3)
proof cases
  case construct
  then show ?thesis using construct_machine [OF ok] by (simp add: ready_Nil) blast
next
  case (submitted p t)
  then show ?thesis using submit_machine [OF ok sz, of p t] by auto
next
  case (exited t)
  then show ?thesis using exit_machine [OF ok sz, of t] by (simp add: ready_Nil)
qed

lemma machine_step_ok:
  assumes w: "heads_ok w" and sz: "0 < sz" and ok: "machine_ok w sz c subs g st ls ws ks val"
    and "system_step w sz c subs g st ps g' st'"
  shows "\<exists>ls' ws' ks' val' X. machine_ok w sz c (subs @ ps) g' st' ls' ws' ks' val' \<and> ready w subs st ps \<and>
    hand_off_step (max_pending w) X (queue_view st (ls @ ws @ ks)) (queue_view st' (ls' @ ws' @ ks'))"
proof -
  have lanes: "lanes_ok w st ls ws ks" using ok by (simp add: machine_ok_def)
  note move = advance_machine [OF ok]
  show ?thesis using assms(4)
  proof cases
    case used
    then show ?thesis using user_step_ok [OF ok sz used] by blast
  next
    case (grab_began others h g1)
    then show ?thesis using begin_machine [OF w ok grab_began(2) grab_began(4-7)] by blast
  next
    case grab_moved
    then show ?thesis using move [OF grab_next_advances [OF lanes w grab_moved(3)]] by (simp add: ready_Nil) blast
  next
    case dump_moved
    then show ?thesis using move [OF dump_next_advances [OF lanes w dump_moved(3)]] by (simp add: ready_Nil) blast
  next
    case stop_set
    have "g'\<lparr>world := c_links st'\<rparr> = g'" using ok stop_set by (simp add: machine_ok_def)
    then show ?thesis using move [OF stop_advances [OF lanes]] stop_set by (simp add: ready_Nil) metis
  qed
qed

lemma system_step_ok:
  assumes w: "heads_ok w" and sz: "0 < sz" and ok: "system_ok w sz c subs g st pend val"
    and step: "system_step w sz c subs g st ps g' st'"
  shows "\<exists>pend val. system_ok w sz c (subs @ ps) g' st' pend val \<and> ready w subs st ps \<and> extends st st'"
proof -
  obtain ls ws ks where m: "machine_ok w sz c subs g st ls ws ks val" using ok by (auto simp: system_ok_def)
  obtain ls' ws' ks' val' X where m': "machine_ok w sz c (subs @ ps) g' st' ls' ws' ks' val'" "ready w subs st ps"
    "hand_off_step (max_pending w) X (queue_view st (ls @ ws @ ks)) (queue_view st' (ls' @ ws' @ ks'))"
    using machine_step_ok [OF w sz m step] by blast
  have "extends st st'" using hand_off_step_logs [OF m'(3)] by (simp add: extends_def queue_view_def)
  then show ?thesis using m'(1,2) unfolding system_ok_def by blast
qed

lemma created_ok:
  assumes w: "heads_ok w" and l: "ring l [dump_root w]" "ring l [dump_local w]"
    and new: "Reducer_new None c (group_init None l) = Some g"
  shows "\<exists>val. machine_ok w sz c [] g (collector_init now l sls) [] [] [] val"
proof -
  note init = lanes_ok_init [OF w l]
  have own: "own_lists w (collector_init now l sls) [] [] [] = {[dump_root w], [dump_local w]}"
    by (simp add: own_lists_def keeping_def collector_init_def)
  have none: "combiners (group_init None l) c = None" "identities None (group_init None l)"
    by (simp_all add: group_init_def identities_def)
  let ?F = "{[dump_root w], [dump_local w]}"
  have "linked ?F l {#}" using l by (intro linked_empty) simp
  then have "accounts (linked ?F) (group_init None l) (\<lambda>_. {#}) {#}"
    by (simp add: accounts_def worths_def rest_def slots_def group_init_def)
  from intake.create_accounts [OF group_ok_init none new this]
  have "machine_ok w sz c [] g (collector_init now l sls) [] [] [] ((\<lambda>_. {#})(Global c := 0))"
    using init unfolding machine_ok_def own
    by (simp add: collector_init_def group_init_def hand_off_init_def h_total_def h_inside_def)
  then show ?thesis by blast
qed

text \<open>Every state of the system has a run of the queue beside it.\<close>

lemma system_runs:
  assumes w: "heads_ok w" and sz: "0 < sz"
  shows "system w sz c subs g st \<Longrightarrow> \<exists>ls ws ks val A. machine_ok w sz c subs g st ls ws ks val \<and>
    hand_off_run (max_pending w) A (queue_view st (ls @ ws @ ks))"
proof (induction rule: system.induct)
  case (created l g now sls)
  then obtain val where "machine_ok w sz c [] g (collector_init now l sls) [] [] [] val" using created_ok [OF w] by blast
  moreover have "hand_off_run (max_pending w) {#} (queue_view (collector_init now l sls) ([] @ [] @ []))"
    using lanes_ok_init(2) [OF w created(1,2), of now sls] by (simp add: hand_off_run.start)
  ultimately show ?case by blast
next
  case (step subs g st ps g' st')
  then obtain ls ws ks val A where m: "machine_ok w sz c subs g st ls ws ks val"
    and run: "hand_off_run (max_pending w) A (queue_view st (ls @ ws @ ks))" by blast
  obtain ls' ws' ks' val' X where "machine_ok w sz c (subs @ ps) g' st' ls' ws' ks' val'"
    and "hand_off_step (max_pending w) X (queue_view st (ls @ ws @ ks)) (queue_view st' (ls' @ ws' @ ks'))"
    using machine_step_ok [OF w sz m step.hyps(2)] by blast
  then show ?case using hand_off_run.step [OF run] by blast
qed

lemma system_invariant:
  assumes "heads_ok w" and "0 < sz" and "system w sz c subs g st"
  shows "\<exists>pend val. system_ok w sz c subs g st pend val"
  using system_runs [OF assms] unfolding system_ok_def by blast

text \<open>What the compositions use of the invariant.\<close>

lemma system_okD:
  assumes "system_ok w sz c subs g st pend val"
  shows "mset subs = mset (destroyed st) + mset (map snd (dumped st)) + mset pend + holdings (owner g) val c"
    and "distinct pend" and "set pend \<inter> set_mset (holdings (owner g) val c) = {}" and "count (holdings (owner g) val c) p \<le> 1"
    and "drop_count st = int (length (destroyed st))" and "dump_count st = int (length (dumped st))"
proof -
  obtain ls ws ks where pend: "pend = ls @ ws @ ks @ in_hand st" and m: "machine_ok w sz c subs g st ls ws ks val"
    using assms by (auto simp: system_ok_def)
  have lanes: "lanes_ok w st ls ws ks" using m by (simp add: machine_ok_def)
  show "mset subs = mset (destroyed st) + mset (map snd (dumped st)) + mset pend + holdings (owner g) val c"
    using m by (simp add: machine_ok_def total_view pend)
  show "distinct pend" "drop_count st = int (length (destroyed st))" "dump_count st = int (length (dumped st))"
    using lanes by (simp_all add: pend lanes_ok_def off_heads_def counters_ok_def)
  show "set pend \<inter> set_mset (holdings (owner g) val c) = {}" using m by (auto simp: machine_ok_def inside_view pend)
  show "count (holdings (owner g) val c) p \<le> 1"
    using machine_ok_linked [OF m] by (simp add: linked_def machine_ok_samples [OF m])
qed

lemma outside_nowhere:
  assumes "system_ok w sz c subs g st pend val" and "outside subs st p"
  shows "p \<notin> set pend" and "p \<notin># holdings (owner g) val c"
  using assms machine_outside by (auto simp: system_ok_def)

lemma submit_succeeds:
  assumes ok: "system_ok w sz c subs g st pend val" and sz: "0 < sz" and r: "ready w subs st [p]"
  shows "\<exists>g'. submit sz CombineCollected t c (Some p) g = Some g'"
  using submit_machine [OF _ sz r] ok unfolding system_ok_def by blast

text \<open>The next reset, if nobody submits meanwhile, yields all samples the combiner holds.\<close>

lemma next_reset:
  assumes ok: "machine_ok w sz c subs g st ls ws ks val"
  shows "\<exists>h g'. reset sz CombineCollected (\<lambda>_. []) c g = Some (h, g') \<and>
    denotes (world g') h (holdings (owner g) val c)"
proof -
  obtain k where k: "group_ok sz g" "identities None g" "combiners g c = Some k" "dom (combiners g) = {c}"
    by (rule machine_ok_combiner [OF ok])
  let ?F = "own_lists w st ls ws ks"
  have r: "ready w subs st []" and t: "taken sz c g (concat (map (\<lambda>_. []) [0..<n])) = map Some []" for n
    by (simp_all add: ready_def taken_def)
  have "accounts (linked ?F) g val
      (pairs self_linked (taken sz c g (concat (map (\<lambda>_. []) [0..<card {a. owner g a = Some c}]))) + {#})"
    using ready_linked [OF ok r] by (simp add: t)
  from intake.reset_accounts [OF k(1,3,2) refl this] obtain h g' where
    res: "reset sz CombineCollected (\<lambda>_. []) c g = Some (h, g')" unfolding reset_def by blast
  from reset_ok [OF ok r t this] obtain val' y where
    y: "accounts (linked ?F) g' val' {#(h, y)#}"
      "y + holdings (owner g') val' c = holdings (owner g) val c" "holdings (owner g') val' c = {#}" by auto
  have "denotes (world g') h y" using y(1) by (simp add: accounts_def linked_def)
  then show ?thesis using res y(2,3) by auto
qed

section \<open>Properties\<close>


text \<open>A thread constructs a sample and submits it.\<close>

lemma example_system:
  "\<exists>g st. system example_surroundings 2048 7 [10] g st \<and> grab_pos st = Grab_start \<and> dump_pos st = Dump_start 0 \<and>
    \<not> stop_flag st \<and> grab_count st = 0 \<and> last_active_cpuwide_us st = 0"
proof -
  let ?w = example_surroundings
  let ?st = "collector_init 0 example_links (\<lambda>_. CollectorSpeedLimit_init)"
  let ?l = "LinkNode 10 (c_links ?st)"
  have w: "dump_root ?w = 3" "dump_local ?w = 4" "heads ?w = {1, 2, 3, 4}"
    by (auto simp: example_surroundings_def heads_def)
  have sz: "0 < (2048 :: nat)" by simp
  obtain g :: intake where "Reducer_new None 7 (group_init None example_links) = Some g"
    by (simp add: Reducer_new_def AgentCombiner_new_def group_init_def create_new_agent_def agent_ids_init_def Let_def)
  from created [OF _ _ this, of ?w] have "system ?w 2048 7 [] g ?st" using example_rings by (simp add: w)
  from system.step [OF this used [OF construct [of 10]]] have
    s: "system ?w 2048 7 [] (g\<lparr>world := ?l\<rparr>) (?st\<lparr>c_links := ?l\<rparr>)"
    by (simp add: w outside_def collector_init_def)
  have r: "ready ?w [] (?st\<lparr>c_links := ?l\<rparr>) [10]"
    by (simp add: ready_def LinkNode_ring w outside_def collector_init_def)
  obtain pend val where ok: "system_ok ?w 2048 7 [] (g\<lparr>world := ?l\<rparr>) (?st\<lparr>c_links := ?l\<rparr>) pend val"
    using system_invariant [OF example_heads_ok sz s] by auto
  obtain g1 where g1: "submit 2048 CombineCollected 0 7 (Some 10) (g\<lparr>world := ?l\<rparr>) = Some g1"
    using submit_succeeds [OF ok sz r, of 0] by auto
  from system.step [OF s used [OF submitted [OF r g1]]] show ?thesis
    by (intro exI [of _ g1] exI [of _ "?st\<lparr>c_links := world g1\<rparr>"]) (simp add: collector_init_def)
qed


end
