(* ===== verification/Shutdown.thy ===== *)
theory Shutdown
  imports Prelude
begin

text \<open>
  The control flow of the threads of the collector (\<^verbatim>\<open>Collector::~Collector\<close>, \<^verbatim>\<open>grab_thread\<close> and
  \<^verbatim>\<open>dump_thread\<close> in \<^verbatim>\<open>src/collector.cpp\<close>) down to single accesses of \<open>stop_\<close>, of
  \<open>dump_thread_mutex_\<close> and of the condition variable, from the first round to the end of the
  destructor. What a round does to the samples is in \<open>Collector\<close>; here only their numbers count.
  \<open>stop_\<close> is read and written in sequence, although the code does not make it atomic. The sleep of
  the grab thread ends by its deadline, so it is no place to wait at.
\<close>

section \<open>State\<close>

datatype party = Grab | Dump

datatype grab_pc = Grab_top | Grab_collect | Hand_lock nat | Hand_over nat | Grab_rest
  | End_lock | End_signal | Join_dump | Grab_done

datatype dump_pc = Dump_top | Dump_lock | Dump_check | Dump_wait | Dump_woken | Dump_test | Dump_take
  | Dump_loop | Dump_done

datatype main_pc = Main_running | Main_join | Main_destroy | Main_gone

text \<open>\<open>waiting\<close> samples are linked under \<open>dump_root_\<close>, \<open>loaded\<close> under the root of the dump thread.\<close>

record control =
  stopping :: bool
  dump_mutex :: "party option"
  waiting :: nat
  loaded :: nat
  grab_at :: grab_pc
  dump_at :: dump_pc
  main_at :: main_pc

definition control_init :: control where
  "control_init = \<lparr>stopping = False, dump_mutex = None, waiting = 0, loaded = 0, grab_at = Grab_top,
     dump_at = Dump_top, main_at = Main_running\<rparr>"

section \<open>Steps\<close>

text \<open>\<open>pthread_cond_signal\<close>: without a waiting thread the signal is lost.\<close>

definition signal :: "control \<Rightarrow> control" where
  "signal s = (if dump_at s = Dump_wait then s\<lparr>dump_at := Dump_woken\<rparr> else s)"

text \<open>The destructor: \<open>stop_\<close>, the join, the destruction of the mutexes.\<close>

definition main_step :: "control \<Rightarrow> control option" where
  "main_step s = (case main_at s of
       Main_running \<Rightarrow> Some (s\<lparr>stopping := True, main_at := Main_join\<rparr>)
     | Main_join \<Rightarrow> if grab_at s = Grab_done then Some (s\<lparr>main_at := Main_destroy\<rparr>) else None
     | Main_destroy \<Rightarrow> Some (s\<lparr>main_at := Main_gone\<rparr>)
     | Main_gone \<Rightarrow> None)"

text \<open>The grab thread; \<open>k\<close> is the number of samples a round keeps.\<close>

definition grab_step :: "nat \<Rightarrow> control \<Rightarrow> control option" where
  "grab_step k s = (case grab_at s of
       Grab_top \<Rightarrow> Some (s\<lparr>grab_at := if stopping s then End_lock else Grab_collect\<rparr>)
     | Grab_collect \<Rightarrow> Some (s\<lparr>grab_at := if 0 < k then Hand_lock k else Grab_rest\<rparr>)
     | Hand_lock n \<Rightarrow>
         if dump_mutex s = None then Some (s\<lparr>dump_mutex := Some Grab, grab_at := Hand_over n\<rparr>) else None
     | Hand_over n \<Rightarrow>
         Some (signal (s\<lparr>waiting := waiting s + n\<rparr>) \<lparr>dump_mutex := None, grab_at := Grab_rest\<rparr>)
     | Grab_rest \<Rightarrow> Some (s\<lparr>grab_at := Grab_top\<rparr>)
     | End_lock \<Rightarrow>
         if dump_mutex s = None then Some (s\<lparr>dump_mutex := Some Grab, grab_at := End_signal\<rparr>) else None
     | End_signal \<Rightarrow>
         Some (signal (s\<lparr>stopping := True\<rparr>) \<lparr>dump_mutex := None, grab_at := Join_dump\<rparr>)
     | Join_dump \<Rightarrow> if dump_at s = Dump_done then Some (s\<lparr>grab_at := Grab_done\<rparr>) else None
     | Grab_done \<Rightarrow> None)"

text \<open>The dump thread. \<open>pthread_cond_wait\<close> gives the mutex back and takes it again when woken.\<close>

definition dump_step :: "control \<Rightarrow> control option" where
  "dump_step s = (case dump_at s of
       Dump_top \<Rightarrow> Some (s\<lparr>dump_at := if stopping s then Dump_done else Dump_lock\<rparr>)
     | Dump_lock \<Rightarrow>
         if dump_mutex s = None then Some (s\<lparr>dump_mutex := Some Dump, dump_at := Dump_check\<rparr>) else None
     | Dump_check \<Rightarrow>
         Some (if \<not> stopping s \<and> waiting s = 0 then s\<lparr>dump_mutex := None, dump_at := Dump_wait\<rparr>
               else s\<lparr>dump_at := Dump_test\<rparr>)
     | Dump_wait \<Rightarrow> None
     | Dump_woken \<Rightarrow>
         if dump_mutex s = None then Some (s\<lparr>dump_mutex := Some Dump, dump_at := Dump_check\<rparr>) else None
     | Dump_test \<Rightarrow> Some (s\<lparr>dump_at := if stopping s then Dump_done else Dump_take\<rparr>)
     | Dump_take \<Rightarrow>
         Some (s\<lparr>loaded := loaded s + waiting s, waiting := 0, dump_mutex := None, dump_at := Dump_loop\<rparr>)
     | Dump_loop \<Rightarrow>
         Some (if \<not> stopping s \<and> 0 < loaded s then s\<lparr>loaded := loaded s - 1\<rparr> else s\<lparr>dump_at := Dump_top\<rparr>)
     | Dump_done \<Rightarrow> None)"

text \<open>One step of any thread; \<open>spurious\<close> says whether a wait may end without a signal.\<close>

inductive thread_step :: "bool \<Rightarrow> control \<Rightarrow> control \<Rightarrow> bool" for spurious where
  of_main: "main_step s = Some s' \<Longrightarrow> thread_step spurious s s'"
| of_grab: "grab_step k s = Some s' \<Longrightarrow> thread_step spurious s s'"
| of_dump: "dump_step s = Some s' \<Longrightarrow> thread_step spurious s s'"
| wakeup: "spurious \<Longrightarrow> dump_at s = Dump_wait \<Longrightarrow> thread_step spurious s (s\<lparr>dump_at := Dump_woken\<rparr>)"

definition runs_to :: "bool \<Rightarrow> control \<Rightarrow> control \<Rightarrow> bool" where
  "runs_to spurious = (thread_step spurious)\<^sup>*\<^sup>*"

definition stuck :: "bool \<Rightarrow> control \<Rightarrow> bool" where
  "stuck spurious s \<longleftrightarrow> (\<forall>s'. \<not> thread_step spurious s s')"

text \<open>The dump thread is gone with the mutex, the grab thread waits for it.\<close>

definition deadlock :: "control \<Rightarrow> bool" where
  "deadlock s \<longleftrightarrow> dump_at s = Dump_done \<and> dump_mutex s = Some Dump \<and>
     (grab_at s = End_lock \<or> (\<exists>n. grab_at s = Hand_lock n))"

lemma main_stepE:
  assumes "main_step s = Some s'"
  obtains "main_at s = Main_running" "s' = s\<lparr>stopping := True, main_at := Main_join\<rparr>"
  | "main_at s = Main_join" "grab_at s = Grab_done" "s' = s\<lparr>main_at := Main_destroy\<rparr>"
  | "main_at s = Main_destroy" "s' = s\<lparr>main_at := Main_gone\<rparr>"
  using assms by (auto simp: main_step_def split: main_pc.splits if_splits)

lemma grab_stepE:
  assumes "grab_step k s = Some s'"
  obtains "grab_at s = Grab_top" "s' = s\<lparr>grab_at := if stopping s then End_lock else Grab_collect\<rparr>"
  | "grab_at s = Grab_collect" "s' = s\<lparr>grab_at := if 0 < k then Hand_lock k else Grab_rest\<rparr>"
  | n where "grab_at s = Hand_lock n" "dump_mutex s = None"
      "s' = s\<lparr>dump_mutex := Some Grab, grab_at := Hand_over n\<rparr>"
  | n where "grab_at s = Hand_over n"
      "s' = signal (s\<lparr>waiting := waiting s + n\<rparr>) \<lparr>dump_mutex := None, grab_at := Grab_rest\<rparr>"
  | "grab_at s = Grab_rest" "s' = s\<lparr>grab_at := Grab_top\<rparr>"
  | "grab_at s = End_lock" "dump_mutex s = None" "s' = s\<lparr>dump_mutex := Some Grab, grab_at := End_signal\<rparr>"
  | "grab_at s = End_signal"
      "s' = signal (s\<lparr>stopping := True\<rparr>) \<lparr>dump_mutex := None, grab_at := Join_dump\<rparr>"
  | "grab_at s = Join_dump" "dump_at s = Dump_done" "s' = s\<lparr>grab_at := Grab_done\<rparr>"
  using assms by (cases "grab_at s") (simp_all add: grab_step_def split: if_splits)

lemma dump_stepE:
  assumes "dump_step s = Some s'"
  obtains "dump_at s = Dump_top" "s' = s\<lparr>dump_at := if stopping s then Dump_done else Dump_lock\<rparr>"
  | "dump_at s = Dump_lock \<or> dump_at s = Dump_woken" "dump_mutex s = None"
      "s' = s\<lparr>dump_mutex := Some Dump, dump_at := Dump_check\<rparr>"
  | "dump_at s = Dump_check" "\<not> stopping s" "waiting s = 0" "s' = s\<lparr>dump_mutex := None, dump_at := Dump_wait\<rparr>"
  | "dump_at s = Dump_check" "stopping s \<or> 0 < waiting s" "s' = s\<lparr>dump_at := Dump_test\<rparr>"
  | "dump_at s = Dump_test" "s' = s\<lparr>dump_at := if stopping s then Dump_done else Dump_take\<rparr>"
  | "dump_at s = Dump_take"
      "s' = s\<lparr>loaded := loaded s + waiting s, waiting := 0, dump_mutex := None, dump_at := Dump_loop\<rparr>"
  | "dump_at s = Dump_loop" "\<not> stopping s" "0 < loaded s" "s' = s\<lparr>loaded := loaded s - 1\<rparr>"
  | "dump_at s = Dump_loop" "stopping s \<or> loaded s = 0" "s' = s\<lparr>dump_at := Dump_top\<rparr>"
  using assms by (cases "dump_at s") (auto simp: dump_step_def split: if_splits)

section \<open>Who holds the mutex\<close>

definition control_ok :: "control \<Rightarrow> bool" where
  "control_ok s \<longleftrightarrow>
     (dump_mutex s = Some Grab \<longleftrightarrow> grab_at s = End_signal \<or> (\<exists>n. grab_at s = Hand_over n)) \<and>
     (dump_at s \<in> {Dump_check, Dump_test, Dump_take} \<longrightarrow> dump_mutex s = Some Dump) \<and>
     (dump_mutex s = Some Dump \<longrightarrow> dump_at s \<in> {Dump_check, Dump_test, Dump_take, Dump_done}) \<and>
     (stopping s \<longleftrightarrow> main_at s \<noteq> Main_running) \<and> (dump_at s = Dump_done \<longrightarrow> stopping s) \<and>
     (grab_at s \<in> {End_lock, End_signal, Join_dump, Grab_done} \<longrightarrow> stopping s) \<and>
     (grab_at s \<in> {Join_dump, Grab_done} \<longrightarrow> dump_at s \<noteq> Dump_wait) \<and>
     (grab_at s = Grab_done \<longrightarrow> dump_at s = Dump_done) \<and>
     (main_at s \<in> {Main_destroy, Main_gone} \<longrightarrow> grab_at s = Grab_done)"

lemma control_okD:
  assumes "control_ok s"
  shows "dump_mutex s = Some Grab \<longleftrightarrow> grab_at s = End_signal \<or> (\<exists>n. grab_at s = Hand_over n)"
    and "dump_at s = Dump_check \<or> dump_at s = Dump_test \<or> dump_at s = Dump_take \<Longrightarrow> dump_mutex s = Some Dump"
    and "dump_mutex s = Some Dump \<Longrightarrow>
      dump_at s = Dump_check \<or> dump_at s = Dump_test \<or> dump_at s = Dump_take \<or> dump_at s = Dump_done"
    and "grab_at s = Join_dump \<or> grab_at s = Grab_done \<Longrightarrow> dump_at s \<noteq> Dump_wait"
    and "grab_at s = Grab_done \<Longrightarrow> dump_at s = Dump_done"
  using assms by (simp_all add: control_ok_def)

lemma control_ok_init: "control_ok control_init"
  by (simp add: control_ok_def control_init_def)

lemma control_ok_step:
  assumes "thread_step spurious s s'" and ok: "control_ok s"
  shows "control_ok s'"
  using assms(1)
proof cases
  case of_main
  then show ?thesis using ok by (cases rule: main_stepE) (auto simp: control_ok_def)
next
  case (of_grab k)
  then show ?thesis using ok by (cases rule: grab_stepE) (auto simp: control_ok_def signal_def)
next
  case of_dump
  then show ?thesis using ok by (cases rule: dump_stepE) (auto simp: control_ok_def)
next
  case wakeup
  then show ?thesis using ok by (auto simp: control_ok_def)
qed

lemma control_ok_runs: "runs_to spurious s s' \<Longrightarrow> control_ok s \<Longrightarrow> control_ok s'"
  unfolding runs_to_def by (induction rule: rtranclp_induct) (auto intro: control_ok_step)

section \<open>The end of a shutdown\<close>

text \<open>Once \<open>stop_\<close> is set, every step brings the threads nearer to their ends.\<close>

fun grab_left :: "grab_pc \<Rightarrow> nat" where
  "grab_left Grab_collect = 8"
| "grab_left (Hand_lock _) = 7"
| "grab_left (Hand_over _) = 6"
| "grab_left Grab_rest = 5"
| "grab_left Grab_top = 4"
| "grab_left End_lock = 3"
| "grab_left End_signal = 2"
| "grab_left Join_dump = 1"
| "grab_left Grab_done = 0"

fun dump_left :: "dump_pc \<Rightarrow> nat" where
  "dump_left Dump_wait = 7"
| "dump_left Dump_woken = 6"
| "dump_left Dump_lock = 6"
| "dump_left Dump_check = 5"
| "dump_left Dump_test = 4"
| "dump_left Dump_take = 3"
| "dump_left Dump_loop = 2"
| "dump_left Dump_top = 1"
| "dump_left Dump_done = 0"

fun main_left :: "main_pc \<Rightarrow> nat" where
  "main_left Main_running = 3"
| "main_left Main_join = 2"
| "main_left Main_destroy = 1"
| "main_left Main_gone = 0"

definition left :: "control \<Rightarrow> nat" where
  "left s = main_left (main_at s) + grab_left (grab_at s) + dump_left (dump_at s)"

lemma left_decreases:
  assumes "thread_step spurious s s'" and ok: "control_ok s" and stop: "stopping s"
  shows "stopping s' \<and> left s' < left s"
  using assms(1)
proof cases
  case of_main
  then show ?thesis using ok stop by (cases rule: main_stepE) (auto simp: left_def control_ok_def)
next
  case (of_grab k)
  then show ?thesis using stop by (cases rule: grab_stepE) (auto simp: left_def signal_def)
next
  case of_dump
  then show ?thesis using stop by (cases rule: dump_stepE) (auto simp: left_def)
next
  case wakeup
  then show ?thesis using stop by (auto simp: left_def)
qed

lemma steps_bounded:
  assumes "control_ok s" and "stopping s"
  shows "(thread_step spurious ^^ n) s s' \<Longrightarrow> n + left s' \<le> left s \<and> control_ok s' \<and> stopping s'"
proof (induction n arbitrary: s')
  case 0
  then show ?case using assms by simp
next
  case (Suc n)
  from Suc.prems obtain t where t: "(thread_step spurious ^^ n) s t" "thread_step spurious t s'"
    by (rule relpowp_Suc_E)
  then have "n + left t \<le> left s" "control_ok t" "stopping t" using Suc.IH by simp_all
  with t(2) show ?case using left_decreases [of spurious t s'] control_ok_step by force
qed

lemma left_bound: "stopping s \<Longrightarrow> control_ok s \<Longrightarrow> left s \<le> 17"
proof -
  assume "stopping s" and "control_ok s"
  then have "main_left (main_at s) \<le> 2" by (cases "main_at s") (auto simp: control_ok_def)
  moreover have "grab_left (grab_at s) \<le> 8" by (cases "grab_at s") auto
  moreover have "dump_left (dump_at s) \<le> 7" by (cases "dump_at s") auto
  ultimately show ?thesis by (simp add: left_def)
qed

text \<open>A thread that cannot go on waits for the mutex or for another thread.\<close>

lemma stuck_parts:
  assumes "stuck spurious s"
  shows "main_step s = None" and "grab_step k s = None" and "dump_step s = None"
  using assms of_main of_grab of_dump unfolding stuck_def by (metis not_Some_eq)+

lemma main_step_None: "main_step s = None \<longleftrightarrow> main_at s = Main_gone \<or> main_at s = Main_join \<and> grab_at s \<noteq> Grab_done"
  by (cases "main_at s") (simp_all add: main_step_def)

lemma grab_step_None:
  "grab_step k s = None \<longleftrightarrow> grab_at s = Grab_done \<or> grab_at s = Join_dump \<and> dump_at s \<noteq> Dump_done \<or>
     (grab_at s = End_lock \<or> (\<exists>n. grab_at s = Hand_lock n)) \<and> dump_mutex s \<noteq> None"
  by (cases "grab_at s") (simp_all add: grab_step_def)

lemma dump_step_None:
  "dump_step s = None \<longleftrightarrow> dump_at s = Dump_done \<or> dump_at s = Dump_wait \<or>
     (dump_at s = Dump_lock \<or> dump_at s = Dump_woken) \<and> dump_mutex s \<noteq> None"
  by (cases "dump_at s") (simp_all add: dump_step_def)

lemmas step_None = main_step_None grab_step_None dump_step_None

lemma stuck_at_end:
  assumes ok: "control_ok s" and stop: "stopping s" and st: "stuck spurious s"
  shows "main_at s = Main_gone \<or> deadlock s"
proof (rule ccontr)
  assume n: "\<not> (main_at s = Main_gone \<or> deadlock s)"
  have m: "main_at s = Main_join" "grab_at s \<noteq> Grab_done"
    using stuck_parts(1) [OF st] n by (simp_all add: step_None)
  consider "grab_at s = Join_dump" "dump_at s \<noteq> Dump_done"
    | "grab_at s = End_lock \<or> (\<exists>n. grab_at s = Hand_lock n)" "dump_mutex s \<noteq> None"
    using stuck_parts(2) [OF st, of 0] m(2) by (auto simp: step_None)
  then show False
  proof cases
    case 1
    then have "dump_at s = Dump_lock \<or> dump_at s = Dump_woken" "dump_mutex s \<noteq> None"
      using stuck_parts(3) [OF st] ok by (auto simp: step_None control_ok_def)
    then obtain p where "dump_mutex s = Some p" by blast
    then show False using ok 1 \<open>dump_at s = Dump_lock \<or> dump_at s = Dump_woken\<close>
      by (cases p) (auto simp: control_ok_def)
  next
    case 2
    then obtain p where p: "dump_mutex s = Some p" by blast
    have "p = Dump" using ok 2(1) p by (cases p) (auto simp: control_ok_def)
    then have "dump_at s = Dump_done"
      using stuck_parts(3) [OF st, unfolded dump_step_None] control_okD(3) [OF ok] p by fastforce
    then show False using n 2(1) p \<open>p = Dump\<close> unfolding deadlock_def by blast
  qed
qed

text \<open>Where the dump thread may be when \<open>stop_\<close> is set without keeping the mutex from the grab thread.\<close>

definition calm :: "control \<Rightarrow> bool" where
  "calm s \<longleftrightarrow> dump_at s = Dump_loop \<or> dump_at s = Dump_top \<or>
     dump_at s = Dump_wait \<and> (grab_at s = Grab_rest \<or> grab_at s = Grab_top)"

definition calm_on :: "control \<Rightarrow> bool" where
  "calm_on s \<longleftrightarrow> stopping s \<and> dump_mutex s \<noteq> Some Dump \<and> (dump_at s = Dump_loop \<or> dump_at s = Dump_top \<or> dump_at s = Dump_done) \<or>
     stopping s \<and> dump_at s = Dump_wait \<and> grab_at s \<in> {Grab_rest, Grab_top, End_lock, End_signal} \<or>
     stopping s \<and> grab_at s \<in> {Join_dump, Grab_done}"

lemma calm_on_step:
  assumes "thread_step False s s'" and c: "calm_on s" and ok: "control_ok s"
  shows "calm_on s'"
  using assms(1)
proof cases
  case of_main
  then show ?thesis using c by (cases rule: main_stepE) (auto simp: calm_on_def)
next
  case (of_grab k)
  then show ?thesis using c control_okD(1) [OF ok] by (cases rule: grab_stepE) (auto simp: calm_on_def signal_def)
next
  case of_dump
  then show ?thesis using c control_okD(2,3) [OF ok] by (cases rule: dump_stepE) (auto simp: calm_on_def)
qed simp

lemma calm_on_steps: "(thread_step False ^^ n) s s' \<Longrightarrow> calm_on s \<Longrightarrow> control_ok s \<Longrightarrow> calm_on s'"
proof (induction n arbitrary: s')
  case (Suc n)
  from Suc.prems(1) obtain t where "(thread_step False ^^ n) s t" "thread_step False t s'" by (rule relpowp_Suc_E)
  moreover have "control_ok t"
    using control_ok_runs [of False s t] relpowp_imp_rtranclp [OF calculation(1)] Suc.prems(3) by (simp add: runs_to_def)
  ultimately show ?case using Suc.IH [of t] Suc.prems calm_on_step by blast
qed simp

lemma calm_on_not_deadlock: "calm_on s \<Longrightarrow> \<not> deadlock s"
  by (auto simp: calm_on_def deadlock_def)

section \<open>Schedules\<close>

datatype move = Main_moves | Grab_moves nat | Dump_moves

fun move_of :: "move \<Rightarrow> control \<Rightarrow> control option" where
  "move_of Main_moves s = main_step s"
| "move_of (Grab_moves k) s = grab_step k s"
| "move_of Dump_moves s = dump_step s"

lemma schedule_runs: "foldM move_of ms s = Some s' \<Longrightarrow> runs_to spurious s s'"
proof (induction ms arbitrary: s)
  case Nil
  then show ?case by (simp add: runs_to_def)
next
  case (Cons m ms)
  then obtain t where t: "move_of m s = Some t" "foldM move_of ms t = Some s'" by (auto split: Option.bind_splits)
  have "thread_step spurious s t" using t(1) by (cases m) (auto intro: thread_step.intros)
  with Cons.IH [OF t(2)] show ?case unfolding runs_to_def by (rule converse_rtranclp_into_rtranclp [rotated])
qed

section \<open>Properties\<close>

text \<open>
  C14. A shutdown comes to an end. From the moment \<open>stop_\<close> is set, whatever the three threads have
  done before, they make at most 17 more steps (in this model of their control flow), and when
  none of them can go on either the destructor has returned or the dump thread has gone with the
  mutex for which the grab thread waits. The destructor always returns if, at the moment \<open>stop_\<close>
  is set, the dump thread is dumping or before the test of its loop, or waits while the grab
  thread sleeps, and no wait ends without a signal.
\<close>

theorem shutdown_ends:
  assumes "runs_to spurious control_init s" and "stopping s" and "(thread_step spurious ^^ n) s s'"
  shows "n \<le> 17 \<and> (stuck spurious s' \<longrightarrow> main_at s' = Main_gone \<or> deadlock s') \<and>
    (stuck spurious s' \<and> calm s \<and> \<not> spurious \<longrightarrow> main_at s' = Main_gone)"
proof -
  have ok: "control_ok s" by (rule control_ok_runs [OF assms(1) control_ok_init])
  have ok': "control_ok s'" "stopping s'" "n \<le> left s" using steps_bounded [OF ok assms(2,3)] by auto
  have "\<not> deadlock s'" if c: "calm s" and "\<not> spurious"
  proof -
    have "dump_mutex s \<noteq> Some Dump" if "dump_at s = Dump_loop \<or> dump_at s = Dump_top"
      using control_okD(3) [OF ok] that by fastforce
    then have "calm_on s" using assms(2) c unfolding calm_def calm_on_def by blast
    then show ?thesis using calm_on_steps [of n s s'] calm_on_not_deadlock assms(3) ok that(2) by simp
  qed
  then show ?thesis using stuck_at_end [OF ok'(1,2)] left_bound [OF assms(2) ok] ok'(3) by fastforce
qed

theorem shutdown_ends_witness:
  "\<exists>s s'. runs_to False control_init s \<and> calm s \<and> (thread_step False ^^ 1) s s' \<and> (1 :: nat) \<le> 17 \<and>
    (stuck False s' \<longrightarrow> main_at s' = Main_gone)"
proof -
  let ?s = "control_init\<lparr>dump_at := Dump_wait, grab_at := Grab_rest, stopping := True, main_at := Main_join\<rparr>"
  let ?t = "control_init\<lparr>dump_at := Dump_wait, grab_at := Grab_top, stopping := True, main_at := Main_join\<rparr>"
  have "foldM move_of [Dump_moves, Dump_moves, Dump_moves, Grab_moves 0, Grab_moves 0, Main_moves] control_init = Some ?s"
    by (simp add: control_init_def dump_step_def grab_step_def main_step_def)
  then have r: "runs_to False control_init ?s" by (rule schedule_runs)
  have st: "stopping ?s" and c: "calm ?s" by (simp_all add: calm_def)
  have "grab_step 0 ?s = Some ?t" by (simp add: grab_step_def control_init_def)
  then have one: "(thread_step False ^^ 1) ?s ?t" by (auto intro: of_grab)
  from shutdown_ends [OF r st one] r c one show ?thesis by blast
qed

text \<open>
  C40. The destructor may hang, or destroy a locked mutex. Without spurious wakeups there are
  schedules after which no thread can ever go on: the dump thread saw \<open>stop_\<close> after it had locked
  \<open>dump_thread_mutex_\<close> and ended without unlocking it, the grab thread waits for the mutex and the
  destructor for the grab thread, so it never returns. And when the dump thread is woken by the
  grab thread's last signal, everything ends, but \<open>dump_thread_mutex_\<close> is still locked when it is
  destroyed. Samples handed to the dump thread may be left over in both cases.
\<close>

theorem shutdown_can_deadlock:
  "(\<exists>s. runs_to False control_init s \<and> deadlock s \<and> main_at s = Main_join \<and> stuck False s) \<and>
   (\<exists>s. runs_to False control_init s \<and> main_at s = Main_destroy \<and> dump_mutex s = Some Dump) \<and>
   (\<exists>s. runs_to False control_init s \<and> main_at s = Main_gone \<and> 0 < loaded s)"
proof (intro conjI)
  let ?dead = "\<lparr>stopping = True, dump_mutex = Some Dump, waiting = 0, loaded = 0, grab_at = End_lock,
     dump_at = Dump_done, main_at = Main_join\<rparr>"
  have "foldM move_of [Dump_moves, Main_moves, Dump_moves, Dump_moves, Dump_moves, Grab_moves 0] control_init = Some ?dead"
    by (simp add: control_init_def dump_step_def grab_step_def main_step_def)
  then have r: "runs_to False control_init ?dead" by (rule schedule_runs)
  have "\<not> thread_step False ?dead s'" for s'
    by (auto simp: main_step_def grab_step_def dump_step_def elim: thread_step.cases)
  then have "stuck False ?dead" by (simp add: stuck_def)
  then show "\<exists>s. runs_to False control_init s \<and> deadlock s \<and> main_at s = Main_join \<and> stuck False s"
    using r by (intro exI [of _ ?dead]) (simp add: deadlock_def)
next
  let ?s = "\<lparr>stopping = True, dump_mutex = Some Dump, waiting = 0, loaded = 0, grab_at = Grab_done,
     dump_at = Dump_done, main_at = Main_destroy\<rparr>"
  have "foldM move_of [Dump_moves, Dump_moves, Dump_moves, Main_moves, Grab_moves 0, Grab_moves 0, Grab_moves 0,
      Dump_moves, Dump_moves, Dump_moves, Grab_moves 0, Main_moves] control_init = Some ?s"
    by (simp add: control_init_def dump_step_def grab_step_def main_step_def signal_def)
  then have "runs_to False control_init ?s" by (rule schedule_runs)
  then show "\<exists>s. runs_to False control_init s \<and> main_at s = Main_destroy \<and> dump_mutex s = Some Dump"
    by (intro exI [of _ ?s]) simp
next
  let ?s = "\<lparr>stopping = True, dump_mutex = None, waiting = 0, loaded = 2, grab_at = Grab_done,
     dump_at = Dump_done, main_at = Main_gone\<rparr>"
  have "foldM move_of [Grab_moves 2, Grab_moves 2, Grab_moves 2, Grab_moves 2, Dump_moves, Dump_moves, Dump_moves,
      Dump_moves, Dump_moves, Main_moves, Dump_moves, Dump_moves, Grab_moves 0, Grab_moves 0, Grab_moves 0,
      Grab_moves 0, Grab_moves 0, Main_moves, Main_moves] control_init = Some ?s"
    by (simp add: control_init_def dump_step_def grab_step_def main_step_def signal_def)
  then have "runs_to False control_init ?s" by (rule schedule_runs)
  then show "\<exists>s. runs_to False control_init s \<and> main_at s = Main_gone \<and> 0 < loaded s"
    by (intro exI [of _ ?s]) simp
qed

end
