(* ===== verification/Block_Table.thy ===== *)
theory Block_Table
  imports Object_Pool
begin

text \<open>
  The table of blocks of the object pool (\<^verbatim>\<open>src/common/object_pool_inl.h\<close>) under concurrency: \<^verbatim>\<open>add_block\<close>
  and \<^verbatim>\<open>add_block_group\<close> run by any number of threads, one atomic access or mutex operation at a time.
  \<open>Object_Pool\<close> has them as one step; here it is shown that they behave so. A group is named by its
  place in \<open>block_groups_\<close>, a block by the number of its creation. Memory is sequentially consistent.
\<close>

section \<open>State\<close>

abbreviation CAP :: nat where "CAP \<equiv> OP_GROUP_BLOCK_COUNT"
abbreviation GROUPS :: nat where "GROUPS \<equiv> OP_MAX_BLOCK_GROUP_COUNT"

text \<open>
  Where a thread is in \<open>add_block\<close>, with its \<open>new_block\<close> and the \<open>group_count\<close> it loaded: before the load,
  before reading the group, before \<open>fetch_add\<close>, before the store of the block at an index, before
  \<open>fetch_sub\<close>; in \<open>add_block_group\<close> before the lock, the test, the store of a new group, the store of the
  count, and the unlock with the result. \<open>Crashed\<close> is a null pointer dereferenced.
\<close>

datatype add_pc =
    Out
  | Loading nat
  | Grouping nat nat
  | Adding nat nat
  | Storing nat nat nat
  | Undoing nat nat
  | Locking nat nat
  | Checking nat nat
  | Publishing nat nat
  | Counting nat nat
  | Unlocking nat bool
  | Returned nat "nat option"
  | Crashed

text \<open>
  \<open>reserved\<close> records the blocks in the order of their successful \<open>fetch_add\<close>, \<open>tries\<close> the iterations of
  the loop in the present call.
\<close>

record block_table =
  group_count :: nat
  group_stored :: "nat \<Rightarrow> bool"
  block_count :: "nat \<Rightarrow> nat"
  blocks :: "nat \<Rightarrow> nat \<Rightarrow> nat option"
  group_mutex :: "nat option"
  new_blocks :: nat
  add_at :: "nat \<Rightarrow> add_pc"
  tries :: "nat \<Rightarrow> nat"
  reserved :: "nat list"

definition block_table_init :: block_table where
  "block_table_init = \<lparr>group_count = 0, group_stored = (\<lambda>_. False), block_count = (\<lambda>_. 0), blocks = (\<lambda>_ _. None),
     group_mutex = None, new_blocks = 0, add_at = (\<lambda>_. Out), tries = (\<lambda>_. 0), reserved = []\<rparr>"

section \<open>Steps\<close>

definition go :: "nat \<Rightarrow> add_pc \<Rightarrow> block_table \<Rightarrow> block_table" where
  "go t pc s = s\<lparr>add_at := (add_at s)(t := pc)\<rparr>"

text \<open>A call begins with \<open>new Block()\<close>.\<close>

definition call_add_block :: "nat \<Rightarrow> block_table \<Rightarrow> block_table" where
  "call_add_block t s =
     go t (Loading (new_blocks s)) (s\<lparr>new_blocks := new_blocks s + 1, tries := (tries s)(t := 0)\<rparr>)"

text \<open>\<open>g->block_count.fetch_add(1)\<close> and the test of its result.\<close>

definition fetch_add_step :: "nat \<Rightarrow> nat \<Rightarrow> nat \<Rightarrow> block_table \<Rightarrow> block_table" where
  "fetch_add_step t b gc s =
     (let block_index = block_count s (gc - 1);
          s = s\<lparr>block_count := (block_count s)(gc - 1 := block_index + 1)\<rparr>
      in if block_index < CAP then go t (Storing b gc block_index) (s\<lparr>reserved := reserved s @ [b]\<rparr>)
         else go t (Undoing b gc) s)"

definition store_step :: "nat \<Rightarrow> nat \<Rightarrow> nat \<Rightarrow> nat \<Rightarrow> block_table \<Rightarrow> block_table" where
  "store_step t b gc i s =
     go t (Returned b (Some ((gc - 1) * CAP + i)))
       (s\<lparr>blocks := (blocks s)(gc - 1 := (blocks s (gc - 1))(i := Some b))\<rparr>)"

text \<open>\<open>new BlockGroup()\<close> and the store of its address.\<close>

definition publish_step :: "nat \<Rightarrow> nat \<Rightarrow> nat \<Rightarrow> block_table \<Rightarrow> block_table" where
  "publish_step t b gc s =
     go t (Counting b gc) (s\<lparr>group_stored := (group_stored s)(gc := True), block_count := (block_count s)(gc := 0),
       blocks := (blocks s)(gc := (\<lambda>_. None))\<rparr>)"

text \<open>The next step of a thread in \<open>add_block\<close>; none while it waits for the mutex or is outside.\<close>

definition add_step :: "nat \<Rightarrow> block_table \<Rightarrow> block_table option" where
  "add_step t s = (case add_at s t of
     Out \<Rightarrow> None
   | Loading b \<Rightarrow>
       let gc = group_count s
       in Some (go t (if gc \<ge> 1 then Grouping b gc else Locking b gc) (s\<lparr>tries := (tries s)(t := tries s t + 1)\<rparr>))
   | Grouping b gc \<Rightarrow> Some (go t (if group_stored s (gc - 1) then Adding b gc else Crashed) s)
   | Adding b gc \<Rightarrow> Some (fetch_add_step t b gc s)
   | Storing b gc i \<Rightarrow> Some (store_step t b gc i s)
   | Undoing b gc \<Rightarrow>
       Some (go t (Locking b gc) (s\<lparr>block_count := (block_count s)(gc - 1 := block_count s (gc - 1) - 1)\<rparr>))
   | Locking b gc \<Rightarrow>
       if group_mutex s = None then Some (go t (Checking b gc) (s\<lparr>group_mutex := Some t\<rparr>)) else None
   | Checking b gc \<Rightarrow>
       Some (go t (if group_count s \<noteq> gc then Unlocking b True
                   else if group_count s < GROUPS then Publishing b gc else Unlocking b False) s)
   | Publishing b gc \<Rightarrow> Some (publish_step t b gc s)
   | Counting b gc \<Rightarrow> Some (go t (Unlocking b True) (s\<lparr>group_count := gc + 1\<rparr>))
   | Unlocking b again \<Rightarrow>
       Some (go t (if again then Loading b else Returned b None) (s\<lparr>group_mutex := None\<rparr>))
   | Returned b r \<Rightarrow> None
   | Crashed \<Rightarrow> None)"

definition outside_add :: "add_pc \<Rightarrow> bool" where
  "outside_add pc \<longleftrightarrow> (case pc of Out \<Rightarrow> True | Returned b r \<Rightarrow> True | _ \<Rightarrow> False)"

inductive adding :: "block_table \<Rightarrow> bool" where
  start: "adding block_table_init"
| call: "adding s \<Longrightarrow> outside_add (add_at s t) \<Longrightarrow> adding (call_add_block t s)"
| step: "adding s \<Longrightarrow> add_step t s = Some s' \<Longrightarrow> adding s'"

section \<open>The invariant\<close>

definition undoing :: "(nat \<Rightarrow> add_pc) \<Rightarrow> nat \<Rightarrow> nat set" where
  "undoing ats i = {t. \<exists>b. ats t = Undoing b (Suc i)}"

definition inside_mutex :: "add_pc \<Rightarrow> bool" where
  "inside_mutex pc \<longleftrightarrow> (case pc of
     Checking b gc \<Rightarrow> True | Publishing b gc \<Rightarrow> True | Counting b gc \<Rightarrow> True | Unlocking b again \<Rightarrow> True | _ \<Rightarrow> False)"

text \<open>The block a thread wants to add and has not yet reserved a place for.\<close>

definition pending :: "add_pc \<Rightarrow> nat option" where
  "pending pc = (case pc of
     Loading b \<Rightarrow> Some b | Grouping b gc \<Rightarrow> Some b | Adding b gc \<Rightarrow> Some b | Undoing b gc \<Rightarrow> Some b
   | Locking b gc \<Rightarrow> Some b | Checking b gc \<Rightarrow> Some b | Publishing b gc \<Rightarrow> Some b | Counting b gc \<Rightarrow> Some b
   | Unlocking b again \<Rightarrow> if again then Some b else None | _ \<Rightarrow> None)"

text \<open>What holds at each place: \<open>n\<close> iterations were begun.\<close>

definition pc_ok :: "block_table \<Rightarrow> nat \<Rightarrow> add_pc \<Rightarrow> bool" where
  "pc_ok s n pc \<longleftrightarrow> (case pc of
     Out \<Rightarrow> True
   | Loading b \<Rightarrow> n \<le> group_count s
   | Grouping b gc \<Rightarrow> 1 \<le> gc \<and> gc \<le> group_count s \<and> n \<le> gc + 1
   | Adding b gc \<Rightarrow> 1 \<le> gc \<and> gc \<le> group_count s \<and> n \<le> gc + 1
   | Storing b gc i \<Rightarrow> 1 \<le> gc \<and> gc \<le> group_count s \<and> n \<le> gc + 1 \<and> i < CAP \<and>
       (gc - 1) * CAP + i < length (reserved s) \<and> reserved s ! ((gc - 1) * CAP + i) = b
   | Undoing b gc \<Rightarrow> 1 \<le> gc \<and> gc \<le> group_count s \<and> n \<le> gc + 1 \<and> gc * CAP \<le> length (reserved s)
   | Locking b gc \<Rightarrow> gc \<le> group_count s \<and> n \<le> gc + 1 \<and> gc * CAP \<le> length (reserved s)
   | Checking b gc \<Rightarrow> gc \<le> group_count s \<and> n \<le> gc + 1 \<and> gc * CAP \<le> length (reserved s)
   | Publishing b gc \<Rightarrow> gc = group_count s \<and> gc < GROUPS \<and> n \<le> gc + 1 \<and> gc * CAP \<le> length (reserved s)
   | Counting b gc \<Rightarrow> gc = group_count s \<and> gc < GROUPS \<and> n \<le> gc + 1 \<and> gc * CAP \<le> length (reserved s) \<and>
       group_stored s gc \<and> block_count s gc = 0
   | Unlocking b again \<Rightarrow> (if again then n \<le> group_count s else n \<le> GROUPS + 1 \<and> length (reserved s) = GROUPS * CAP)
   | Returned b r \<Rightarrow> n \<le> GROUPS + 1 \<and> (case r of
         Some k \<Rightarrow> k < length (reserved s) \<and> reserved s ! k = b \<and> blocks s (k div CAP) (k mod CAP) = Some b
       | None \<Rightarrow> length (reserved s) = GROUPS * CAP)
   | Crashed \<Rightarrow> False)"

text \<open>The reserved places fill the groups one after the other.\<close>

definition counts_ok :: "block_table \<Rightarrow> bool" where
  "counts_ok s \<longleftrightarrow> group_count s \<le> GROUPS \<and> length (reserved s) \<le> group_count s * CAP \<and>
     (group_count s - 1) * CAP \<le> length (reserved s) \<and>
     (\<forall>i < group_count s. group_stored s i \<and>
       block_count s i = min CAP (length (reserved s) - i * CAP) + card (undoing (add_at s) i))"

definition slots_ok :: "block_table \<Rightarrow> bool" where
  "slots_ok s \<longleftrightarrow>
     (\<forall>i j b. blocks s i j = Some b \<longrightarrow> j < CAP \<and> i * CAP + j < length (reserved s) \<and> reserved s ! (i * CAP + j) = b) \<and>
     (\<forall>n < length (reserved s). blocks s (n div CAP) (n mod CAP) = Some (reserved s ! n) \<or>
       (\<exists>t. add_at s t = Storing (reserved s ! n) (Suc (n div CAP)) (n mod CAP)))"

definition threads_ok :: "block_table \<Rightarrow> bool" where
  "threads_ok s \<longleftrightarrow> finite {t. add_at s t \<noteq> Out} \<and> (\<forall>t. pc_ok s (tries s t) (add_at s t)) \<and>
     (\<forall>t. group_mutex s = Some t \<longleftrightarrow> inside_mutex (add_at s t))"

definition fresh_ok :: "block_table \<Rightarrow> bool" where
  "fresh_ok s \<longleftrightarrow> distinct (reserved s) \<and> (\<forall>b \<in> set (reserved s). b < new_blocks s) \<and>
     (\<forall>t b. pending (add_at s t) = Some b \<longrightarrow> b < new_blocks s \<and> b \<notin> set (reserved s)) \<and>
     (\<forall>t t' b. pending (add_at s t) = Some b \<longrightarrow> pending (add_at s t') = Some b \<longrightarrow> t = t')"

definition table_ok :: "block_table \<Rightarrow> bool" where
  "table_ok s \<longleftrightarrow> counts_ok s \<and> slots_ok s \<and> threads_ok s \<and> fresh_ok s"

section \<open>Every step keeps it\<close>

lemma CAP_pos [simp]: "0 < CAP"
  by (simp add: OP_GROUP_BLOCK_COUNT_def)

lemma go_simps [simp]:
  "add_at (go t pc s) = (add_at s)(t := pc)" "group_count (go t pc s) = group_count s"
  "group_stored (go t pc s) = group_stored s" "block_count (go t pc s) = block_count s" "blocks (go t pc s) = blocks s"
  "group_mutex (go t pc s) = group_mutex s" "new_blocks (go t pc s) = new_blocks s" "tries (go t pc s) = tries s"
  "reserved (go t pc s) = reserved s"
  by (simp_all add: go_def)

lemma pc_ok_cong:
  assumes "group_count s' = group_count s" and "group_stored s' = group_stored s" and "block_count s' = block_count s"
    and "blocks s' = blocks s" and "reserved s' = reserved s"
  shows "pc_ok s' = pc_ok s"
  by (intro ext) (simp only: pc_ok_def assms)

lemma threads_okD:
  assumes "threads_ok s"
  shows "finite {t. add_at s t \<noteq> Out}" "pc_ok s (tries s t) (add_at s t)"
    "group_mutex s = Some t \<longleftrightarrow> inside_mutex (add_at s t)"
  using assms by (simp_all add: threads_ok_def)

lemma finite_threads_upd: "finite {t. ats t \<noteq> Out} \<Longrightarrow> finite {u. (ats(t := pc)) u \<noteq> Out}"
  by (rule finite_subset [of _ "insert t {u. ats u \<noteq> Out}"]) auto

lemma finite_undoing: "finite {t. ats t \<noteq> Out} \<Longrightarrow> finite (undoing ats i)"
  by (rule finite_subset [of _ "{t. ats t \<noteq> Out}"]) (auto simp: undoing_def)

lemma undoing_upd:
  "undoing (ats(t := pc)) i = (if \<exists>b. pc = Undoing b (Suc i) then insert t (undoing ats i) else undoing ats i - {t})"
  by (auto simp: undoing_def)

lemma undoing_same:
  "(\<And>b gc. ats t \<noteq> Undoing b gc) \<Longrightarrow> (\<And>b gc. pc \<noteq> Undoing b gc) \<Longrightarrow> undoing (ats(t := pc)) i = undoing ats i"
  by (auto simp: undoing_def)

lemma fresh_ok_move:
  assumes "fresh_ok s" and "reserved s' = reserved s" and "new_blocks s' = new_blocks s" and "add_at s' = (add_at s)(t := pc)"
    and "pending pc = pending (add_at s t) \<or> pending pc = None"
  shows "fresh_ok s'"
proof -
  have "pending (((add_at s)(t := pc)) u) = Some b \<Longrightarrow> pending (add_at s u) = Some b" for u b
    using assms(5) by (auto split: if_splits)
  then show ?thesis using assms(1) unfolding fresh_ok_def assms(2-4) by meson
qed

lemma counts_ok_move:
  "counts_ok s \<Longrightarrow> group_count s' = group_count s \<Longrightarrow> reserved s' = reserved s \<Longrightarrow> group_stored s' = group_stored s \<Longrightarrow>
   block_count s' = block_count s \<Longrightarrow> (\<And>i. undoing (add_at s') i = undoing (add_at s) i) \<Longrightarrow> counts_ok s'"
  by (simp add: counts_ok_def)

lemma storing_kept:
  assumes "\<exists>u. ats u = Storing b gc i" and "\<And>b gc i. ats t \<noteq> Storing b gc i"
  shows "\<exists>u. (ats(t := pc)) u = Storing b gc i"
proof -
  obtain u where "ats u = Storing b gc i" using assms(1) by blast
  then show ?thesis using assms(2) by (intro exI [of _ u]) auto
qed

lemma slots_ok_move:
  assumes "slots_ok s" and "blocks s' = blocks s" and "reserved s' = reserved s" and "add_at s' = (add_at s)(t := pc)"
    and "\<And>b gc i. add_at s t \<noteq> Storing b gc i"
  shows "slots_ok s'"
proof -
  have "\<exists>u. ((add_at s)(t := pc)) u = Storing b gc i" if "\<exists>u. add_at s u = Storing b gc i" for b gc i
    by (rule storing_kept [OF that]) (rule assms(5))
  then show ?thesis using assms(1) unfolding slots_ok_def assms(2-4) by blast
qed

text \<open>A thread that goes on, on the same side of the mutex.\<close>

lemma threads_ok_step:
  assumes ok: "threads_ok s" and s': "add_at s' = (add_at s)(t := pc)" "group_mutex s' = group_mutex s" "tries s' = tries s"
    and same: "inside_mutex pc = inside_mutex (add_at s t)"
    and others: "\<And>u. u \<noteq> t \<Longrightarrow> pc_ok s' (tries s u) (add_at s u)" and here: "pc_ok s' (tries s t) pc"
  shows "threads_ok s'"
  using others here finite_threads_upd [OF threads_okD(1) [OF ok], of t pc] threads_okD(3) [OF ok] same
  by (simp add: threads_ok_def s')

text \<open>A step that changes the place of a thread, its tries and the mutex only.\<close>

lemma control_ok:
  assumes ok: "table_ok s"
    and old: "\<And>b gc. add_at s t \<noteq> Undoing b gc" "\<And>b gc i. add_at s t \<noteq> Storing b gc i" and new: "\<And>b gc. pc \<noteq> Undoing b gc"
    and p: "pc_ok s n pc" and m: "\<And>u. m = Some u \<longleftrightarrow> inside_mutex (((add_at s)(t := pc)) u)"
    and pend: "pending pc = pending (add_at s t) \<or> pending pc = None"
  shows "table_ok (go t pc (s\<lparr>tries := (tries s)(t := n), group_mutex := m\<rparr>))"
proof -
  let ?s = "go t pc (s\<lparr>tries := (tries s)(t := n), group_mutex := m\<rparr>)"
  have d: "counts_ok s" "slots_ok s" "threads_ok s" "fresh_ok s" using ok by (simp_all add: table_ok_def)
  have "pc_ok ?s = pc_ok s" by (rule pc_ok_cong) simp_all
  then have "threads_ok ?s"
    using threads_okD(1,2) [OF d(3)] p m finite_threads_upd [OF threads_okD(1) [OF d(3)], of t pc] by (simp add: threads_ok_def)
  moreover have "counts_ok ?s" by (rule counts_ok_move [OF d(1)]) (simp_all add: undoing_same old(1) new)
  moreover have "slots_ok ?s" by (rule slots_ok_move [OF d(2), of _ t pc]) (simp_all add: old(2))
  moreover have "fresh_ok ?s" by (rule fresh_ok_move [OF d(4), of _ t pc]) (simp_all add: pend)
  ultimately show ?thesis by (simp add: table_ok_def)
qed

lemma mutex_kept:
  "threads_ok s \<Longrightarrow> inside_mutex pc = inside_mutex (add_at s t) \<Longrightarrow>
   group_mutex s = Some u \<longleftrightarrow> inside_mutex (((add_at s)(t := pc)) u)"
  using threads_okD(3) [of s] by simp

lemma call_ok:
  assumes ok: "table_ok s" and out: "outside_add (add_at s t)"
  shows "table_ok (call_add_block t s)"
proof -
  let ?pc = "Loading (new_blocks s)" and ?s = "call_add_block t s"
  have d: "counts_ok s" "slots_ok s" "threads_ok s" "fresh_ok s" using ok by (simp_all add: table_ok_def)
  have f: "add_at ?s = (add_at s)(t := ?pc)" "group_count ?s = group_count s" "reserved ?s = reserved s"
    "group_stored ?s = group_stored s" "block_count ?s = block_count s" "blocks ?s = blocks s" "group_mutex ?s = group_mutex s"
    "new_blocks ?s = Suc (new_blocks s)" "tries ?s = (tries s)(t := 0)"
    by (simp_all add: call_add_block_def)
  have old: "add_at s t \<noteq> Undoing b gc" "add_at s t \<noteq> Storing b gc i" "\<not> inside_mutex (add_at s t)" for b gc i
    using out by (auto simp: outside_add_def inside_mutex_def split: add_pc.splits)
  have "pc_ok ?s = pc_ok s" by (rule pc_ok_cong) (simp_all add: f)
  moreover have "pc_ok s 0 ?pc" by (simp add: pc_ok_def)
  ultimately have "threads_ok ?s"
    using threads_okD [OF d(3)] finite_threads_upd [OF threads_okD(1) [OF d(3)], of t ?pc] old(3)
    by (simp add: threads_ok_def f inside_mutex_def)
  moreover have "counts_ok ?s" by (rule counts_ok_move [OF d(1)]) (simp_all add: f undoing_same old)
  moreover have "slots_ok ?s" by (rule slots_ok_move [OF d(2), of _ t ?pc]) (simp_all add: f old)
  moreover have "fresh_ok ?s"
  proof -
    have "pending (add_at s u) \<noteq> Some (new_blocks s)" for u using d(4) by (auto simp: fresh_ok_def)
    moreover have "new_blocks s \<notin> set (reserved s)" using d(4) by (auto simp: fresh_ok_def)
    ultimately show ?thesis using d(4) unfolding fresh_ok_def f
      by (auto simp: pending_def [of ?pc] less_Suc_eq split: if_splits)
  qed
  ultimately show ?thesis by (simp add: table_ok_def)
qed

text \<open>More reservations or groups leave what holds at a place, outside the mutex.\<close>

lemma pc_ok_reserve:
  assumes "pc_ok s n pc" and "length (reserved s) < GROUPS * CAP" and "group_count s' = group_count s" and "blocks s' = blocks s"
    and "reserved s' = reserved s @ [b]" and "group_stored s' = group_stored s"
    and "\<And>i. group_count s \<le> i \<Longrightarrow> block_count s' i = block_count s i"
  shows "pc_ok s' n pc"
  using assms by (cases pc) (auto simp: pc_ok_def nth_append split: option.splits if_splits)

lemma pc_ok_counts:
  assumes "pc_ok s n pc" and "group_count s' = group_count s" and "blocks s' = blocks s"
    and "reserved s' = reserved s" and "group_stored s' = group_stored s"
    and "\<And>i. group_count s \<le> i \<Longrightarrow> block_count s' i = block_count s i"
  shows "pc_ok s' n pc"
  using assms by (cases pc) (auto simp: pc_ok_def split: option.splits if_splits)

lemma place_eq:
  assumes "j < CAP" and "j' < CAP" and "i * CAP + j = i' * CAP + j'"
  shows "i = i' \<and> j = j'"
proof -
  have "(i * CAP + j) div CAP = i" "(i * CAP + j) mod CAP = j" using assms(1) by (simp_all add: div_mult_self3)
  moreover have "(i' * CAP + j') div CAP = i'" "(i' * CAP + j') mod CAP = j'" using assms(2) by (simp_all add: div_mult_self3)
  ultimately show ?thesis using assms(3) by metis
qed

lemma place_div_mod: "j < CAP \<Longrightarrow> (i * CAP + j) div CAP = i" "j < CAP \<Longrightarrow> (i * CAP + j) mod CAP = j"
  by simp_all

text \<open>What \<open>fetch_add\<close> returns.\<close>

lemma count_cases:
  assumes ok: "counts_ok s" "threads_ok s" and gc: "1 \<le> gc" "gc \<le> group_count s"
  shows "block_count s (gc - 1) < CAP \<Longrightarrow>
      length (reserved s) = (gc - 1) * CAP + block_count s (gc - 1) \<and> gc = group_count s \<and> undoing (add_at s) (gc - 1) = {}"
    and "CAP \<le> block_count s (gc - 1) \<Longrightarrow> gc * CAP \<le> length (reserved s)"
proof -
  let ?i = "gc - 1" and ?N = "length (reserved s)"
  have c: "block_count s ?i = min CAP (?N - ?i * CAP) + card (undoing (add_at s) ?i)" "?N \<le> group_count s * CAP"
    "(group_count s - 1) * CAP \<le> ?N"
    using ok(1) gc by (simp_all add: counts_ok_def)
  have full: "gc * CAP \<le> ?N" if "t \<in> undoing (add_at s) ?i" for t
    using that threads_okD(2) [OF ok(2), of t] gc by (auto simp: undoing_def pc_ok_def)
  have fin: "finite (undoing (add_at s) ?i)" by (rule finite_undoing [OF threads_okD(1) [OF ok(2)]])
  have ci: "gc * CAP = ?i * CAP + CAP" using gc(1) by (cases gc) simp_all
  have low: "?i * CAP \<le> ?N"
    by (rule le_trans [OF mult_le_mono1 c(3)]) (use gc(2) in simp)
  show "?N = ?i * CAP + block_count s ?i \<and> gc = group_count s \<and> undoing (add_at s) ?i = {}" if l: "block_count s ?i < CAP"
  proof -
    have nf: "\<not> gc * CAP \<le> ?N"
    proof
      assume "gc * CAP \<le> ?N"
      then have "CAP \<le> ?N - ?i * CAP" using ci by simp
      then show False using l c(1) by simp
    qed
    then have u: "undoing (add_at s) ?i = {}" using full by blast
    have "gc = group_count s"
    proof (rule ccontr)
      assume "gc \<noteq> group_count s"
      then have "gc * CAP \<le> (group_count s - 1) * CAP" using gc by (intro mult_le_mono1) simp
      then show False using nf c(3) by linarith
    qed
    then show ?thesis using u c(1) nf ci low by simp
  qed
  show "gc * CAP \<le> ?N" if l: "CAP \<le> block_count s ?i"
  proof (cases "undoing (add_at s) ?i = {}")
    case True
    then show ?thesis using l c(1) ci low by (simp add: min_def split: if_splits)
  next
    case False
    then show ?thesis using full by blast
  qed
qed

text \<open>A place is reserved: the next one of the last group.\<close>

lemma counts_ok_reserve:
  assumes ok: "counts_ok s" and k: "block_count s i = k" "k < CAP" "length (reserved s) = i * CAP + k" "Suc i = group_count s"
    and empty: "undoing (add_at s) i = {}" and u: "\<And>i. undoing (add_at s') i = undoing (add_at s) i"
    and s': "group_count s' = group_count s" "reserved s' = reserved s @ [b]" "group_stored s' = group_stored s"
      "block_count s' = (block_count s)(i := k + 1)"
  shows "counts_ok s'"
proof -
  let ?N = "length (reserved s)"
  have "group_stored s n \<and> ((block_count s)(i := k + 1)) n = min CAP (Suc ?N - n * CAP) + card (undoing (add_at s) n)"
    if n: "n < group_count s" for n
  proof (cases "n = i")
    case True
    then show ?thesis using ok n k empty by (simp add: counts_ok_def)
  next
    case False
    then have "n * CAP + CAP \<le> i * CAP" using mult_le_mono1 [of "Suc n" i CAP] n k(4) by simp
    then have "CAP \<le> ?N - n * CAP" "CAP \<le> Suc ?N - n * CAP" using k(3) by simp_all
    then show ?thesis using ok n False by (simp add: counts_ok_def)
  qed
  moreover have "Suc ?N \<le> group_count s * CAP" using k(2,3) by (simp flip: k(4))
  ultimately show ?thesis using ok unfolding counts_ok_def s' u by simp
qed

lemma slots_ok_reserve:
  assumes ok: "slots_ok s" and at: "add_at s t = Adding b' gc" and k: "k < CAP" "length (reserved s) = i * CAP + k"
    and s': "add_at s' = (add_at s)(t := Storing b (Suc i) k)" "reserved s' = reserved s @ [b]" "blocks s' = blocks s"
  shows "slots_ok s'"
  unfolding slots_ok_def s'
proof (intro conjI allI impI)
  fix i j b' assume "blocks s i j = Some b'"
  then have "j < CAP" "i * CAP + j < length (reserved s)" "reserved s ! (i * CAP + j) = b'" using ok by (auto simp: slots_ok_def)
  then show "j < CAP" "i * CAP + j < length (reserved s @ [b])" "(reserved s @ [b]) ! (i * CAP + j) = b'"
    by (simp_all add: nth_append)
next
  let ?ats = "(add_at s)(t := Storing b (Suc i) k)"
  fix n assume n: "n < length (reserved s @ [b])"
  show "blocks s (n div CAP) (n mod CAP) = Some ((reserved s @ [b]) ! n) \<or>
    (\<exists>u. ?ats u = Storing ((reserved s @ [b]) ! n) (Suc (n div CAP)) (n mod CAP))"
  proof (cases "n < length (reserved s)")
    case True
    then have "blocks s (n div CAP) (n mod CAP) = Some (reserved s ! n) \<or>
      (\<exists>u. add_at s u = Storing (reserved s ! n) (Suc (n div CAP)) (n mod CAP))" using ok by (simp add: slots_ok_def)
    moreover have "\<exists>u. ?ats u = Storing x y z" if "\<exists>u. add_at s u = Storing x y z" for x y z
      by (rule storing_kept [OF that]) (simp add: at)
    ultimately show ?thesis using True by (simp add: nth_append del: fun_upd_apply) blast
  next
    case False
    then have n: "n = i * CAP + k" using n k by simp
    then have "n div CAP = i" "n mod CAP = k" using place_div_mod [OF k(1)] by simp_all
    then show ?thesis using False n k by (intro disjI2 exI [of _ t]) (simp add: nth_append)
  qed
qed

lemma fresh_ok_reserve:
  assumes ok: "fresh_ok s" and at: "add_at s t = Adding b gc"
    and none: "pending pc = None"
    and s': "add_at s' = (add_at s)(t := pc)" "reserved s' = reserved s @ [b]" "new_blocks s' = new_blocks s"
  shows "fresh_ok s'"
proof -
  have "pending (add_at s t) = Some b" by (simp add: at pending_def)
  then have "b < new_blocks s" "b \<notin> set (reserved s)" "\<And>u. pending (add_at s u) = Some b \<Longrightarrow> u = t"
    using ok unfolding fresh_ok_def by blast+
  then show ?thesis using ok none unfolding fresh_ok_def s' by (auto split: if_splits)
qed

lemma fetch_add_reserves:
  assumes ok: "table_ok s" and pc: "add_at s t = Adding b gc" and room: "block_count s (gc - 1) < CAP"
  shows "table_ok (fetch_add_step t b gc s)"
proof -
  let ?i = "gc - 1" and ?N = "length (reserved s)" and ?s = "fetch_add_step t b gc s"
  let ?k = "block_count s ?i" and ?pc = "Storing b gc (block_count s ?i)"
  have d: "counts_ok s" "slots_ok s" "threads_ok s" "fresh_ok s" using ok by (simp_all add: table_ok_def)
  have g: "1 \<le> gc" "gc \<le> group_count s" "tries s t \<le> gc + 1"
    using threads_okD(2) [OF d(3), of t] by (simp_all add: pc pc_ok_def)
  note c = count_cases(1) [OF d(1,3) g(1,2) room]
  then have N: "?N = ?i * CAP + ?k" and last: "Suc ?i = group_count s" and gc: "gc = Suc ?i" using g by simp_all
  have f: "add_at ?s = (add_at s)(t := ?pc)" "group_count ?s = group_count s" "reserved ?s = reserved s @ [b]"
    "group_stored ?s = group_stored s" "block_count ?s = (block_count s)(?i := ?k + 1)" "blocks ?s = blocks s"
    "group_mutex ?s = group_mutex s" "new_blocks ?s = new_blocks s" "tries ?s = tries s"
    using room by (simp_all add: fetch_add_step_def Let_def)
  have "Suc ?i * CAP \<le> GROUPS * CAP" using d(1) by (simp only: last) (simp add: counts_ok_def)
  then have free: "?N < GROUPS * CAP" using N room by simp
  have mono: "pc_ok ?s n pc" if "pc_ok s n pc" for n pc
    by (rule pc_ok_reserve [OF that free, where b = b]) (use g in \<open>auto simp: f\<close>)
  have here: "pc_ok ?s (tries s t) ?pc" unfolding pc_ok_def add_pc.case f N [symmetric] using g room by simp
  have "threads_ok ?s"
    by (rule threads_ok_step [OF d(3) f(1,7,9) _ mono here]) (simp_all add: inside_mutex_def pc threads_okD(2) [OF d(3)])
  moreover have "counts_ok ?s"
  proof (rule counts_ok_reserve [OF d(1) refl room N last _ _ f(2-5)])
    show "undoing (add_at s) ?i = {}" using c by blast
    show "undoing (add_at ?s) i = undoing (add_at s) i" for i unfolding f(1) by (rule undoing_same) (simp_all add: pc)
  qed
  moreover have "slots_ok ?s"
    by (rule slots_ok_reserve [OF d(2) pc room N _ f(3,6)]) (use gc in \<open>simp add: f\<close>)
  moreover have "fresh_ok ?s" by (rule fresh_ok_reserve [OF d(4) pc _ f(1,3,8)]) (simp add: pending_def)
  ultimately show ?thesis by (simp add: table_ok_def)
qed

lemma fetch_add_overshoots:
  assumes ok: "table_ok s" and pc: "add_at s t = Adding b gc" and no_room: "\<not> block_count s (gc - 1) < CAP"
  shows "table_ok (fetch_add_step t b gc s)"
proof -
  let ?i = "gc - 1" and ?k = "block_count s (gc - 1)" and ?pc = "Undoing b gc" and ?s = "fetch_add_step t b gc s"
  have d: "counts_ok s" "slots_ok s" "threads_ok s" "fresh_ok s" using ok by (simp_all add: table_ok_def)
  have g: "1 \<le> gc" "gc \<le> group_count s" "tries s t \<le> gc + 1"
    using threads_okD(2) [OF d(3), of t] by (simp_all add: pc pc_ok_def)
  have full: "gc * CAP \<le> length (reserved s)" using count_cases(2) [OF d(1,3) g(1,2)] no_room by simp
  have f: "add_at ?s = (add_at s)(t := ?pc)" "group_count ?s = group_count s" "reserved ?s = reserved s"
    "group_stored ?s = group_stored s" "block_count ?s = (block_count s)(?i := ?k + 1)" "blocks ?s = blocks s"
    "group_mutex ?s = group_mutex s" "new_blocks ?s = new_blocks s" "tries ?s = tries s"
    using no_room by (simp_all add: fetch_add_step_def Let_def)
  have mono: "pc_ok ?s n pc" if "pc_ok s n pc" for n pc
    by (rule pc_ok_counts [OF that]) (use g in \<open>auto simp: f\<close>)
  have here: "pc_ok ?s (tries s t) ?pc" using g full by (simp add: pc_ok_def f)
  have "threads_ok ?s"
    by (rule threads_ok_step [OF d(3) f(1,7,9) _ mono here]) (simp_all add: inside_mutex_def pc threads_okD(2) [OF d(3)])
  moreover have "counts_ok ?s"
  proof -
    have "t \<notin> undoing (add_at s) i" for i by (simp add: undoing_def pc)
    then have "card (undoing ((add_at s)(t := ?pc)) i) = card (undoing (add_at s) i) + (if i = ?i then 1 else 0)" for i
      using g(1) finite_undoing [OF threads_okD(1) [OF d(3)], of i]
      by (cases "i = ?i") (auto simp: undoing_upd card_insert_if)
    then show ?thesis using d(1) unfolding counts_ok_def f by simp
  qed
  moreover have "slots_ok ?s" by (rule slots_ok_move [OF d(2), of _ t ?pc]) (simp_all add: f pc)
  moreover have "fresh_ok ?s" by (rule fresh_ok_move [OF d(4), of _ t ?pc]) (simp_all add: f pc pending_def)
  ultimately show ?thesis by (simp add: table_ok_def)
qed

lemma fetch_add_ok:
  "table_ok s \<Longrightarrow> add_at s t = Adding b gc \<Longrightarrow> table_ok (fetch_add_step t b gc s)"
  using fetch_add_reserves fetch_add_overshoots by blast

text \<open>The block is stored in the place that was reserved for it.\<close>

lemma slots_ok_store:
  assumes ok: "slots_ok s" and at: "add_at s t = Storing b (Suc i) j" and k: "j < CAP" "i * CAP + j < length (reserved s)"
      "reserved s ! (i * CAP + j) = b"
    and s': "add_at s' = (add_at s)(t := pc)" "reserved s' = reserved s" "blocks s' = (\<lambda>x y. if x = i \<and> y = j then Some b else blocks s x y)"
  shows "slots_ok s'"
  unfolding slots_ok_def s'
proof (intro conjI allI impI)
  fix x y b' assume "(if x = i \<and> y = j then Some b else blocks s x y) = Some b'"
  then have "y < CAP \<and> x * CAP + y < length (reserved s) \<and> reserved s ! (x * CAP + y) = b'"
    using k ok by (auto simp: slots_ok_def split: if_splits)
  then show "y < CAP" "x * CAP + y < length (reserved s)" "reserved s ! (x * CAP + y) = b'" by simp_all
next
  fix n assume n: "n < length (reserved s)"
  have here: "reserved s ! n = b" if "n div CAP = i" "n mod CAP = j" using k(3) that by (metis div_mult_mod_eq)
  have "blocks s (n div CAP) (n mod CAP) = Some (reserved s ! n) \<or>
    (\<exists>u. add_at s u = Storing (reserved s ! n) (Suc (n div CAP)) (n mod CAP))" using ok n by (simp add: slots_ok_def)
  moreover have "u \<noteq> t" if "add_at s u = Storing (reserved s ! n) (Suc (n div CAP)) (n mod CAP)"
    "\<not> (n div CAP = i \<and> n mod CAP = j)" for u using that at by auto
  ultimately show "(if n div CAP = i \<and> n mod CAP = j then Some b else blocks s (n div CAP) (n mod CAP)) = Some (reserved s ! n) \<or>
    (\<exists>u. ((add_at s)(t := pc)) u = Storing (reserved s ! n) (Suc (n div CAP)) (n mod CAP))"
    using here by (cases "n div CAP = i \<and> n mod CAP = j") fastforce+
qed

lemma store_ok:
  assumes ok: "table_ok s" and pc: "add_at s t = Storing b gc i"
  shows "table_ok (store_step t b gc i s)"
proof -
  let ?k = "(gc - 1) * CAP + i" and ?s = "store_step t b gc i s"
  let ?pc = "Returned b (Some ((gc - 1) * CAP + i))"
  have d: "counts_ok s" "slots_ok s" "threads_ok s" "fresh_ok s" using ok by (simp_all add: table_ok_def)
  have g: "1 \<le> gc" "gc \<le> group_count s" "tries s t \<le> gc + 1" "i < CAP" "?k < length (reserved s)" "reserved s ! ?k = b"
    using threads_okD(2) [OF d(3), of t] by (simp_all add: pc pc_ok_def)
  have max: "group_count s \<le> GROUPS" using d(1) by (simp add: counts_ok_def)
  have f: "add_at ?s = (add_at s)(t := ?pc)" "group_count ?s = group_count s" "reserved ?s = reserved s"
    "group_stored ?s = group_stored s" "block_count ?s = block_count s"
    "group_mutex ?s = group_mutex s" "new_blocks ?s = new_blocks s" "tries ?s = tries s"
    by (simp_all add: store_step_def)
  have bl: "blocks ?s = (\<lambda>x y. if x = gc - 1 \<and> y = i then Some b else blocks s x y)"
    by (intro ext) (simp add: store_step_def)
  have same: "blocks ?s (n div CAP) (n mod CAP) = Some (reserved s ! n)"
    if "blocks s (n div CAP) (n mod CAP) = Some (reserved s ! n)" for n
    using that g(6) unfolding bl by (metis div_mult_mod_eq)
  have mono: "pc_ok ?s n pc'" if "pc_ok s n pc'" for n pc'
    using that same by (cases pc') (auto simp: pc_ok_def f split: option.splits if_splits)
  have "blocks ?s (?k div CAP) (?k mod CAP) = Some b" using g(4) by (simp add: bl)
  then have here: "pc_ok ?s (tries s t) ?pc" using g max by (simp add: pc_ok_def f)
  have "threads_ok ?s"
    by (rule threads_ok_step [OF d(3) f(1,6,8) _ mono here]) (simp_all add: inside_mutex_def pc threads_okD(2) [OF d(3)])
  moreover have "counts_ok ?s" by (rule counts_ok_move [OF d(1)]) (simp_all add: f undoing_same pc)
  moreover have "slots_ok ?s" by (rule slots_ok_store [OF d(2) _ g(4-6) f(1,3) bl]) (use g(1) in \<open>simp add: pc\<close>)
  moreover have "fresh_ok ?s" by (rule fresh_ok_move [OF d(4), of _ t ?pc]) (simp_all add: f pending_def)
  ultimately show ?thesis by (simp add: table_ok_def)
qed

lemma undo_ok:
  assumes ok: "table_ok s" and pc: "add_at s t = Undoing b gc"
  shows "table_ok (go t (Locking b gc) (s\<lparr>block_count := (block_count s)(gc - 1 := block_count s (gc - 1) - 1)\<rparr>))"
proof -
  let ?i = "gc - 1" and ?pc = "Locking b gc"
  let ?s = "go t ?pc (s\<lparr>block_count := (block_count s)(?i := block_count s ?i - 1)\<rparr>)"
  have d: "counts_ok s" "slots_ok s" "threads_ok s" "fresh_ok s" using ok by (simp_all add: table_ok_def)
  have g: "1 \<le> gc" "gc \<le> group_count s" "tries s t \<le> gc + 1" "gc * CAP \<le> length (reserved s)"
    using threads_okD(2) [OF d(3), of t] by (simp_all add: pc pc_ok_def)
  have mono: "pc_ok ?s n pc'" if "pc_ok s n pc'" for n pc'
    by (rule pc_ok_counts [OF that]) (use g in auto)
  have here: "pc_ok ?s (tries s t) ?pc" using g by (simp add: pc_ok_def)
  have "threads_ok ?s"
    by (rule threads_ok_step [OF d(3), where t = t and pc = ?pc]; (rule mono here)?)
      (simp_all add: inside_mutex_def pc threads_okD(2) [OF d(3)])
  moreover have "counts_ok ?s"
  proof -
    have mem: "t \<in> undoing (add_at s) i \<longleftrightarrow> i = ?i" for i using g(1) by (auto simp: undoing_def pc)
    have card: "card (undoing ((add_at s)(t := ?pc)) i) = (if i = ?i then card (undoing (add_at s) i) - 1 else card (undoing (add_at s) i))" for i
      using mem [of i] by (cases "i = ?i") (simp_all add: undoing_upd card_Diff_singleton)
    have "0 < card (undoing (add_at s) ?i)"
      using finite_undoing [OF threads_okD(1) [OF d(3)], of ?i] mem [of ?i] by (auto simp: card_gt_0_iff)
    then show ?thesis using d(1) card by (auto simp: counts_ok_def)
  qed
  moreover have "slots_ok ?s" by (rule slots_ok_move [OF d(2), of _ t ?pc]) (simp_all add: pc)
  moreover have "fresh_ok ?s" by (rule fresh_ok_move [OF d(4), of _ t ?pc]) (simp_all add: pc pending_def)
  ultimately show ?thesis by (simp add: table_ok_def)
qed

text \<open>Only the thread in the mutex is in \<open>add_block_group\<close> behind the lock.\<close>

lemma alone_inside: "threads_ok s \<Longrightarrow> inside_mutex (add_at s t) \<Longrightarrow> inside_mutex (add_at s u) \<Longrightarrow> u = t"
  using threads_okD(3) [of s t] threads_okD(3) [of s u] by simp

text \<open>So adding a group leaves what holds at the places of the others.\<close>

lemma pc_ok_outside:
  assumes ok: "threads_ok s" and here: "inside_mutex (add_at s t)" and u: "u \<noteq> t"
    and s': "group_count s \<le> group_count s'" "reserved s' = reserved s"
      "\<And>n. n < length (reserved s) \<Longrightarrow> blocks s' (n div CAP) (n mod CAP) = blocks s (n div CAP) (n mod CAP)"
  shows "pc_ok s' (tries s u) (add_at s u)"
proof -
  have "\<not> inside_mutex (add_at s u)" using alone_inside [OF ok here, of u] u by blast
  then show ?thesis using threads_okD(2) [OF ok, of u] s'
    by (cases "add_at s u") (auto simp: pc_ok_def inside_mutex_def split: option.splits)
qed

text \<open>A group beyond the reserved places may be replaced.\<close>

lemma slots_ok_empty_group:
  assumes ok: "slots_ok s" and at: "\<And>b gc i. add_at s t \<noteq> Storing b gc i"
    and below: "\<And>n. n < length (reserved s) \<Longrightarrow> n div CAP < i"
    and s': "add_at s' = (add_at s)(t := pc)" "reserved s' = reserved s" "blocks s' = (blocks s)(i := (\<lambda>_. None))"
  shows "slots_ok s'"
  unfolding slots_ok_def s'
proof (intro conjI allI impI)
  fix x y b assume "((blocks s)(i := (\<lambda>_. None))) x y = Some b"
  then have "blocks s x y = Some b" by (simp split: if_splits)
  then show "y < CAP" "x * CAP + y < length (reserved s)" "reserved s ! (x * CAP + y) = b" using ok by (auto simp: slots_ok_def)
next
  fix n assume n: "n < length (reserved s)"
  have "\<exists>u. ((add_at s)(t := pc)) u = Storing x y z" if "\<exists>u. add_at s u = Storing x y z" for x y z
    by (rule storing_kept [OF that]) (rule at)
  moreover have "((blocks s)(i := (\<lambda>_. None))) (n div CAP) (n mod CAP) = blocks s (n div CAP) (n mod CAP)"
    using below [OF n] by simp
  ultimately show "((blocks s)(i := (\<lambda>_. None))) (n div CAP) (n mod CAP) = Some (reserved s ! n) \<or>
    (\<exists>u. ((add_at s)(t := pc)) u = Storing (reserved s ! n) (Suc (n div CAP)) (n mod CAP))"
    using ok n unfolding slots_ok_def by metis
qed

lemma publish_ok:
  assumes ok: "table_ok s" and pc: "add_at s t = Publishing b gc"
  shows "table_ok (publish_step t b gc s)"
proof -
  let ?pc = "Counting b gc" and ?s = "publish_step t b gc s"
  have d: "counts_ok s" "slots_ok s" "threads_ok s" "fresh_ok s" using ok by (simp_all add: table_ok_def)
  have g: "gc = group_count s" "gc < GROUPS" "tries s t \<le> gc + 1" "gc * CAP \<le> length (reserved s)"
    using threads_okD(2) [OF d(3), of t] by (auto simp: pc pc_ok_def)
  have f: "add_at ?s = (add_at s)(t := ?pc)" "group_count ?s = group_count s" "reserved ?s = reserved s"
    "group_stored ?s = (group_stored s)(gc := True)" "block_count ?s = (block_count s)(gc := 0)"
    "blocks ?s = (blocks s)(gc := (\<lambda>_. None))"
    "group_mutex ?s = group_mutex s" "new_blocks ?s = new_blocks s" "tries ?s = tries s"
    by (simp_all add: publish_step_def)
  have below: "n div CAP < gc" if "n < length (reserved s)" for n
  proof -
    have "n < gc * CAP" using that d(1) g(1) by (simp add: counts_ok_def)
    then show ?thesis by (simp add: less_mult_imp_div_less)
  qed
  have mono: "pc_ok ?s (tries s u) (add_at s u)" if "u \<noteq> t" for u
    by (rule pc_ok_outside [OF d(3) _ that]) (use below in \<open>auto simp: f pc inside_mutex_def\<close>)
  have here: "pc_ok ?s (tries s t) ?pc" unfolding pc_ok_def add_pc.case f using g by auto
  have "threads_ok ?s"
    by (rule threads_ok_step [OF d(3) f(1,7,9) _ mono here]) (simp_all add: inside_mutex_def pc)
  moreover have "counts_ok ?s"
  proof -
    have u: "undoing ((add_at s)(t := ?pc)) i = undoing (add_at s) i" for i by (rule undoing_same) (simp_all add: pc)
    show ?thesis using d(1) g(1) unfolding counts_ok_def f u by simp
  qed
  moreover have "slots_ok ?s" by (rule slots_ok_empty_group [OF d(2) _ below f(1,3,6)]) (simp_all add: pc)
  moreover have "fresh_ok ?s" by (rule fresh_ok_move [OF d(4), of _ t ?pc]) (simp_all add: f pc pending_def)
  ultimately show ?thesis by (simp add: table_ok_def)
qed

lemma count_ok:
  assumes ok: "table_ok s" and pc: "add_at s t = Counting b gc"
  shows "table_ok (go t (Unlocking b True) (s\<lparr>group_count := gc + 1\<rparr>))"
proof -
  let ?pc = "Unlocking b True" and ?s = "go t (Unlocking b True) (s\<lparr>group_count := gc + 1\<rparr>)"
  have d: "counts_ok s" "slots_ok s" "threads_ok s" "fresh_ok s" using ok by (simp_all add: table_ok_def)
  have g: "gc = group_count s" "gc < GROUPS" "tries s t \<le> gc + 1" "gc * CAP \<le> length (reserved s)" "group_stored s gc"
    "block_count s gc = 0" using threads_okD(2) [OF d(3), of t] by (auto simp: pc pc_ok_def)
  have mono: "pc_ok ?s (tries s u) (add_at s u)" if "u \<noteq> t" for u
    by (rule pc_ok_outside [OF d(3) _ that]) (use g(1) in \<open>auto simp: pc inside_mutex_def\<close>)
  have here: "pc_ok ?s (tries s t) ?pc" using g by (simp add: pc_ok_def)
  have "threads_ok ?s"
    by (rule threads_ok_step [OF d(3), where t = t and pc = ?pc]; (rule mono here)?) (simp_all add: inside_mutex_def pc)
  moreover have "counts_ok ?s"
  proof -
    have u: "undoing ((add_at s)(t := ?pc)) i = undoing (add_at s) i" for i by (rule undoing_same) (simp_all add: pc)
    have none: "undoing (add_at s) gc = {}"
    proof (rule ccontr)
      assume "undoing (add_at s) gc \<noteq> {}"
      then obtain u b' where "add_at s u = Undoing b' (Suc gc)" by (auto simp: undoing_def)
      then show False using threads_okD(2) [OF d(3), of u] g(1) by (simp add: pc_ok_def)
    qed
    have full: "length (reserved s) = gc * CAP" using d(1) g(1,4) by (simp add: counts_ok_def)
    have "\<forall>i < gc. group_stored s i \<and> block_count s i = min CAP (length (reserved s) - i * CAP) + card (undoing (add_at s) i)"
      using d(1) g(1) by (simp add: counts_ok_def)
    then show ?thesis using g none full by (auto simp: counts_ok_def u less_Suc_eq)
  qed
  moreover have "slots_ok ?s" by (rule slots_ok_move [OF d(2), of _ t ?pc]) (simp_all add: pc)
  moreover have "fresh_ok ?s" by (rule fresh_ok_move [OF d(4), of _ t ?pc]) (simp_all add: pc pending_def)
  ultimately show ?thesis by (simp add: table_ok_def)
qed

lemma go_control: "go t pc s = go t pc (s\<lparr>tries := (tries s)(t := tries s t), group_mutex := group_mutex s\<rparr>)"
  by simp

text \<open>The steps that only look and go on.\<close>

lemma load_ok:
  assumes ok: "table_ok s" and at: "add_at s t = Loading b" and step: "add_step t s = Some s'"
  shows "table_ok s'"
proof -
  have d: "counts_ok s" "threads_ok s" using ok by (simp_all add: table_ok_def)
  let ?pc = "if group_count s \<ge> 1 then Grouping b (group_count s) else Locking b (group_count s)"
  have zero: "group_count s * CAP \<le> length (reserved s)" if "\<not> Suc 0 \<le> group_count s" using that by (cases "group_count s") simp_all
  have "table_ok (go t ?pc (s\<lparr>tries := (tries s)(t := tries s t + 1), group_mutex := group_mutex s\<rparr>))"
    by (rule control_ok [OF ok]; (rule mutex_kept [OF d(2)])?)
      (use threads_okD(2) [OF d(2), of t] zero in \<open>auto simp: at pc_ok_def pending_def inside_mutex_def\<close>)
  then show ?thesis using step by (simp add: add_step_def at Let_def)
qed

lemma enter_group_ok:
  assumes ok: "table_ok s" and at: "add_at s t = Grouping b gc" and step: "add_step t s = Some s'"
  shows "table_ok s'"
proof -
  have d: "counts_ok s" "threads_ok s" using ok by (simp_all add: table_ok_def)
  note here = threads_okD(2) [OF d(2), of t]
  have "gc - 1 < group_count s" using here by (simp add: at pc_ok_def) linarith
  then have gs: "group_stored s (gc - 1)" using d(1) by (simp add: counts_ok_def)
  have "table_ok (go t (Adding b gc) (s\<lparr>tries := (tries s)(t := tries s t), group_mutex := group_mutex s\<rparr>))"
    by (rule control_ok [OF ok]; (rule mutex_kept [OF d(2)])?)
      (use here in \<open>auto simp: at pc_ok_def pending_def inside_mutex_def\<close>)
  then show ?thesis using step gs by (simp add: add_step_def at)
qed

lemma lock_group_ok:
  assumes ok: "table_ok s" and at: "add_at s t = Locking b gc" and step: "add_step t s = Some s'"
  shows "table_ok s'"
proof -
  have d: "threads_ok s" using ok by (simp add: table_ok_def)
  have free: "group_mutex s = None" and s': "s' = go t (Checking b gc) (s\<lparr>group_mutex := Some t\<rparr>)"
    using step by (auto simp: add_step_def at split: if_splits)
  have none: "\<not> inside_mutex (add_at s u)" for u using threads_okD(3) [OF d, of u] free by simp
  have "table_ok (go t (Checking b gc) (s\<lparr>tries := (tries s)(t := tries s t), group_mutex := Some t\<rparr>))"
    by (rule control_ok [OF ok])
      (use threads_okD(2) [OF d, of t] none in \<open>auto simp: at pc_ok_def pending_def inside_mutex_def [of "Checking b gc"]\<close>)
  then show ?thesis by (simp add: s')
qed

lemma check_group_ok:
  assumes ok: "table_ok s" and at: "add_at s t = Checking b gc" and step: "add_step t s = Some s'"
  shows "table_ok s'"
proof -
  have d: "counts_ok s" "threads_ok s" using ok by (simp_all add: table_ok_def)
  have g: "gc \<le> group_count s" "tries s t \<le> gc + 1" "gc * CAP \<le> length (reserved s)"
    using threads_okD(2) [OF d(2), of t] by (simp_all add: at pc_ok_def)
  have max: "group_count s \<le> GROUPS" "length (reserved s) \<le> group_count s * CAP" using d(1) by (simp_all add: counts_ok_def)
  let ?pc = "if group_count s \<noteq> gc then Unlocking b True
                 else if group_count s < GROUPS then Publishing b gc else Unlocking b False"
  have full: "length (reserved s) = GROUPS * CAP" if "group_count s = gc" "\<not> group_count s < GROUPS"
    using that g(3) max by simp
  have "table_ok (go t ?pc (s\<lparr>tries := (tries s)(t := tries s t), group_mutex := group_mutex s\<rparr>))"
    by (rule control_ok [OF ok]; (rule mutex_kept [OF d(2)])?)
      (use g full max in \<open>auto simp: at pc_ok_def pending_def inside_mutex_def\<close>)
  then show ?thesis using step by (simp add: add_step_def at)
qed

lemma unlock_group_ok:
  assumes ok: "table_ok s" and at: "add_at s t = Unlocking b again" and step: "add_step t s = Some s'"
  shows "table_ok s'"
proof -
  have d: "threads_ok s" using ok by (simp add: table_ok_def)
  let ?pc = "if again then Loading b else Returned b None"
  have only: "\<not> inside_mutex (add_at s u)" if "u \<noteq> t" for u
    using alone_inside [OF d, of t u] that by (auto simp: inside_mutex_def at)
  have "table_ok (go t ?pc (s\<lparr>tries := (tries s)(t := tries s t), group_mutex := None\<rparr>))"
    by (rule control_ok [OF ok])
      (use threads_okD(2) [OF d, of t] only in \<open>auto simp: at pc_ok_def pending_def inside_mutex_def [of "Loading b"]
        inside_mutex_def [of "Returned b None"]\<close>)
  then show ?thesis using step by (simp add: add_step_def at)
qed

lemma add_step_ok:
  assumes ok: "table_ok s" and step: "add_step t s = Some s'"
  shows "table_ok s'"
proof (cases "add_at s t")
  case (Adding b gc)
  then show ?thesis using step fetch_add_ok [OF ok Adding] by (simp add: add_step_def)
next
  case (Storing b gc i)
  then show ?thesis using step store_ok [OF ok Storing] by (simp add: add_step_def)
next
  case (Undoing b gc)
  then show ?thesis using step undo_ok [OF ok Undoing] by (simp add: add_step_def)
next
  case (Publishing b gc)
  then show ?thesis using step publish_ok [OF ok Publishing] by (simp add: add_step_def)
next
  case (Counting b gc)
  then show ?thesis using step count_ok [OF ok Counting] by (simp add: add_step_def)
qed (use step load_ok [OF ok] enter_group_ok [OF ok] lock_group_ok [OF ok] check_group_ok [OF ok] unlock_group_ok [OF ok]
    in \<open>auto simp: add_step_def\<close>)

lemma init_table_ok: "table_ok block_table_init"
  by (simp add: block_table_init_def table_ok_def counts_ok_def slots_ok_def threads_ok_def fresh_ok_def pc_ok_def
      inside_mutex_def pending_def)

lemma adding_ok: "adding s \<Longrightarrow> table_ok s"
  by (induction rule: adding.induct) (blast intro: init_table_ok call_ok add_step_ok)+

section \<open>The sequential operation\<close>

text \<open>The groups of the table as \<open>Object_Pool\<close> has them: the reserved blocks, a group after the other.\<close>

definition groups_of :: "block_table \<Rightarrow> nat list list" where
  "groups_of s = map (\<lambda>i. take CAP (drop (i * CAP) (reserved s))) [0..<group_count s]"

lemma groups_of_split:
  "0 < group_count s \<Longrightarrow> groups_of s = map (\<lambda>i. take CAP (drop (i * CAP) (reserved s))) [0..<group_count s - 1] @
     [take CAP (drop ((group_count s - 1) * CAP) (reserved s))]"
  by (cases "group_count s") (simp_all add: groups_of_def)

lemma reserve_sequential:
  assumes ok: "table_ok s" and pc: "add_at s t = Adding b gc" and room: "block_count s (gc - 1) < CAP"
  shows "add_block_loop b (st\<lparr>block_groups := groups_of s\<rparr>) =
    Some (Some (b, length (reserved s)), st\<lparr>block_groups := groups_of (fetch_add_step t b gc s)\<rparr>)"
proof -
  have d: "counts_ok s" "threads_ok s" using ok by (simp_all add: table_ok_def)
  have g: "1 \<le> gc" "gc \<le> group_count s" using threads_okD(2) [OF d(2), of t] by (simp_all add: pc pc_ok_def)
  let ?i = "group_count s - 1" and ?N = "length (reserved s)" and ?s = "fetch_add_step t b gc s"
  have c: "?N = ?i * CAP + block_count s (gc - 1)" "gc = group_count s" using count_cases(1) [OF d g room] by auto
  have f: "group_count ?s = group_count s" "reserved ?s = reserved s @ [b]"
    using room by (simp_all add: fetch_add_step_def Let_def)
  have full: "take CAP (drop (i * CAP) (reserved s @ [b])) = take CAP (drop (i * CAP) (reserved s))" if "i < ?i" for i
  proof -
    have "Suc i * CAP \<le> ?i * CAP" using that by (intro mult_le_mono1) simp
    then have "i * CAP + CAP \<le> ?N" using c(1) by simp
    then show ?thesis by simp
  qed
  let ?gs = "map (\<lambda>i. take CAP (drop (i * CAP) (reserved s))) [0..<?i]" and ?g = "drop (?i * CAP) (reserved s)"
  have len: "length ?g = block_count s (gc - 1)" using c(1) by simp
  have now: "groups_of s = ?gs @ [?g]"
    using groups_of_split [of s] g len room by simp
  have "groups_of ?s = map (\<lambda>i. take CAP (drop (i * CAP) (reserved s @ [b]))) [0..<?i] @ [take CAP (drop (?i * CAP) (reserved s @ [b]))]"
    using groups_of_split [of ?s] g unfolding f by simp
  also have "take CAP (drop (?i * CAP) (reserved s @ [b])) = ?g @ [b]" using len room c(1) by simp
  also have "map (\<lambda>i. take CAP (drop (i * CAP) (reserved s @ [b]))) [0..<?i] = ?gs" using full by simp
  finally have after: "groups_of ?s = ?gs @ [?g @ [b]]" .
  have "add_block_loop b (st\<lparr>block_groups := groups_of s\<rparr>) = Some (Some (b, ?i * CAP + length ?g),
      st\<lparr>block_groups := ?gs @ [?g @ [b]]\<rparr>)"
    using add_block_loop_room [of "st\<lparr>block_groups := groups_of s\<rparr>" b] len room unfolding now by simp
  then show ?thesis unfolding after len c(1) [symmetric] .
qed

lemma refuse_sequential:
  assumes ok: "table_ok s" and pc: "add_at s t = Unlocking b False"
  shows "add_block_loop b (st\<lparr>block_groups := groups_of s\<rparr>) = Some (None, st\<lparr>block_groups := groups_of s\<rparr>)"
proof -
  have d: "counts_ok s" "threads_ok s" using ok by (simp_all add: table_ok_def)
  have N: "length (reserved s) = GROUPS * CAP" using threads_okD(2) [OF d(2), of t] by (simp add: pc pc_ok_def)
  have "GROUPS * CAP \<le> group_count s * CAP" "group_count s \<le> GROUPS" using d(1) N by (simp_all add: counts_ok_def)
  then have gc: "group_count s = GROUPS" by simp
  have G: "0 < GROUPS" by (simp add: OP_MAX_BLOCK_GROUP_COUNT_def)
  have "GROUPS * CAP = (GROUPS - 1) * CAP + CAP" by (simp add: OP_MAX_BLOCK_GROUP_COUNT_def)
  then have "length (groups_of s ! (GROUPS - 1)) = CAP"
    using G N by (simp add: groups_of_def gc)
  then have "\<not> (length (groups_of s) \<ge> 1 \<and> length (groups_of s ! (length (groups_of s) - 1)) < CAP)"
    by (simp add: groups_of_def gc)
  then show ?thesis
    by (subst add_block_loop.simps, unfold Let_def) (simp add: add_block_group_def groups_of_def gc)
qed

section \<open>The property\<close>

lemma tries_bounded: "table_ok s \<Longrightarrow> add_at s t \<noteq> Out \<Longrightarrow> tries s t \<le> GROUPS + 1"
  using threads_okD(2) [of s t]
  by (cases "add_at s t") (auto simp: table_ok_def counts_ok_def pc_ok_def split: if_splits)

lemma some_step:
  assumes ok: "table_ok s" and busy: "\<not> outside_add (add_at s t)"
  shows "add_step t s \<noteq> None \<or> (\<exists>u. group_mutex s = Some u \<and> add_step u s \<noteq> None)"
proof (cases "add_step t s")
  case None
  have d: "threads_ok s" using ok by (simp add: table_ok_def)
  obtain b gc where "add_at s t = Locking b gc" "group_mutex s \<noteq> None"
    using None busy threads_okD(2) [OF d, of t]
    by (cases "add_at s t") (auto simp: add_step_def outside_add_def pc_ok_def Let_def split: if_splits)
  then obtain u where u: "group_mutex s = Some u" by blast
  then have "inside_mutex (add_at s u)" using threads_okD(3) [OF d] by blast
  then have "add_step u s \<noteq> None" by (cases "add_at s u") (auto simp: inside_mutex_def add_step_def)
  then show ?thesis using u by blast
qed simp

text \<open>
  C18. Adding blocks is atomic although it is not one atomic action. Under any interleaving of any number
  of threads in \<open>add_block\<close>, a successful \<open>fetch_add\<close> does at that moment what the sequential operation does,
  and gives the block the next free place; a call that fails does so when the sequential
  one fails, all groups being full. Places are given in order without gaps, each to one block, whose
  store puts it there for good; a returned index is the place of the returned block. No null group is used, the
  mutex is never waited for in vain, a call tries at most once per group and once more, and the counts of
  blocks that \<open>describe_objects\<close> reads are, cut at the capacity, those of the places given.
\<close>

theorem concurrent_add_block:
  assumes "adding s"
  shows "(\<forall>t b gc st. add_at s t = Adding b gc \<longrightarrow> block_count s (gc - 1) < CAP \<longrightarrow>
      add_block_loop b (st\<lparr>block_groups := groups_of s\<rparr>) =
        Some (Some (b, length (reserved s)), st\<lparr>block_groups := groups_of (fetch_add_step t b gc s)\<rparr>)) \<and>
    (\<forall>t b st. add_at s t = Unlocking b False \<longrightarrow>
      add_block_loop b (st\<lparr>block_groups := groups_of s\<rparr>) = Some (None, st\<lparr>block_groups := groups_of s\<rparr>)) \<and>
    distinct (reserved s) \<and>
    (\<forall>n < length (reserved s). blocks s (n div CAP) (n mod CAP) = Some (reserved s ! n) \<or>
      (\<exists>t. add_at s t = Storing (reserved s ! n) (Suc (n div CAP)) (n mod CAP))) \<and>
    (\<forall>i j b. blocks s i j = Some b \<longrightarrow> j < CAP \<and> i * CAP + j < length (reserved s) \<and> reserved s ! (i * CAP + j) = b) \<and>
    (\<forall>t b k. add_at s t = Returned b (Some k) \<longrightarrow> k < length (reserved s) \<and> reserved s ! k = b \<and>
      blocks s (k div CAP) (k mod CAP) = Some b) \<and>
    (\<forall>t. add_at s t \<noteq> Crashed \<and> (add_at s t \<noteq> Out \<longrightarrow> tries s t \<le> GROUPS + 1) \<and>
      (\<not> outside_add (add_at s t) \<longrightarrow> add_step t s \<noteq> None \<or> (\<exists>u. group_mutex s = Some u \<and> add_step u s \<noteq> None))) \<and>
    (\<forall>i < group_count s. min (block_count s i) CAP = length (groups_of s ! i))"
proof -
  have ok: "table_ok s" by (rule adding_ok [OF assms])
  then have d: "counts_ok s" "slots_ok s" "threads_ok s" "fresh_ok s" by (simp_all add: table_ok_def)
  have counts: "min (block_count s i) CAP = length (groups_of s ! i)" if i: "i < group_count s" for i
  proof (cases "undoing (add_at s) i = {}")
    case True
    then show ?thesis using d(1) i by (simp add: counts_ok_def groups_of_def)
  next
    case False
    then obtain t b where "add_at s t = Undoing b (Suc i)" by (auto simp: undoing_def)
    then have "Suc i * CAP \<le> length (reserved s)" using threads_okD(2) [OF d(3), of t] by (simp add: pc_ok_def)
    then have "CAP \<le> length (reserved s) - i * CAP" by simp
    then show ?thesis using d(1) i by (simp add: counts_ok_def groups_of_def)
  qed
  have ret: "k < length (reserved s) \<and> reserved s ! k = b \<and> blocks s (k div CAP) (k mod CAP) = Some b"
    if "add_at s t = Returned b (Some k)" for t b k using threads_okD(2) [OF d(3), of t] by (simp add: that pc_ok_def)
  have safe: "add_at s t \<noteq> Crashed" for t using threads_okD(2) [OF d(3), of t] by (auto simp: pc_ok_def)
  show ?thesis
    using reserve_sequential [OF ok] refuse_sequential [OF ok] d(2,4) counts ret safe tries_bounded [OF ok] some_step [OF ok]
    by (intro conjI) (simp_all add: slots_ok_def fresh_ok_def)
qed

text \<open>Two threads: both find no group, one makes it, and each gets its own place.\<close>

theorem concurrent_add_block_witness:
  "\<exists>s. adding s \<and> add_at s 0 = Returned 0 (Some 1) \<and> add_at s 1 = Returned 1 (Some 0) \<and>
    1 < length (reserved s) \<and> reserved s ! 1 = 0 \<and> blocks s 0 1 = Some 0"
proof -
  let ?run = "\<lambda>ts s. fold (\<lambda>t r. Option.bind r (add_step t)) ts (Some s)"
  let ?s0 = "call_add_block 1 (call_add_block 0 block_table_init)"
  have fold_None: "fold (\<lambda>t r. Option.bind r (add_step t)) ts None = None" for ts by (induction ts) simp_all
  have run: "adding s \<Longrightarrow> ?run ts s = Some s' \<Longrightarrow> adding s'" for ts s s'
  proof (induction ts arbitrary: s)
    case (Cons t ts)
    then show ?case by (cases "add_step t s") (auto simp: fold_None intro: adding.step)
  qed simp
  have "adding ?s0" by (intro adding.call adding.start) (simp_all add: block_table_init_def outside_add_def call_add_block_def)
  obtain s where s: "?run [0, 1, 0, 0, 0, 0, 0, 1, 1, 1, 0, 1, 1, 0, 1, 1, 0, 0] ?s0 = Some s"
    "add_at s 0 = Returned 0 (Some 1)" "add_at s 1 = Returned 1 (Some 0)"
    by (simp add: add_step_def call_add_block_def block_table_init_def go_def publish_step_def fetch_add_step_def store_step_def
        Let_def OP_GROUP_BLOCK_COUNT_def OP_MAX_BLOCK_GROUP_COUNT_def)
  then have "adding s" by (intro run [OF \<open>adding ?s0\<close>])
  from concurrent_add_block [OF this] s(2) have "1 < length (reserved s) \<and> reserved s ! 1 = 0 \<and> blocks s (1 div CAP) (1 mod CAP) = Some 0"
    by blast
  then show ?thesis using s(2,3) \<open>adding s\<close> by (intro exI [of _ s]) (simp add: OP_GROUP_BLOCK_COUNT_def)
qed

end
