(* ===== verification/Sampler.thy ===== *)
theory Sampler
  imports Bounded_Queue
begin

text \<open>
  \<^verbatim>\<open>ReducerSampler\<close> in \<^verbatim>\<open>src/common/sampler.h\<close>: the samples of a variable over the last seconds, in a
  bounded queue that grows with the largest window asked for, and the values over a window. The
  operation and its inverse are functions on values; no inverse operation (\<open>VoidOp\<close>) is \<open>None\<close>.
  \<open>malloc\<close> is an argument of each sampling: whether it succeeds. The mutex of the sampler makes
  each operation one step.
\<close>

section \<open>State\<close>

record 'v Sample =
  data :: 'v
  time_us :: int

record 'v ReducerSampler =
  window_size :: int
  samples_q :: "'v Sample BoundedQueue"

definition MAX_SECONDS_LIMIT :: int where
  "MAX_SECONDS_LIMIT = 3600"

section \<open>Taking samples\<close>

text \<open>The loop that moves the items to the larger queue.\<close>

partial_function (option) move_all :: "'a BoundedQueue \<Rightarrow> 'a BoundedQueue \<Rightarrow> ('a BoundedQueue \<times> 'a BoundedQueue) option" where
  "move_all q new_q = do {
     (q, item) \<leftarrow> pop_item q;
     case item of
       None \<Rightarrow> Some (q, new_q)
     | Some tmp \<Rightarrow> do { (new_q, _) \<leftarrow> push tmp new_q; move_all q new_q } }"

text \<open>The queue is made ready; the flag is false when \<open>malloc\<close> failed and nothing more is done.\<close>

definition make_ready :: "nat \<Rightarrow> bool \<Rightarrow> 'v ReducerSampler \<Rightarrow> ('v ReducerSampler \<times> bool) option" where
  "make_ready sizeof_Sample malloc_ok s =
     (if of_int (window_size s) + 1 > capacity (samples_q s) then
        let new_cap = max (capacity (samples_q s) * 2) (of_int (window_size s) + 1);
            memsize = of_nat sizeof_Sample * new_cap
        in if \<not> malloc_ok then Some (s, False)
           else do {
             (q, new_q) \<leftarrow> move_all (samples_q s)
               (BoundedQueue_mem sizeof_Sample (Some (replicate (unat memsize div sizeof_Sample) None))
                  (unat memsize) OWNS_STORAGE);
             let (new_q, q) = swap_q new_q q;
             _ \<leftarrow> BoundedQueue_destruct new_q;
             Some (s\<lparr>samples_q := q\<rparr>, True) }
      else Some (s, True))"

text \<open>\<open>read\<close> is \<open>reset\<close> or \<open>get_value\<close> of the reducer, whose state is \<open>g\<close>; \<open>now\<close> is the clock.\<close>

definition take_sample ::
  "nat \<Rightarrow> bool \<Rightarrow> ('g \<Rightarrow> ('v \<times> 'g) option) \<Rightarrow> int \<Rightarrow> 'v ReducerSampler \<times> 'g \<Rightarrow> ('v ReducerSampler \<times> 'g) option" where
  "take_sample sizeof_Sample malloc_ok read now sg = (case sg of (s, g) \<Rightarrow> do {
     (s, ready) \<leftarrow> make_ready sizeof_Sample malloc_ok s;
     if \<not> ready then Some (s, g)
     else do {
       (v, g) \<leftarrow> read g;
       q \<leftarrow> elim_push \<lparr>data = v, time_us = now\<rparr> (samples_q s);
       Some (s\<lparr>samples_q := q\<rparr>, g) } })"

definition ReducerSampler_new ::
  "nat \<Rightarrow> bool \<Rightarrow> ('g \<Rightarrow> ('v \<times> 'g) option) \<Rightarrow> int \<Rightarrow> 'g \<Rightarrow> ('v ReducerSampler \<times> 'g) option" where
  "ReducerSampler_new sizeof_Sample malloc_ok read now g =
     take_sample sizeof_Sample malloc_ok read now (\<lparr>window_size = 1, samples_q = BoundedQueue_default\<rparr>, g)"

section \<open>Reading values\<close>

text \<open>
  The loops over the samples of a window, from the second newest to the one after the oldest;
  \<open>oldest\<close> is an address. A null pointer is dereferenced if the oldest sample is never met.
\<close>

partial_function (option) window_loop ::
  "('r \<Rightarrow> 'v \<Rightarrow> 'r) \<Rightarrow> nat \<Rightarrow> 'v Sample BoundedQueue \<Rightarrow> int \<Rightarrow> 'r \<Rightarrow> 'r option" where
  "window_loop f oldest q i acc = do {
     e \<leftarrow> bottom_at (of_int i) q;
     if e = Some oldest then Some acc
     else do {
       a \<leftarrow> e;
       x \<leftarrow> read_slot a q;
       if i = 2 ^ 31 - 1 then None else window_loop f oldest q (i + 1) (f acc (data x)) } }"

definition oldest_in :: "int \<Rightarrow> 'v Sample BoundedQueue \<Rightarrow> nat option" where
  "oldest_in w q = do {
     e \<leftarrow> bottom_at (of_int w) q;
     case e of Some a \<Rightarrow> Some a | None \<Rightarrow> top_q q }"

text \<open>\<open>get_value\<close>: the outer \<open>None\<close> is undefined behaviour, the inner one is the result false.\<close>

definition sampler_get_value ::
  "('v \<Rightarrow> 'v \<Rightarrow> 'v) \<Rightarrow> ('v \<Rightarrow> 'v \<Rightarrow> 'v) option \<Rightarrow> int \<Rightarrow> 'v ReducerSampler \<Rightarrow> 'v Sample option option" where
  "sampler_get_value opr inv_op w s =
     (if w \<le> 0 then Some None
      else if size_of_queue (samples_q s) \<le> 1 then Some None
      else do {
        oldest \<leftarrow> oldest_in w (samples_q s);
        e \<leftarrow> bottom (samples_q s);
        latest \<leftarrow> e;
        l \<leftarrow> read_slot latest (samples_q s);
        d \<leftarrow> (case inv_op of
            None \<Rightarrow> window_loop opr oldest (samples_q s) 1 (data l)
          | Some diff \<Rightarrow> do { x \<leftarrow> read_slot oldest (samples_q s); Some (diff (data l) (data x)) });
        x \<leftarrow> read_slot oldest (samples_q s);
        t \<leftarrow> chk_long (time_us l - time_us x);
        Some (Some \<lparr>data = d, time_us = t\<rparr>) })"

definition get_samples :: "int \<Rightarrow> 'v ReducerSampler \<Rightarrow> 'v list \<Rightarrow> 'v list option" where
  "get_samples w s samples =
     (if w \<le> 0 then Some samples
      else if size_of_queue (samples_q s) \<le> 1 then Some samples
      else do {
        oldest \<leftarrow> oldest_in w (samples_q s);
        window_loop (\<lambda>vs v. vs @ [v]) oldest (samples_q s) 1 samples })"

definition set_window_size :: "int \<Rightarrow> 'v ReducerSampler \<Rightarrow> 'v ReducerSampler \<times> int" where
  "set_window_size w s =
     (if w \<le> 0 \<or> w > MAX_SECONDS_LIMIT then (s, -1)
      else (if w > window_size s then s\<lparr>window_size := w\<rparr> else s, 0))"

section \<open>The queue of a sampler\<close>

text \<open>
  A sampler holds the samples \<open>xs\<close>. Its queue never needs more than twice the largest window,
  7200 items, so none of the sizes wraps.
\<close>

definition holds :: "'v ReducerSampler \<Rightarrow> 'v Sample list \<Rightarrow> bool" where
  "holds s xs \<longleftrightarrow> bq_rep (samples_q s) xs \<and> 1 \<le> window_size s \<and> window_size s \<le> MAX_SECONDS_LIMIT \<and>
     unat (bq_cap (samples_q s)) \<le> 7200"

definition cap_of :: "'v ReducerSampler \<Rightarrow> nat" where
  "cap_of s = unat (bq_cap (samples_q s))"

definition grown :: "'v ReducerSampler \<Rightarrow> nat" where
  "grown s = (let w = nat (window_size s) in if w + 1 > cap_of s then max (2 * cap_of s) (w + 1) else cap_of s)"

lemma move_all_rep:
  "bq_rep q xs \<Longrightarrow> bq_rep new_q ys \<Longrightarrow> length ys + length xs \<le> unat (bq_cap new_q) \<Longrightarrow>
   \<exists>q' new_q'. move_all q new_q = Some (q', new_q') \<and> bq_rep q' [] \<and> bq_rep new_q' (ys @ xs) \<and>
     bq_cap new_q' = bq_cap new_q"
proof (induction xs arbitrary: q new_q ys)
  case Nil
  then show ?case by (subst move_all.simps) (simp add: bq.take_none)
next
  case (Cons x xs)
  obtain q1 where q1: "pop_item q = Some (q1, Some x)" "bq_rep q1 xs" using bq.take_top [OF Cons.prems(1)] by blast
  obtain n1 where n1: "push x new_q = Some (n1, True)" "bq_rep n1 (ys @ [x])" "unat (bq_cap n1) = unat (bq_cap new_q)"
    using bq.put_bottom [OF Cons.prems(2), of x] Cons.prems(3) by auto
  have "length (ys @ [x]) + length xs \<le> unat (bq_cap n1)" using Cons.prems(3) n1(3) by simp
  from Cons.IH [OF q1(2) n1(2) this] n1(3) show ?case
    by (subst move_all.simps) (auto simp: q1(1) n1(1) word_unat_eq_iff)
qed

lemma capacity_unat: "unat (capacity q) = unat (bq_cap q)"
  by (simp add: capacity_def)

lemma window_unat:
  assumes "1 \<le> w" and "w \<le> MAX_SECONDS_LIMIT"
  shows "unat (of_int w + 1 :: u64) = nat w + 1"
proof -
  have e: "of_int w + 1 = (of_nat (nat w + 1) :: u64)" using assms(1) by simp
  show ?thesis unfolding e
    by (rule unat_less_of_nat_bound) (use assms(2) in \<open>simp add: MAX_SECONDS_LIMIT_def\<close>)
qed

lemma room_unat:
  assumes "holds s xs" and "0 < isz" and "isz * 7200 < 2 ^ 64" and "nat (window_size s) + 1 > cap_of s"
  shows "unat (of_nat isz * max (capacity (samples_q s) * 2) (of_int (window_size s) + 1) :: u64) = isz * grown s"
    and "grown s \<le> 7200"
proof -
  have w: "1 \<le> window_size s" "window_size s \<le> MAX_SECONDS_LIMIT" using assms(1) by (simp_all add: holds_def)
  have small: "cap_of s \<le> 3600" using assms(4) w(2) by (simp add: MAX_SECONDS_LIMIT_def)
  have "nat (window_size s) \<le> 3600" using w(2) by (simp add: MAX_SECONDS_LIMIT_def)
  with small show b: "grown s \<le> 7200" by (simp add: grown_def Let_def)
  have "unat (capacity (samples_q s) * 2) = 2 * cap_of s"
    using small by (subst unat_mult_lem [THEN iffD1]) (simp_all add: capacity_unat cap_of_def)
  then have m: "unat (max (capacity (samples_q s) * 2) (of_int (window_size s) + 1)) = grown s"
    using window_unat [OF w] assms(4) by (simp add: grown_def Let_def max_def word_le_nat_alt)
  have "isz * grown s \<le> isz * 7200" using b by simp
  then have lt: "isz * grown s < 2 ^ 64" using assms(3) by linarith
  have "isz * 1 \<le> isz * 7200" by (rule mult_left_mono) simp_all
  then have "unat (of_nat isz :: u64) = isz" using assms(3) by (intro unat_less_of_nat_bound) simp
  then show "unat (of_nat isz * max (capacity (samples_q s) * 2) (of_int (window_size s) + 1) :: u64) = isz * grown s"
    using lt m by (subst unat_mult_lem [THEN iffD1]) simp_all
qed

lemma make_ready_holds:
  fixes s :: "'v ReducerSampler"
  assumes h: "holds s xs" and isz: "0 < isz" "isz * 7200 < 2 ^ 64"
  shows "nat (window_size s) + 1 \<le> cap_of s \<Longrightarrow> make_ready isz ok s = Some (s, True)"
    and "nat (window_size s) + 1 > cap_of s \<Longrightarrow> make_ready isz False s = Some (s, False)"
    and "\<exists>s'. make_ready isz True s = Some (s', True) \<and> holds s' xs \<and> window_size s' = window_size s \<and> cap_of s' = grown s"
proof -
  have w: "1 \<le> window_size s" "window_size s \<le> MAX_SECONDS_LIMIT" and rep: "bq_rep (samples_q s) xs"
    using h by (simp_all add: holds_def)
  have test: "of_int (window_size s) + 1 > capacity (samples_q s) \<longleftrightarrow> nat (window_size s) + 1 > cap_of s"
    using window_unat [OF w] by (simp add: word_less_nat_alt capacity_unat cap_of_def)
  show fits: "make_ready isz ok s = Some (s, True)" if "nat (window_size s) + 1 \<le> cap_of s" for ok
    using that test by (simp add: make_ready_def)
  show "make_ready isz False s = Some (s, False)" if "nat (window_size s) + 1 > cap_of s"
    using that test by (simp add: make_ready_def)
  show "\<exists>s'. make_ready isz True s = Some (s', True) \<and> holds s' xs \<and> window_size s' = window_size s \<and> cap_of s' = grown s"
  proof (cases "nat (window_size s) + 1 > cap_of s")
    case True
    note room = room_unat [OF h isz True]
    let ?new = "BoundedQueue_mem isz (Some (replicate (grown s) None)) (isz * grown s) OWNS_STORAGE :: 'v Sample BoundedQueue"
    have div: "isz * grown s div isz = grown s" using isz by simp
    have "grown s \<le> 2 ^ 31" using room(2) by simp
    have new: "bq_rep ?new []" "unat (bq_cap ?new) = grown s"
      by (rule BoundedQueue_mem_rep [OF div \<open>grown s \<le> 2 ^ 31\<close>])+
    have "cap_of s \<le> grown s" using True by (simp add: grown_def Let_def)
    then have "length ([] :: 'v Sample list) + length xs \<le> unat (bq_cap ?new)"
      using bq_rep_length [OF rep] new(2) by (simp add: cap_of_def)
    from move_all_rep [OF rep new(1) this] new(2) obtain q' n' where
      m: "move_all (samples_q s) ?new = Some (q', n')" "bq_rep q' []" "bq_rep n' xs" "unat (bq_cap n') = grown s"
      by auto
    obtain c where "BoundedQueue_destruct q' = Some c"
      using clear_rep [OF m(2)] by (auto simp: BoundedQueue_destruct_def)
    then have "make_ready isz True s = Some (s\<lparr>samples_q := n'\<rparr>, True)"
      using True test m(1) by (simp add: make_ready_def Let_def room(1) div swap_q_def)
    then show ?thesis using m(3,4) w room(2) by (simp add: holds_def cap_of_def)
  next
    case False
    then show ?thesis using fits [of True] h by (simp add: grown_def Let_def)
  qed
qed

lemma grown_le: "holds s xs \<Longrightarrow> grown s \<le> 7200 \<and> 0 < grown s"
  by (auto simp: grown_def Let_def holds_def cap_of_def MAX_SECONDS_LIMIT_def max_def)

lemma take_sample_holds:
  assumes h: "holds s xs" and isz: "0 < isz" "isz * 7200 < 2 ^ 64" and r: "read g = Some (v, g')"
  shows "\<exists>s'. take_sample isz True read now (s, g) = Some (s', g') \<and> window_size s' = window_size s \<and>
    cap_of s' = grown s \<and> holds s' (lastn (grown s) (xs @ [\<lparr>data = v, time_us = now\<rparr>]))"
proof -
  obtain s1 where s1: "make_ready isz True s = Some (s1, True)" "holds s1 xs" "window_size s1 = window_size s"
    "cap_of s1 = grown s" using make_ready_holds(3) [OF h isz] by blast
  have "0 < unat (bq_cap (samples_q s1))" using grown_le [OF h] s1(4) by (simp add: cap_of_def)
  from bq.add_lastn [OF _ this, of xs "\<lparr>data = v, time_us = now\<rparr>"] s1(2) obtain q where
    q: "elim_push \<lparr>data = v, time_us = now\<rparr> (samples_q s1) = Some q" "unat (bq_cap q) = grown s"
    "bq_rep q (lastn (grown s) (xs @ [\<lparr>data = v, time_us = now\<rparr>]))"
    using s1(4) by (auto simp: holds_def cap_of_def)
  then show ?thesis using s1 r h grown_le [OF h]
    by (simp add: take_sample_def holds_def cap_of_def)
qed

text \<open>A sampling that finds no memory for a larger queue changes nothing.\<close>

lemma take_sample_fails:
  "holds s xs \<Longrightarrow> 0 < isz \<Longrightarrow> isz * 7200 < 2 ^ 64 \<Longrightarrow> nat (window_size s) + 1 > cap_of s \<Longrightarrow>
   take_sample isz False read now (s, g) = Some (s, g)"
  using make_ready_holds(2) [of s xs isz] by (simp add: take_sample_def)

lemma set_window_size_holds:
  "holds s xs \<Longrightarrow> holds (fst (set_window_size w s)) xs \<and>
   window_size (fst (set_window_size w s)) = (if 0 < w \<and> w \<le> MAX_SECONDS_LIMIT then max w (window_size s) else window_size s)"
  by (auto simp: set_window_size_def holds_def)

section \<open>Values over a window\<close>

text \<open>
  What a window of \<open>w\<close> seconds covers when the samples \<open>xs\<close> are there, oldest first: the \<open>k\<close> newest
  samples, or the difference between the newest and the one \<open>k\<close> places before it.
\<close>

definition covered :: "int \<Rightarrow> 'a list \<Rightarrow> nat" where
  "covered w xs = min (nat w) (length xs - 1)"

definition window_value :: "('v \<Rightarrow> 'v \<Rightarrow> 'v) \<Rightarrow> ('v \<Rightarrow> 'v \<Rightarrow> 'v) option \<Rightarrow> int \<Rightarrow> 'v Sample list \<Rightarrow> 'v Sample option" where
  "window_value opr inv_op w xs =
     (if w \<le> 0 \<or> length xs \<le> 1 then None
      else let ys = rev xs; k = covered w xs
           in Some \<lparr>data = (case inv_op of
                 None \<Rightarrow> foldl opr (data (hd ys)) (map data (take (k - 1) (tl ys)))
               | Some diff \<Rightarrow> diff (data (hd ys)) (data (ys ! k))),
               time_us = time_us (hd ys) - time_us (ys ! k)\<rparr>)"

text \<open>The values of a window without the newest sample.\<close>

definition window_samples :: "int \<Rightarrow> 'v Sample list \<Rightarrow> 'v list" where
  "window_samples w xs =
     (if w \<le> 0 \<or> length xs \<le> 1 then [] else map data (take (covered w xs - 1) (tl (rev xs))))"

lemma slot_at_inj:
  assumes "i < unat (bq_cap q)" and "j < unat (bq_cap q)"
  shows "slot_at q i = slot_at q j \<longleftrightarrow> i = j"
  using add_mod_inj [OF assms, of "unat (bq_start q)"] by (auto simp: slot_at_def)

lemma unat_of_int_u64: "0 \<le> i \<Longrightarrow> i < 2 ^ 64 \<Longrightarrow> unat (of_int i :: u64) = nat i"
  using unat_less_of_nat_bound [where 'a = 64, of "nat i"] by simp

lemma window_loop_rep:
  assumes rep: "bq_rep q xs" and k: "k < length xs" and small: "length xs < 2 ^ 31"
  shows "1 \<le> i \<Longrightarrow> nat i \<le> k \<Longrightarrow>
    window_loop f (slot_at q (length xs - Suc k)) q i acc = Some (foldl f acc (map data (take (k - nat i) (drop (nat i) (rev xs)))))"
proof (induction "k - nat i" arbitrary: i acc)
  case 0
  then have "nat i = k" by simp
  then have "bottom_at (of_int i) q = Some (Some (slot_at q (length xs - Suc k)))"
    using 0 k small by (simp add: bottom_at_rep [OF rep] unat_of_int_u64)
  then show ?case using \<open>nat i = k\<close> by (subst window_loop.simps) simp
next
  case (Suc d)
  then have ik: "nat i < k" by simp
  have "bottom_at (of_int i) q = Some (Some (slot_at q (length xs - Suc (nat i))))"
    using Suc.prems(1) ik k small by (simp add: bottom_at_rep [OF rep] unat_of_int_u64)
  moreover have "slot_at q (length xs - Suc (nat i)) \<noteq> slot_at q (length xs - Suc k)"
    using ik k bq_rep_length [OF rep] by (subst slot_at_inj) auto
  moreover have "read_slot (slot_at q (length xs - Suc (nat i))) q = Some (rev xs ! nat i)"
    using ik k by (simp add: read_slot_rep [OF rep] rev_nth)
  moreover have "i \<noteq> 2 ^ 31 - 1" using ik k small by auto
  ultimately have step: "window_loop f (slot_at q (length xs - Suc k)) q i acc =
      window_loop f (slot_at q (length xs - Suc k)) q (i + 1) (f acc (data (rev xs ! nat i)))"
    by (subst window_loop.simps) simp
  have "take (k - nat i) (drop (nat i) (rev xs)) = rev xs ! nat i # take (k - nat (i + 1)) (drop (nat (i + 1)) (rev xs))"
    using ik k Suc.prems(1) by (simp add: Cons_nth_drop_Suc [symmetric] nat_add_distrib take_Suc_Cons Suc_diff_Suc [symmetric] del: drop_rev)
  then show ?case using Suc.hyps(1) [of "i + 1" "f acc (data (rev xs ! nat i))"] Suc.hyps(2) Suc.prems(1) ik
    by (simp add: step nat_add_distrib)
qed

lemma oldest_in_rep:
  assumes rep: "bq_rep q xs" and "xs \<noteq> []" and w: "0 < w" "long_range w"
  shows "oldest_in w q = Some (slot_at q (length xs - Suc (covered w xs)))"
proof -
  have "unat (of_int w :: u64) = nat w" using w by (intro unat_of_int_u64) (auto simp: long_range_def)
  then show ?thesis using assms(2)
    by (simp add: oldest_in_def bottom_at_rep [OF rep] top_q_rep [OF rep] covered_def min_def)
qed

lemma sampler_value_rep:
  assumes h: "holds s xs" and w: "long_range w" and t: "\<forall>x \<in> set xs. 0 \<le> time_us x \<and> long_range (time_us x)"
  shows "sampler_get_value opr inv_op w s = Some (window_value opr inv_op w xs)"
    and "get_samples w s vs = Some (vs @ window_samples w xs)"
proof -
  have rep: "bq_rep (samples_q s) xs" and len: "length xs \<le> 7200"
    using h bq_rep_length [of "samples_q s" xs] by (auto simp: holds_def)
  let ?k = "covered w xs"
  have sz: "size_of_queue (samples_q s) \<le> 1 \<longleftrightarrow> length xs \<le> 1"
    using rep by (simp add: size_of_queue_def bq_rep_def word_le_nat_alt)
  show "sampler_get_value opr inv_op w s = Some (window_value opr inv_op w xs)"
  proof (cases "w \<le> 0 \<or> length xs \<le> 1")
    case True
    then show ?thesis using sz by (auto simp: sampler_get_value_def window_value_def)
  next
    case False
    then have w0: "0 < w" and l: "1 < length xs" by auto
    have k: "?k < length xs" "1 \<le> ?k" using w0 l by (auto simp: covered_def)
    have o: "oldest_in w (samples_q s) = Some (slot_at (samples_q s) (length xs - Suc ?k))"
      using oldest_in_rep [OF rep _ w0 w] l by fastforce
    have b: "bottom (samples_q s) = Some (Some (slot_at (samples_q s) (length xs - 1)))"
      using bottom_rep [OF rep] l by auto
    have ne: "xs \<noteq> []" using l by auto
    have hd: "read_slot (slot_at (samples_q s) (length xs - Suc 0)) (samples_q s) = Some (hd (rev xs))"
      using read_slot_rep [OF rep, of "length xs - Suc 0"] l ne by (simp add: hd_rev last_conv_nth)
    have old: "read_slot (slot_at (samples_q s) (length xs - Suc ?k)) (samples_q s) = Some (rev xs ! ?k)"
      using read_slot_rep [OF rep, of "length xs - Suc ?k"] k by (simp add: rev_nth)
    have loop: "window_loop opr (slot_at (samples_q s) (length xs - Suc ?k)) (samples_q s) 1 acc =
        Some (foldl opr acc (map data (take (?k - 1) (tl (rev xs)))))" for acc
      using window_loop_rep [OF rep k(1), of 1 opr acc] len k(2) by (simp add: drop_Suc)
    have "hd (rev xs) \<in> set xs" "rev xs ! ?k \<in> set xs" using l k(1) ne by (simp_all add: hd_rev rev_nth)
    then have "0 \<le> time_us (hd (rev xs)) \<and> long_range (time_us (hd (rev xs)))"
      "0 \<le> time_us (rev xs ! ?k) \<and> long_range (time_us (rev xs ! ?k))" using t by blast+
    then have "long_range (time_us (hd (rev xs)) - time_us (rev xs ! ?k))" unfolding long_range_def by linarith
    then show ?thesis using False sz
      by (cases inv_op) (simp_all add: sampler_get_value_def window_value_def o b hd old loop Let_def)
  qed
  show "get_samples w s vs = Some (vs @ window_samples w xs)"
  proof (cases "w \<le> 0 \<or> length xs \<le> 1")
    case True
    then show ?thesis using sz by (auto simp: get_samples_def window_samples_def)
  next
    case False
    then have w0: "0 < w" and l: "1 < length xs" by auto
    have k: "?k < length xs" "1 \<le> ?k" using w0 l by (auto simp: covered_def)
    have o: "oldest_in w (samples_q s) = Some (slot_at (samples_q s) (length xs - Suc ?k))"
      using oldest_in_rep [OF rep _ w0 w] l by fastforce
    have "foldl (\<lambda>vs v. vs @ [v]) acc zs = acc @ zs" for acc zs :: "'a list"
      by (induction zs arbitrary: acc) simp_all
    then show ?thesis
      using False sz window_loop_rep [OF rep k(1), of 1 "\<lambda>vs v. vs @ [v]" vs] len k(2)
      by (simp add: get_samples_def window_samples_def o drop_Suc)
  qed
qed

section \<open>Any use of a sampler\<close>

datatype 'v sampler_use = Take 'v int | Widen int

fun sampler_step :: "nat \<Rightarrow> 'v sampler_use \<Rightarrow> 'v ReducerSampler \<Rightarrow> 'v ReducerSampler option" where
  "sampler_step isz (Take v now) s = map_option fst (take_sample isz True (\<lambda>g. Some (v, g)) now (s, ()))"
| "sampler_step isz (Widen w) s = Some (fst (set_window_size w s))"

text \<open>The samples taken, and how many of them since the last call of \<open>set_window_size\<close>.\<close>

definition history :: "'v sampler_use list \<Rightarrow> 'v Sample list" where
  "history us = concat (map (\<lambda>u. case u of Take v now \<Rightarrow> [\<lparr>data = v, time_us = now\<rparr>] | Widen _ \<Rightarrow> []) us)"

definition since_widened :: "nat \<Rightarrow> 'v sampler_use list \<Rightarrow> nat" where
  "since_widened n us = foldl (\<lambda>n u. case u of Take _ _ \<Rightarrow> n + 1 | Widen _ \<Rightarrow> 0) n us"

definition widest :: "int \<Rightarrow> 'v sampler_use list \<Rightarrow> int" where
  "widest w us = foldl (\<lambda>w u. case u of Take _ _ \<Rightarrow> w | Widen v \<Rightarrow> if 0 < v \<and> v \<le> MAX_SECONDS_LIMIT then max v w else w) w us"

lemma use_simps [simp]:
  "history [] = []" "history (Take v t # us) = \<lparr>data = v, time_us = t\<rparr> # history us" "history (Widen w # us) = history us"
  "since_widened n [] = n" "since_widened n (Take v t # us) = since_widened (n + 1) us"
  "since_widened n (Widen w # us) = since_widened 0 us"
  "widest k [] = k" "widest k (Take v t # us) = widest k us"
  "widest k (Widen w # us) = widest (if 0 < w \<and> w \<le> MAX_SECONDS_LIMIT then max w k else k) us"
  by (simp_all add: history_def since_widened_def widest_def)

lemma suffix_lastn: "\<exists>m. lastn n xs = drop m xs"
  by (auto simp: lastn_def)

lemma sampler_runs:
  assumes isz: "0 < isz" "isz * 7200 < 2 ^ 64"
  shows "holds s xs \<Longrightarrow> xs = drop m hist \<Longrightarrow> min n (nat (window_size s) + 1) \<le> length xs \<Longrightarrow>
    \<exists>s' m'. foldM (sampler_step isz) us s = Some s' \<and> holds s' (drop m' (hist @ history us)) \<and>
      window_size s' = widest (window_size s) us \<and>
      min (since_widened n us) (nat (window_size s') + 1) \<le> length (drop m' (hist @ history us))"
proof (induction us arbitrary: s xs hist m n)
  case Nil
  then show ?case by (intro exI [of _ s] exI [of _ m]) simp
next
  case (Cons u us)
  show ?case
  proof (cases u)
    case (Take v now)
    let ?x = "\<lparr>data = v, time_us = now\<rparr>"
    obtain s1 where s1: "take_sample isz True (\<lambda>g. Some (v, g)) now (s, ()) = Some (s1, ())"
      "window_size s1 = window_size s" "holds s1 (lastn (grown s) (xs @ [?x]))"
      using take_sample_holds [where read = "\<lambda>g. Some (v, g)" and g = "()", OF Cons.prems(1) isz refl, of now] by blast
    have "nat (window_size s) + 1 \<le> grown s" by (simp add: grown_def Let_def)
    then have len: "min (n + 1) (nat (window_size s1) + 1) \<le> length (lastn (grown s) (xs @ [?x]))"
      using Cons.prems(3) s1(2) by auto
    have "xs @ [?x] = drop (min m (length hist)) (hist @ [?x])" using Cons.prems(2) by (simp add: min_def)
    then obtain m1 where m1: "lastn (grown s) (xs @ [?x]) = drop m1 (hist @ [?x])"
      using suffix_lastn [of "grown s" "xs @ [?x]"] by (auto simp: drop_drop)
    have "foldM (sampler_step isz) (u # us) s = foldM (sampler_step isz) us s1" using s1(1) by (simp add: Take)
    then show ?thesis using Cons.IH [OF s1(3) m1 len] s1(2) by (simp add: Take)
  next
    case (Widen w)
    let ?s = "fst (set_window_size w s)"
    note s1 = set_window_size_holds [OF Cons.prems(1), of w]
    have "min 0 (nat (window_size ?s) + 1) \<le> length xs" by simp
    from Cons.IH [OF conjunct1 [OF s1] Cons.prems(2) this] s1 show ?thesis by (simp add: Widen)
  qed
qed

text \<open>A window sees only the newest samples.\<close>

lemma window_drop:
  assumes "nat w + 1 \<le> length (drop m hist)" and "0 < w"
  shows "window_value opr inv_op w (drop m hist) = window_value opr inv_op w hist"
    and "window_samples w (drop m hist) = window_samples w hist"
proof -
  have rev: "rev (drop m hist) = take (length hist - m) (rev hist)" by (simp add: rev_drop)
  have c: "covered w (drop m hist) = nat w" "covered w hist = nat w" using assms by (auto simp: covered_def)
  have w1: "nat w < length hist - m" using assms(1) by simp
  have "hd (rev (drop m hist)) = hd (rev hist)" "rev (drop m hist) ! nat w = rev hist ! nat w"
    "take (nat w - Suc 0) (tl (rev (drop m hist))) = take (nat w - Suc 0) (tl (rev hist))"
    using w1 unfolding rev by (auto simp: hd_take tl_take min_def)
  then show "window_value opr inv_op w (drop m hist) = window_value opr inv_op w hist"
    "window_samples w (drop m hist) = window_samples w hist"
    using assms w1 unfolding window_value_def window_samples_def c
    by (auto simp: Let_def split: option.split)
qed

lemma new_sampler_holds:
  assumes "0 < isz" "isz * 7200 < 2 ^ 64" and "read g = Some (v, g')"
  shows "\<exists>s. ReducerSampler_new isz True read now g = Some (s, g') \<and> window_size s = 1 \<and>
    holds s [\<lparr>data = v, time_us = now\<rparr>]"
proof -
  let ?s = "\<lparr>window_size = 1, samples_q = BoundedQueue_default\<rparr> :: 'a ReducerSampler"
  have h: "holds ?s []" by (simp add: holds_def default_rep MAX_SECONDS_LIMIT_def) (simp add: BoundedQueue_default_def)
  have "grown ?s = 2" by (simp add: grown_def cap_of_def BoundedQueue_default_def)
  then show ?thesis using take_sample_holds [where read = read and g = g, OF h assms(1,2,3), of now] by (auto simp: ReducerSampler_new_def)
qed

lemma sampler_values:
  assumes "0 < isz" and "isz * 7200 < 2 ^ 64" and "long_range w"
    and "\<forall>x \<in> set (history (Take v now # us)). 0 \<le> time_us x \<and> long_range (time_us x)"
  shows "\<exists>s0 s m. ReducerSampler_new isz True (\<lambda>g. Some (v, g)) now () = Some (s0, ()) \<and>
    foldM (sampler_step isz) us s0 = Some s \<and> window_size s = widest 1 us \<and>
    sampler_get_value opr inv_op w s = Some (window_value opr inv_op w (drop m (history (Take v now # us)))) \<and>
    get_samples w s vs = Some (vs @ window_samples w (drop m (history (Take v now # us)))) \<and>
    (0 < w \<and> w \<le> widest 1 us \<and> nat w < since_widened 1 us \<longrightarrow>
      sampler_get_value opr inv_op w s = Some (window_value opr inv_op w (history (Take v now # us))) \<and>
      get_samples w s vs = Some (vs @ window_samples w (history (Take v now # us))))"
proof -
  let ?hist = "history (Take v now # us)"
  obtain s0 where s0: "ReducerSampler_new isz True (\<lambda>g. Some (v, g)) now () = Some (s0, ())" "window_size s0 = 1"
    "holds s0 [\<lparr>data = v, time_us = now\<rparr>]" using new_sampler_holds [where read = "\<lambda>g. Some (v, g)" and g = "()", OF assms(1,2) refl] by blast
  have "[\<lparr>data = v, time_us = now\<rparr>] = drop 0 [\<lparr>data = v, time_us = now\<rparr>]"
    "min 1 (nat (window_size s0) + 1) \<le> length [\<lparr>data = v, time_us = now\<rparr>]" by simp_all
  from sampler_runs [OF assms(1,2) s0(3) this, of us] obtain s m where
    s: "foldM (sampler_step isz) us s0 = Some s" "holds s (drop m ?hist)" "window_size s = widest 1 us"
      "min (since_widened 1 us) (nat (window_size s) + 1) \<le> length (drop m ?hist)"
    unfolding s0(2) by auto
  have "\<forall>x \<in> set (drop m ?hist). 0 \<le> time_us x \<and> long_range (time_us x)"
    using assms(4) in_set_dropD by fast
  note val = sampler_value_rep [OF s(2) assms(3) this]
  have "window_value opr inv_op w (drop m ?hist) = window_value opr inv_op w ?hist \<and>
      window_samples w (drop m ?hist) = window_samples w ?hist"
    if "0 < w \<and> w \<le> widest 1 us \<and> nat w < since_widened 1 us"
    using window_drop [of w m ?hist] s(3,4) that by (auto simp: nat_le_iff)
  then show ?thesis using s0(1) s(1,3) val by metis
qed

section \<open>Properties\<close>

text \<open>
  C13. A sampler keeps what its windows need. For any sequence of samplings and widenings (with
  memory available), every operation returns. The window is the widest one validly asked for, and
  the value over \<open>w\<close> seconds is computed from samples that end with the newest: without inverse
  operation it combines the \<open>k\<close> newest ones, with it it is the difference between the newest one and
  the one \<open>k\<close> places before, where \<open>k\<close> is \<open>w\<close> or all but one of the samples kept. If the sampler has
  been running for \<open>w\<close> periods since \<open>set_window_size\<close> was last called, the result is the same as
  over the whole history. \<open>get_samples\<close> returns the samples of the window without the newest one.
\<close>

theorem sampler_values_of_window:
  assumes "0 < isz" and "isz * 7200 < 2 ^ 64" and "long_range w"
    and "\<forall>x \<in> set (history (Take v now # us)). 0 \<le> time_us x \<and> long_range (time_us x)"
  shows "\<exists>s0 s m. ReducerSampler_new isz True (\<lambda>g. Some (v, g)) now () = Some (s0, ()) \<and>
    foldM (sampler_step isz) us s0 = Some s \<and> window_size s = widest 1 us \<and>
    sampler_get_value opr inv_op w s = Some (window_value opr inv_op w (drop m (history (Take v now # us)))) \<and>
    get_samples w s vs = Some (vs @ window_samples w (drop m (history (Take v now # us)))) \<and>
    (0 < w \<and> w \<le> widest 1 us \<and> nat w < since_widened 1 us \<longrightarrow>
      sampler_get_value opr inv_op w s = Some (window_value opr inv_op w (history (Take v now # us))) \<and>
      get_samples w s vs = Some (vs @ window_samples w (history (Take v now # us))))"
  using assms by (rule sampler_values)

theorem sampler_values_of_window_witness:
  "\<exists>s0 s. ReducerSampler_new 16 True (\<lambda>g. Some (5, g)) 100 () = Some (s0, ()) \<and>
    foldM (sampler_step 16) [Widen 2, Take 1 101, Take 2 102, Take 3 103, Take 4 (104 :: int)] s0 = Some s \<and>
    sampler_get_value (+) None 2 s = Some (Some \<lparr>data = 7 :: nat, time_us = 2\<rparr>)"
proof -
  let ?us = "[Widen 2, Take 1 101, Take 2 102, Take 3 103, Take (4 :: nat) (104 :: int)]"
  have t: "\<forall>x \<in> set (history (Take 5 100 # ?us)). 0 \<le> time_us x \<and> long_range (time_us x)"
    by (simp add: long_range_def)
  have "since_widened 1 ?us = 4" "widest 1 ?us = 2" by (simp_all add: MAX_SECONDS_LIMIT_def)
  moreover have "window_value (+) None 2 (history (Take 5 100 # ?us)) = Some \<lparr>data = 7, time_us = 2\<rparr>"
    by (simp add: window_value_def covered_def)
  ultimately show ?thesis
    using sampler_values_of_window [of 16 2 5 100 ?us "(+)" None "[]", OF _ _ _ t] by (auto simp: long_range_def)
qed

end
