(* ===== verification/Sampler_Thread.thy ===== *)
theory Sampler_Thread
  imports Sampler Sample_Intake
begin

text \<open>
  \<^verbatim>\<open>src/common/sampler.cpp\<close>: the thread that samples all scheduled variables once a second, with
  \<^verbatim>\<open>Sampler::schedule\<close> and \<^verbatim>\<open>Sampler::destroy\<close> of \<^verbatim>\<open>sampler.h\<close> and the creation and destruction of
  samplers by their reducer (\<^verbatim>\<open>reducer.h\<close>). New samplers reach the thread through a reducer, as the
  samples of the collector do.
\<close>

section \<open>State\<close>

text \<open>\<open>sampled\<close> and \<open>deleted\<close> record the calls of \<open>take_sample\<close> and the deletions, in order.\<close>

record sampling =
  s_links :: "u64 links"
  s_used :: "u64 \<Rightarrow> bool"
  nremoved :: nat
  nsampled :: nat
  sampled :: "u64 list"
  deleted :: "u64 list"
  cumulated_time_us :: int
  consecutive_nosleep :: int
  busy_warnings :: nat

definition WARN_NOSLEEP_THRESHOLD :: int where
  "WARN_NOSLEEP_THRESHOLD = 2"

section \<open>Operations\<close>

definition CombineSampler :: "u64 option \<Rightarrow> u64 option \<Rightarrow> u64 links \<Rightarrow> u64 option \<times> u64 links" where
  "CombineSampler p1 p2 w = (case p2 of
       None \<Rightarrow> (p1, w)
     | Some b \<Rightarrow> (case p1 of
         None \<Rightarrow> (Some b, w)
       | Some a \<Rightarrow> (Some a, insert_before_as_list a b w)))"

text \<open>\<open>Sampler::schedule\<close>: the sampler is submitted to the reducer that the collector is.\<close>

definition schedule :: "nat \<Rightarrow> nat \<Rightarrow> nat \<Rightarrow> u64 \<Rightarrow> intake \<Rightarrow> intake option" where
  "schedule sz t c this g = submit sz CombineSampler t c (Some this) g"

definition sampler_destroy :: "u64 \<Rightarrow> sampling \<Rightarrow> sampling" where
  "sampler_destroy this st = st\<lparr>s_used := (s_used st)(this := False)\<rparr>"

text \<open>
  The body of the loop over the samplers. Whether \<open>destroy()\<close> was called before the thread locked
  the sampler in this round is given by the set \<open>early\<close>.
\<close>

definition visit :: "u64 set \<Rightarrow> u64 \<Rightarrow> sampling \<Rightarrow> sampling" where
  "visit early p st =
     (let st = (if p \<in> early then sampler_destroy p st else st)
      in if \<not> s_used st p
         then st\<lparr>s_links := remove_from_list p (s_links st), deleted := deleted st @ [p], nremoved := nremoved st + 1\<rparr>
         else st\<lparr>sampled := sampled st @ [p], nsampled := nsampled st + 1\<rparr>)"

text \<open>The part of a round up to the loop; \<open>s\<close> is what \<open>reset()\<close> returned.\<close>

definition take_over :: "u64 \<Rightarrow> u64 option \<Rightarrow> sampling \<Rightarrow> sampling" where
  "take_over this_root s st =
     (let st = (case s of
            Some h \<Rightarrow> st\<lparr>s_links := insert_before_as_list h this_root (s_links st)\<rparr>
          | None \<Rightarrow> st)
      in st\<lparr>nremoved := 0, nsampled := 0\<rparr>)"

text \<open>The part of a round up to the end of the loop.\<close>

definition visit_all :: "u64 \<Rightarrow> u64 set \<Rightarrow> u64 option \<Rightarrow> sampling \<Rightarrow> sampling option" where
  "visit_all this_root early s st =
     (let st = take_over this_root s st
      in ring_for (\<lambda>st. next_ptr (s_links st)) (visit early) this_root (next_ptr (s_links st) this_root) st)"

text \<open>The sleep; \<open>clock i\<close> is the reading after the \<open>i\<close>-th \<open>usleep\<close>.\<close>

partial_function (option) sleep_until :: "(nat \<Rightarrow> int) \<Rightarrow> nat \<Rightarrow> int \<Rightarrow> int \<Rightarrow> bool \<Rightarrow> bool option" where
  "sleep_until clock i abstime now slept =
     (if abstime > now then sleep_until clock (i + 1) abstime (clock i) True else Some slept)"

definition round_end :: "int \<Rightarrow> int \<Rightarrow> (nat \<Rightarrow> int) \<Rightarrow> sampling \<Rightarrow> sampling option" where
  "round_end start now clock st = do {
     busy \<leftarrow> chk_long (now - start);
     total \<leftarrow> chk_long (cumulated_time_us st + busy);
     let st = st\<lparr>cumulated_time_us := total\<rparr>;
     abstime \<leftarrow> chk_long (start + 1000000);
     slept \<leftarrow> sleep_until clock 0 abstime now False;
     Some (if slept then st\<lparr>consecutive_nosleep := 0\<rparr>
           else let st = st\<lparr>consecutive_nosleep := consecutive_nosleep st + 1\<rparr>
                in if consecutive_nosleep st \<ge> WARN_NOSLEEP_THRESHOLD
                   then st\<lparr>consecutive_nosleep := 0, busy_warnings := busy_warnings st + 1\<rparr> else st) }"

definition sampling_round ::
  "u64 \<Rightarrow> u64 set \<Rightarrow> u64 option \<Rightarrow> int \<Rightarrow> int \<Rightarrow> (nat \<Rightarrow> int) \<Rightarrow> sampling \<Rightarrow> sampling option" where
  "sampling_round this_root early s start now clock st = do {
     st \<leftarrow> visit_all this_root early s st;
     round_end start now clock st }"

section \<open>Samplers of a reducer\<close>

record reducer_samplers =
  window_sampler :: "u64 option"
  series_sampler :: "u64 option"

definition reducer_samplers_init :: reducer_samplers where
  "reducer_samplers_init = \<lparr>window_sampler = None, series_sampler = None\<rparr>"

text \<open>\<open>get_sampler\<close>, called by thread \<open>t\<close>; \<open>fresh\<close> is the address a new sampler gets.\<close>

definition get_sampler ::
  "nat \<Rightarrow> nat \<Rightarrow> nat \<Rightarrow> u64 \<Rightarrow> reducer_samplers \<Rightarrow> intake \<Rightarrow> (u64 \<times> reducer_samplers \<times> intake) option" where
  "get_sampler sz t c fresh r g = (case window_sampler r of
       None \<Rightarrow> do {
         let g = g\<lparr>world := LinkNode fresh (world g)\<rparr>;
         g \<leftarrow> schedule sz t c fresh g;
         Some (fresh, r\<lparr>window_sampler := Some fresh\<rparr>, g) }
     | Some s \<Rightarrow> Some (s, r, g))"

definition Reducer_destruct :: "reducer_samplers \<Rightarrow> sampling \<Rightarrow> reducer_samplers \<times> sampling" where
  "Reducer_destruct r st =
     (let (r, st) = (case window_sampler r of
            Some s \<Rightarrow> (r\<lparr>window_sampler := None\<rparr>, sampler_destroy s st) | None \<Rightarrow> (r, st))
      in case series_sampler r of
           Some s \<Rightarrow> (r\<lparr>series_sampler := None\<rparr>, sampler_destroy s st) | None \<Rightarrow> (r, st))"

record SeriesOptions =
  fixed_length :: bool
  test_only :: bool

definition SeriesOptions_init :: SeriesOptions where
  "SeriesOptions_init = \<lparr>fixed_length = True, test_only = False\<rparr>"

text \<open>\<open>describe_series\<close>: what it prints (\<open>shown\<close> is the description of the series) and returns.\<close>

definition describe_series :: "SeriesOptions \<Rightarrow> string \<Rightarrow> reducer_samplers \<Rightarrow> string \<times> int" where
  "describe_series options shown r =
     (if series_sampler r = None then ([], 1) else (if \<not> test_only options then shown else [], 0))"

section \<open>Combining samplers\<close>

text \<open>\<open>CombineSampler\<close> links samplers exactly as \<open>CombineCollected\<close> links samples.\<close>

lemma CombineSampler_eq: "CombineSampler = CombineCollected"
  by (rule ext)+ (simp add: CombineSampler_def CombineCollected_def)

interpretation scheduled: combining CombineSampler None "linked F" for F
  unfolding CombineSampler_eq by (rule intake.combining_axioms)

section \<open>One round\<close>

definition alive :: "u64 set \<Rightarrow> sampling \<Rightarrow> u64 \<Rightarrow> bool" where
  "alive early st p \<longleftrightarrow> s_used st p \<and> p \<notin> early"

lemma visit_alive: "alive early (visit early p st) = alive early st"
  by (rule ext) (auto simp: alive_def visit_def sampler_destroy_def Let_def)

lemma visit_fields:
  "s_links (visit early p st) = (if alive early st p then s_links st else remove_from_list p (s_links st))"
  "sampled (visit early p st) = sampled st @ (if alive early st p then [p] else [])"
  "deleted (visit early p st) = deleted st @ (if alive early st p then [] else [p])"
  "nsampled (visit early p st) = nsampled st + (if alive early st p then 1 else 0)"
  "nremoved (visit early p st) = nremoved st + (if alive early st p then 0 else 1)"
  "cumulated_time_us (visit early p st) = cumulated_time_us st"
  "consecutive_nosleep (visit early p st) = consecutive_nosleep st"
  "busy_warnings (visit early p st) = busy_warnings st"
  by (auto simp: visit_def alive_def sampler_destroy_def Let_def)

lemma fold_visit:
  "sampled (fold (visit early) ps st) = sampled st @ filter (alive early st) ps \<and>
   deleted (fold (visit early) ps st) = deleted st @ filter (\<lambda>p. \<not> alive early st p) ps \<and>
   nsampled (fold (visit early) ps st) = nsampled st + length (filter (alive early st) ps) \<and>
   nremoved (fold (visit early) ps st) = nremoved st + length (filter (\<lambda>p. \<not> alive early st p) ps) \<and>
   alive early (fold (visit early) ps st) = alive early st"
  by (induction ps arbitrary: st) (simp_all add: visit_fields visit_alive)

lemma scan_visit:
  assumes "ring (s_links st) (r # ps)"
  shows "ring_for (\<lambda>st. next_ptr (s_links st)) (visit early) r (next_ptr (s_links st) r) st = Some (fold (visit early) ps st)"
    and "ring (s_links (fold (visit early) ps st)) (r # filter (alive early st) ps)"
    and "p \<in> set ps \<Longrightarrow> \<not> alive early st p \<Longrightarrow> ring (s_links (fold (visit early) ps st)) [p]"
proof -
  let ?I = "\<lambda>s. alive early s = alive early st"
  have body: "?I (visit early p s) \<and> s_links (visit early p s) =
      (if alive early st p then s_links s else remove_from_list p (s_links s))" if "?I s" for p s
    using that by (simp add: visit_alive visit_fields)
  note s = ll.scan [where I = ?I and body = "visit early" and lnk = s_links and keep = "alive early st", OF body refl assms]
  show "ring_for (\<lambda>st. next_ptr (s_links st)) (visit early) r (next_ptr (s_links st) r) st = Some (fold (visit early) ps st)"
    "ring (s_links (fold (visit early) ps st)) (r # filter (alive early st) ps)"
    using s(1,2) by auto
  show "p \<in> set ps \<Longrightarrow> \<not> alive early st p \<Longrightarrow> ring (s_links (fold (visit early) ps st)) [p]"
    using s(3) by blast
qed

section \<open>Properties\<close>

text \<open>What \<open>reset()\<close> returned is appended to the list under the root; other lists stay.\<close>

lemma take_over_ring:
  assumes "ring (s_links st) (r # xs)" and "case s of None \<Rightarrow> ys = [] | Some h \<Rightarrow> ring (s_links st) ys \<and> hd ys = h"
    and "set ys \<inter> set (r # xs) = {}"
  shows "ring (s_links (take_over r s st)) (r # xs @ ys)"
    and "ring (s_links st) zs \<Longrightarrow> set zs \<inter> (set (r # xs) \<union> set ys) = {} \<Longrightarrow> ring (s_links (take_over r s st)) zs"
proof -
  have "ring (s_links (take_over r s st)) (r # xs @ ys) \<and>
    (ring (s_links st) zs \<longrightarrow> set zs \<inter> (set (r # xs) \<union> set ys) = {} \<longrightarrow> ring (s_links (take_over r s st)) zs)"
  proof (cases s)
    case None
    then show ?thesis using assms(1,2) by (simp add: take_over_def)
  next
    case (Some h)
    then obtain t where t: "ys = h # t" "ring (s_links st) (h # t)"
      using assms(2) ring_not_Nil by (cases ys) auto
    then show ?thesis
      using ll.splice_join [of "s_links st" h t r xs] assms(1,3) insert_before_as_list_frame [OF t(2) assms(1), of zs]
      by (auto simp: take_over_def Some)
  qed
  then show "ring (s_links (take_over r s st)) (r # xs @ ys)"
    "ring (s_links st) zs \<Longrightarrow> set zs \<inter> (set (r # xs) \<union> set ys) = {} \<Longrightarrow> ring (s_links (take_over r s st)) zs"
    by blast+
qed

lemma take_over_fields:
  "s_used (take_over r s st) = s_used st" "sampled (take_over r s st) = sampled st" "deleted (take_over r s st) = deleted st"
  "nremoved (take_over r s st) = 0" "nsampled (take_over r s st) = 0"
  by (simp_all add: take_over_def Let_def split: option.split)

text \<open>
  Every sampler once a second, none after its destruction. When the samplers \<open>xs\<close> are under the
  root and the reset of the reducer returns the list of the newly scheduled ones \<open>ys\<close>, the loop of a
  round returns. It samples each of them that is still in use when the thread locks it exactly once,
  the old ones before the new ones, keeps exactly these in the list in their order, and deletes each
  of the others exactly once, after taking it out of the list.
\<close>

theorem sampler_round_visits_each:
  assumes "ring (s_links st) (r # xs)" and "case s of None \<Rightarrow> ys = [] | Some h \<Rightarrow> ring (s_links st) ys \<and> hd ys = h"
    and "set ys \<inter> set (r # xs) = {}"
  shows "\<exists>st'. visit_all r early s st = Some st' \<and> ring (s_links st') (r # filter (alive early st) (xs @ ys)) \<and>
    sampled st' = sampled st @ filter (alive early st) (xs @ ys) \<and>
    deleted st' = deleted st @ filter (\<lambda>p. \<not> alive early st p) (xs @ ys) \<and>
    nsampled st' + nremoved st' = length (xs @ ys) \<and>
    (\<forall>p \<in> set (deleted st'). p \<in> set (deleted st) \<or> ring (s_links st') [p] \<and> p \<notin> set (r # filter (alive early st) (xs @ ys)))"
proof -
  let ?st = "take_over r s st"
  have a: "alive early ?st = alive early st" by (rule ext) (simp add: alive_def take_over_fields)
  have r: "ring (s_links ?st) (r # xs @ ys)" by (rule take_over_ring(1) [OF assms])
  note s = scan_visit [where early = early, OF r, unfolded a]
  have run: "visit_all r early s st = Some (fold (visit early) (xs @ ys) ?st)"
    using s(1) by (simp add: visit_all_def Let_def)
  obtain zs st' where z: "zs = xs @ ys" "st' = fold (visit early) zs ?st" by blast
  have "r \<notin> set zs" using ring_distinct [OF r] by (simp add: z)
  moreover have "length (filter (alive early st) zs) + length (filter (\<lambda>p. \<not> alive early st p) zs) = length zs"
    by (rule sum_length_filter_compl)
  moreover note run s(2,3) fold_visit [of early zs ?st, unfolded a]
  ultimately show ?thesis unfolding z(1) [symmetric] z(2) [symmetric] by (intro exI [of _ st']) (auto simp: take_over_fields)
qed

theorem sampler_round_visits_each_witness:
  "\<exists>st st'. s_links st = example_links \<and> visit_all 3 {11} (Some 10) st = Some st' \<and>
    ring (s_links st') [3, 10, 12] \<and> sampled st' = [10, 12] \<and> deleted st' = [11]"
proof -
  let ?st = "\<lparr>s_links = example_links, s_used = (\<lambda>_. True), nremoved = 0, nsampled = 0, sampled = [], deleted = [],
     cumulated_time_us = 0, consecutive_nosleep = 0, busy_warnings = 0\<rparr>"
  have "ring (s_links ?st) [3]" "case Some 10 of None \<Rightarrow> [10, 11, 12] = [] | Some h \<Rightarrow> ring (s_links ?st) [10, 11, 12] \<and> hd [10, 11, 12] = h"
    using example_rings by simp_all
  from sampler_round_visits_each [OF this, of "{11}"] obtain st' where
    "visit_all 3 {11} (Some 10) ?st = Some st'" "ring (s_links st') [3, 10, 12]" "sampled st' = [10, 12]" "deleted st' = [11]"
    by (auto simp: alive_def)
  then show ?thesis by (intro exI [of _ ?st] exI [of _ st']) simp
qed

end
