(* ===== verification/Sampler_Life.thy ===== *)
theory Sampler_Life
  imports Sampler_Thread Binary64
begin

text \<open>
  The sampling service as a whole (\<^verbatim>\<open>class SamplerCollector\<close> in \<^verbatim>\<open>src/common/sampler.cpp\<close>): its
  construction with the sampling thread, the rounds of this thread, one sampler at a time, its
  destruction, and around it the threads that create samplers for reducers, schedule them, exit, and
  destroy reducers (\<^verbatim>\<open>reducer.h\<close>). Each step is what happens under one mutex. A log of what happened
  to each sampler states its life: constructed, scheduled, destroyed with its reducer, deleted by the thread.
\<close>

section \<open>What happens to samplers\<close>

datatype event =
    Made u64
  | Scheduled u64
  | Destroyed u64
  | Begun
  | Sampled u64
  | Deleted u64
  | Finished
  | Stopped

datatype phase = Absent | Living | Doomed

text \<open>The latest event is the first of a log.\<close>

primrec life :: "event list \<Rightarrow> u64 \<Rightarrow> phase" where
  "life [] p = Absent"
| "life (e # tr) p = (case e of
     Made q \<Rightarrow> if q = p then Living else life tr p
   | Destroyed q \<Rightarrow> if q = p then Doomed else life tr p
   | Deleted q \<Rightarrow> if q = p then Absent else life tr p
   | _ \<Rightarrow> life tr p)"

primrec scheduled :: "event list \<Rightarrow> u64 \<Rightarrow> bool" where
  "scheduled [] p \<longleftrightarrow> False"
| "scheduled (e # tr) p \<longleftrightarrow> (case e of
     Scheduled q \<Rightarrow> q = p \<or> scheduled tr p
   | Deleted q \<Rightarrow> q \<noteq> p \<and> scheduled tr p
   | _ \<Rightarrow> scheduled tr p)"

text \<open>The events since the latest round began, and those before.\<close>

primrec this_round :: "event list \<Rightarrow> event list" where
  "this_round [] = []"
| "this_round (e # tr) = (if e = Begun then [] else e # this_round tr)"

primrec before_round :: "event list \<Rightarrow> event list" where
  "before_round [] = []"
| "before_round (e # tr) = (if e = Begun then tr else before_round tr)"

definition visits :: "event list \<Rightarrow> u64 \<Rightarrow> nat" where
  "visits tr p = count_list tr (Sampled p) + count_list tr (Deleted p)"

text \<open>What may happen next.\<close>

definition allowed :: "event \<Rightarrow> event list \<Rightarrow> bool" where
  "allowed e tr \<longleftrightarrow> (case e of
     Made p \<Rightarrow> life tr p = Absent
   | Scheduled p \<Rightarrow> life tr p = Living \<and> \<not> scheduled tr p
   | Destroyed p \<Rightarrow> life tr p = Living \<and> scheduled tr p
   | Begun \<Rightarrow> Stopped \<notin> set tr
   | Sampled p \<Rightarrow> life tr p = Living \<and> scheduled tr p
   | Deleted p \<Rightarrow> life tr p = Doomed \<and> scheduled tr p
   | Finished \<Rightarrow> (\<forall>p. scheduled (before_round tr) p \<longrightarrow> visits (this_round tr) p = 1)
   | Stopped \<Rightarrow> True)"

primrec lawful :: "event list \<Rightarrow> bool" where
  "lawful [] \<longleftrightarrow> True"
| "lawful (e # tr) \<longleftrightarrow> allowed e tr \<and> lawful tr"

section \<open>The service\<close>

text \<open>
  Where the sampling thread is: at the test of \<open>stop_\<close>, in the loop with \<open>abstime\<close> and \<open>p\<close> (which is the
  root after the last sampler), or ended. \<open>building\<close> holds the samplers whose constructor has run but not
  yet their \<open>schedule()\<close>, \<open>owners\<close> the reducers and their samplers.
\<close>

datatype thread_pc = Testing | Looping int u64 | Over

record service =
  intake_of :: intake
  sampling_of :: sampling
  pc_of :: thread_pc
  created_flag :: bool
  stop_flag :: bool
  owners :: "nat \<Rightarrow> reducer_samplers option"
  building :: "u64 set"
  events :: "event list"

text \<open>\<open>get_cumulated_time\<close>, in seconds.\<close>

definition get_cumulated_time :: "service \<Rightarrow> double" where
  "get_cumulated_time S = double_div (fl (of_int (cumulated_time_us (sampling_of S)))) 1000000"

text \<open>
  \<open>SamplerCollector::SamplerCollector\<close>, run by \<open>get_instance\<close> on its first call: \<open>res\<close> is the result of
  \<open>pthread_create\<close>. The started thread constructs its \<open>root\<close>.
\<close>

definition sampling_init :: "u64 links \<Rightarrow> sampling" where
  "sampling_init l = \<lparr>s_links = l, s_used = (\<lambda>_. False), nremoved = 0, nsampled = 0, sampled = [], deleted = [],
     cumulated_time_us = 0, consecutive_nosleep = 0, busy_warnings = 0\<rparr>"

definition SamplerCollector_new :: "nat \<Rightarrow> u64 \<Rightarrow> int \<Rightarrow> u64 links \<Rightarrow> service option" where
  "SamplerCollector_new c this_root res l = do {
     g \<leftarrow> Reducer_new None c (group_init None (LinkNode this_root l));
     Some \<lparr>intake_of = g, sampling_of = sampling_init (LinkNode this_root l),
       pc_of = (if res = 0 then Testing else Over), created_flag = (res = 0), stop_flag = False,
       owners = (\<lambda>_. None), building = {}, events = []\<rparr> }"

text \<open>\<open>SamplerCollector::~SamplerCollector\<close>: the part up to \<open>pthread_join\<close>, and what follows its return.\<close>

definition stop_sampling :: "service \<Rightarrow> service option" where
  "stop_sampling S =
     (if created_flag S \<and> \<not> stop_flag S then Some (S\<lparr>stop_flag := True, events := Stopped # events S\<rparr>) else None)"

definition join_sampling :: "service \<Rightarrow> service option" where
  "join_sampling S = (if created_flag S \<and> stop_flag S \<and> pc_of S = Over then Some (S\<lparr>created_flag := False\<rparr>) else None)"

section \<open>Steps of the sampling thread\<close>

text \<open>The values of the reducer change: the links are those of the samplers too.\<close>

definition relinked :: "intake \<Rightarrow> service \<Rightarrow> service" where
  "relinked g S = S\<lparr>intake_of := g, sampling_of := (sampling_of S)\<lparr>s_links := world g\<rparr>\<rparr>"

definition resampled :: "sampling \<Rightarrow> service \<Rightarrow> service" where
  "resampled st S = S\<lparr>sampling_of := st, intake_of := (intake_of S)\<lparr>world := s_links st\<rparr>\<rparr>"

text \<open>
  The test of \<open>stop_\<close> and the start of a round at the time \<open>start\<close>. While the thread resets the reducer,
  others submit the samplers \<open>ps\<close>.
\<close>

definition begin_round ::
  "u64 \<Rightarrow> nat \<Rightarrow> nat \<Rightarrow> (nat \<Rightarrow> (nat \<times> u64 option) list) \<Rightarrow> u64 list \<Rightarrow> int \<Rightarrow> service \<Rightarrow> service option" where
  "begin_round this_root sz c others ps start S =
     (if stop_flag S then Some (S\<lparr>pc_of := Over\<rparr>)
      else do {
        (s, g) \<leftarrow> reset sz CombineSampler others c (intake_of S);
        let S = relinked g S;
        let st = take_over this_root s (sampling_of S);
        Some ((resampled st S)\<lparr>pc_of := Looping start (next_ptr (s_links st) this_root), building := building S - set ps,
          events := map Scheduled ps @ Begun # events S\<rparr>) })"

text \<open>One sampler, \<open>p\<close>; its successor is read first.\<close>

definition visit_next :: "int \<Rightarrow> u64 \<Rightarrow> service \<Rightarrow> service" where
  "visit_next start p S =
     (let st = sampling_of S; saved_next = next_ptr (s_links st) p
      in (resampled (visit {} p st) S)\<lparr>pc_of := Looping start saved_next,
           events := (if s_used st p then Sampled p else Deleted p) # events S\<rparr>)"

definition finish_round :: "int \<Rightarrow> int \<Rightarrow> (nat \<Rightarrow> int) \<Rightarrow> service \<Rightarrow> service option" where
  "finish_round start now clock S = do {
     st \<leftarrow> round_end start now clock (sampling_of S);
     Some ((resampled st S)\<lparr>pc_of := Testing, events := Finished # events S\<rparr>) }"

text \<open>The next step of the thread; it has none when it ended.\<close>

definition thread_step ::
  "u64 \<Rightarrow> nat \<Rightarrow> nat \<Rightarrow> (nat \<Rightarrow> (nat \<times> u64 option) list) \<Rightarrow> u64 list \<Rightarrow> int \<Rightarrow> (nat \<Rightarrow> int) \<Rightarrow> service \<Rightarrow> service option" where
  "thread_step this_root sz c others ps now clock S = (case pc_of S of
     Testing \<Rightarrow> begin_round this_root sz c others ps now S
   | Looping start p \<Rightarrow> if p = this_root then finish_round start now clock S else Some (visit_next start p S)
   | Over \<Rightarrow> None)"

section \<open>Steps of other threads\<close>

text \<open>
  The two halves of \<open>Reducer::get_sampler\<close> for a reducer \<open>r\<close> without sampler: the new sampler at \<open>p\<close>, and
  its \<open>schedule()\<close> by thread \<open>t\<close>.
\<close>

definition make_sampler :: "nat \<Rightarrow> reducer_samplers \<Rightarrow> u64 \<Rightarrow> service \<Rightarrow> service" where
  "make_sampler r rs p S =
     (let l = LinkNode p (s_links (sampling_of S)); st = sampling_of S
      in (resampled (st\<lparr>s_links := l, s_used := (s_used st)(p := True)\<rparr>) S)\<lparr>
           owners := (owners S)(r := Some (rs\<lparr>window_sampler := Some p\<rparr>)), building := insert p (building S),
           events := Made p # events S\<rparr>)"

definition schedule_sampler :: "nat \<Rightarrow> nat \<Rightarrow> nat \<Rightarrow> u64 \<Rightarrow> service \<Rightarrow> service option" where
  "schedule_sampler sz t c p S = do {
     g \<leftarrow> schedule sz t c p (intake_of S);
     Some ((relinked g S)\<lparr>building := building S - {p}, events := Scheduled p # events S\<rparr>) }"

definition destroy_reducer :: "nat \<Rightarrow> reducer_samplers \<Rightarrow> service \<Rightarrow> service" where
  "destroy_reducer r rs S = (case Reducer_destruct rs (sampling_of S) of (_, st) \<Rightarrow>
     S\<lparr>sampling_of := st, owners := (owners S)(r := None),
       events := (case window_sampler rs of None \<Rightarrow> [] | Some p \<Rightarrow> [Destroyed p]) @ events S\<rparr>)"

text \<open>
  All steps. \<open>new\<close> yields memory that is not in use; a reducer is not destroyed while its \<open>get_sampler\<close>
  runs; the clock reads less than \<open>2 ^ 62\<close> microseconds.
\<close>

inductive service_step :: "u64 \<Rightarrow> nat \<Rightarrow> nat \<Rightarrow> service \<Rightarrow> service \<Rightarrow> bool" for this_root sz c where
  of_thread: "0 \<le> now \<Longrightarrow> now < 2 ^ 62 \<Longrightarrow> (pc_of S = Testing \<Longrightarrow> distinct ps \<and> set ps \<subseteq> building S \<and>
      taken sz c (intake_of S) (concat (map others [0..<card {a. owner (intake_of S) a = Some c}])) = map Some ps) \<Longrightarrow>
    thread_step this_root sz c others ps now clock S = Some S' \<Longrightarrow> service_step this_root sz c S S'"
| of_creator: "owners S r = None \<Longrightarrow> service_step this_root sz c S (S\<lparr>owners := (owners S)(r := Some reducer_samplers_init)\<rparr>)"
| of_maker: "owners S r = Some rs \<Longrightarrow> window_sampler rs = None \<Longrightarrow> p \<noteq> this_root \<Longrightarrow> life (events S) p = Absent \<Longrightarrow>
    service_step this_root sz c S (make_sampler r rs p S)"
| of_scheduler: "p \<in> building S \<Longrightarrow> schedule_sampler sz t c p S = Some S' \<Longrightarrow> service_step this_root sz c S S'"
| of_destroyer: "owners S r = Some rs \<Longrightarrow> (\<forall>p. window_sampler rs = Some p \<longrightarrow> p \<notin> building S) \<Longrightarrow>
    service_step this_root sz c S (destroy_reducer r rs S)"
| of_exiting: "exit_thread sz CombineSampler t (intake_of S) = Some g \<Longrightarrow> service_step this_root sz c S (relinked g S)"
| of_stopper: "stop_sampling S = Some S' \<Longrightarrow> service_step this_root sz c S S'"
| of_joiner: "join_sampling S = Some S' \<Longrightarrow> service_step this_root sz c S S'"

inductive service_reach :: "u64 \<Rightarrow> nat \<Rightarrow> nat \<Rightarrow> service \<Rightarrow> bool" for this_root sz c where
  start: "SamplerCollector_new c this_root res l = Some S \<Longrightarrow> service_reach this_root sz c S"
| step: "service_reach this_root sz c S \<Longrightarrow> service_step this_root sz c S S' \<Longrightarrow> service_reach this_root sz c S'"

text \<open>The two halves make up \<open>get_sampler\<close>.\<close>

lemma get_sampler_halves:
  assumes "owners S r = Some rs" and "window_sampler rs = None" and "s_links (sampling_of S) = world (intake_of S)"
  shows "get_sampler sz t c p rs (intake_of S) = map_option (\<lambda>g. (p, rs\<lparr>window_sampler := Some p\<rparr>, g))
     (map_option intake_of (schedule_sampler sz t c p (make_sampler r rs p S)))"
  using assms
  by (cases "schedule sz t c p ((intake_of S)\<lparr>world := LinkNode p (world (intake_of S))\<rparr>)")
    (simp_all add: get_sampler_def schedule_sampler_def make_sampler_def resampled_def relinked_def Let_def)

section \<open>What the reducer of the samplers holds\<close>

definition held_ok :: "u64 list set \<Rightarrow> nat \<Rightarrow> nat \<Rightarrow> intake \<Rightarrow> (slot \<Rightarrow> u64 multiset) \<Rightarrow> bool" where
  "held_ok F sz c g val \<longleftrightarrow> group_ok sz g \<and> identities None g \<and> dom (combiners g) = {c} \<and> accounts (linked F) g val {#}"

lemma held_samples: "held_ok F sz c g val \<Longrightarrow> all_samples (worths g val) = holdings (owner g) val c"
  unfolding held_ok_def by (intro all_samples_worths) auto

lemma held_linked: "held_ok F sz c g val \<Longrightarrow> linked F (world g) (worths g val)"
  by (simp add: held_ok_def accounts_def)

lemma held_off:
  "held_ok F sz c g val \<Longrightarrow> zs \<in> F \<Longrightarrow> ring (world g) zs \<and> set zs \<inter> set_mset (holdings (owner g) val c) = {}"
  using linked_off [OF held_linked] held_samples by metis

lemma held_combiner:
  assumes "held_ok F sz c g val"
  obtains k where "group_ok sz g" "identities None g" "combiners g c = Some k" "dom (combiners g) = {c}"
  using assms by (auto simp: held_ok_def)

lemma held_relink:
  assumes ok: "held_ok F sz c g val"
    and keep: "\<And>zs. ring (world g) zs \<Longrightarrow> set zs \<subseteq> set_mset (holdings (owner g) val c) \<Longrightarrow> ring l zs"
    and F': "\<And>zs. zs \<in> F' \<Longrightarrow> ring l zs \<and> set zs \<inter> set_mset (holdings (owner g) val c) = {}"
  shows "held_ok F' sz c (g\<lparr>world := l\<rparr>) val"
proof -
  have "linked F' l (worths g val)"
    by (rule linked_relink [OF held_linked [OF ok]]) (use keep F' in \<open>simp_all add: held_samples [OF ok]\<close>)
  moreover have "group_ok sz (g\<lparr>world := l\<rparr>)" "identities None (g\<lparr>world := l\<rparr>)"
    using ok by (simp_all add: held_ok_def group_ok_def identities_def)
  ultimately show ?thesis using ok by (simp add: held_ok_def accounts_def worths_world)
qed

lemma held_fewer:
  assumes ok: "held_ok F sz c g val" and "F' \<subseteq> F"
  shows "held_ok F' sz c g val"
proof -
  have "held_ok F' sz c (g\<lparr>world := world g\<rparr>) val"
    by (rule held_relink [OF ok]) (use held_off [OF ok] assms(2) in auto)
  then show ?thesis by simp
qed

text \<open>Samplers that are lists of their own can be submitted.\<close>

lemma held_ready:
  assumes ok: "held_ok F sz c g val" and "distinct ps"
    and "\<And>p. p \<in> set ps \<Longrightarrow> ring (world g) [p] \<and> p \<notin># holdings (owner g) val c \<and> (\<forall>zs \<in> F. p \<notin> set zs)"
  shows "accounts (linked F) g val (pairs self_linked (map Some ps) + {#})"
proof -
  have "linked F (world g) (pairs self_linked (map Some ps) + worths g val)"
    by (rule linked_ready [OF held_linked [OF ok] assms(2)]) (use assms(3) in \<open>simp add: held_samples [OF ok]\<close>)
  then show ?thesis by (simp add: accounts_def add.commute)
qed

lemma held_submit:
  assumes ok: "held_ok F sz c g val" and sz: "0 < sz"
    and p: "ring (world g) [p]" "p \<notin># holdings (owner g) val c" "\<forall>zs \<in> F. p \<notin> set zs"
  shows "\<exists>g' val'. schedule sz t c p g = Some g' \<and> held_ok F sz c g' val' \<and>
    holdings (owner g') val' c = holdings (owner g) val c + {#p#}"
proof -
  obtain k where k: "group_ok sz g" "identities None g" "combiners g c = Some k" "dom (combiners g) = {c}"
    by (rule held_combiner [OF ok])
  have "accounts (linked F) g val (add_mset (Some p, {#p#}) {#})"
    using held_ready [OF ok, of "[p]"] p by simp
  from intake.submit_accounts [OF k(1) sz k(3,2) this, of t] show ?thesis
    unfolding k(4) held_ok_def schedule_def CombineSampler_eq by blast
qed

lemma held_exit:
  assumes ok: "held_ok F sz c g val" and sz: "0 < sz" and ex: "exit_thread sz CombineSampler t g = Some g'"
  shows "\<exists>val'. held_ok F sz c g' val' \<and> holdings (owner g') val' c = holdings (owner g) val c"
proof -
  obtain k where k: "group_ok sz g" "identities None g" "combiners g c = Some k" "dom (combiners g) = {c}"
    by (rule held_combiner [OF ok])
  have "accounts (linked F) g val {#}" using ok by (simp add: held_ok_def)
  from intake.exit_accounts [OF k(1) sz k(2) this, of t] ex show ?thesis
    unfolding k(4) held_ok_def CombineSampler_eq by auto
qed

text \<open>A reset takes out all that was held, and some of what others submit meanwhile.\<close>

lemma held_reset:
  assumes ok: "held_ok F sz c g val" and ps: "distinct ps"
    "\<And>p. p \<in> set ps \<Longrightarrow> ring (world g) [p] \<and> p \<notin># holdings (owner g) val c \<and> (\<forall>zs \<in> F. p \<notin> set zs)"
    and t: "taken sz c g (concat (map others [0..<card {a. owner g a = Some c}])) = map Some ps"
  shows "\<exists>h g' val' ys got. reset sz CombineSampler others c g = Some (h, g') \<and> held_ok F sz c g' val' \<and>
    mset ys = holdings (owner g) val c + got \<and> got + holdings (owner g') val' c = mset ps \<and>
    (case h of None \<Rightarrow> ys = [] | Some p \<Rightarrow> ring (world g') ys \<and> hd ys = p) \<and>
    set ys \<inter> set_mset (holdings (owner g') val' c) = {} \<and> (\<forall>zs \<in> F. set ys \<inter> set zs = {})"
proof -
  obtain k where k: "group_ok sz g" "identities None g" "combiners g c = Some k" "dom (combiners g) = {c}"
    by (rule held_combiner [OF ok])
  have "accounts (linked F) g val
      (pairs self_linked (taken sz c g (concat (map others [0..<card {a. owner g a = Some c}]))) + {#})"
    unfolding t by (rule held_ready [OF ok ps])
  from intake.reset_accounts [OF k(1,3,2) refl this] obtain h y val' h' e l got where
    run: "reset_all_agents sz CombineCollected others c g =
      Some (h, g\<lparr>combiners := (combiners g)(c := Some h'), element := e, world := l\<rparr>)"
    and g0: "group_ok sz (g\<lparr>combiners := (combiners g)(c := Some h'), element := e, world := l\<rparr>)"
      "identities None (g\<lparr>combiners := (combiners g)(c := Some h'), element := e, world := l\<rparr>)"
      "accounts (linked F) (g\<lparr>combiners := (combiners g)(c := Some h'), element := e, world := l\<rparr>) val' {#(h, y)#}"
      "y + holdings (owner g) val' c = holdings (owner g) val c + (\<Sum>v\<leftarrow>map Some ps. self_linked v)"
      "y = holdings (owner g) val c + got"
    unfolding t by blast
  define g' where "g' = g\<lparr>combiners := (combiners g)(c := Some h'), element := e, world := l\<rparr>"
  have own: "owner g' = owner g" "dom (combiners g') = {c}" using k(4) by (auto simp: g'_def)
  have lk: "linked F (world g') (add_mset (h, y) (worths g' val'))"
    using g0(3) by (simp add: accounts_def g'_def)
  have ok': "held_ok F sz c g' val'"
    using g0(1,2) own(2) intake.den_drop [OF lk] by (simp add: held_ok_def accounts_def g'_def)
  have den: "denotes (world g') h y" using lk by (simp add: linked_def)
  obtain ys where ys: "y = mset ys" "case h of None \<Rightarrow> ys = [] | Some p \<Rightarrow> ring (world g') ys \<and> hd ys = p"
  proof (cases h)
    case None
    then show ?thesis using den that [of "[]"] by (simp add: denotes_def)
  next
    case (Some p)
    then obtain xs where "ring (world g') (p # xs)" "y = mset (p # xs)" using den by (auto simp: denotes_def)
    then show ?thesis using that [of "p # xs"] Some by simp
  qed
  have "\<forall>n. count (y + all_samples (worths g' val')) n \<le> 1" using lk by (simp add: linked_def)
  from count_le_one_disjoint [OF this] have "set ys \<inter> set_mset (holdings (owner g') val' c) = {}"
    by (auto simp: held_samples [OF ok'] ys(1))
  moreover have "\<forall>zs \<in> F. set ys \<inter> set zs = {}"
    using linked_off [OF lk] by (auto simp: ys(1))
  moreover have "got + holdings (owner g') val' c = mset ps" 
    using g0(4) unfolding sum_self_linked g0(5) by (simp add: own add.assoc)
  moreover have "reset sz CombineSampler others c g = Some (h, g')" using run by (simp add: reset_def CombineSampler_eq g'_def)
  ultimately show ?thesis using ok' ys g0(5) by blast
qed

section \<open>Logs\<close>

lemma life_scheduled_app [simp]:
  "life (map Scheduled ps @ tr) p = life tr p"
  "scheduled (map Scheduled ps @ tr) p \<longleftrightarrow> p \<in> set ps \<or> scheduled tr p"
  by (induction ps) auto

lemma rounds_scheduled_app [simp]:
  "before_round (map Scheduled ps @ Begun # tr) = tr" "visits (this_round (map Scheduled ps @ Begun # tr)) p = 0"
  by (induction ps) (simp_all add: visits_def)

lemma lawful_scheduled_app:
  "distinct ps \<Longrightarrow> (\<And>p. p \<in> set ps \<Longrightarrow> life tr p = Living \<and> \<not> scheduled tr p) \<Longrightarrow> lawful tr \<Longrightarrow>
   lawful (map Scheduled ps @ tr)"
  by (induction ps) (auto simp: allowed_def)

lemma lawful_appD: "lawful (bs @ tr) \<Longrightarrow> lawful tr"
  by (induction bs) auto

text \<open>A doomed sampler stays so until it is deleted.\<close>

lemma doomed_until_deleted:
  "lawful (bs @ tr) \<Longrightarrow> life tr p = Doomed \<Longrightarrow> Deleted p \<notin> set bs \<Longrightarrow>
   life (bs @ tr) p = Doomed \<and> Sampled p \<notin> set bs"
  by (induction bs) (auto simp: allowed_def split: event.splits)

section \<open>The invariant\<close>

text \<open>
  The samplers in use are under the root (\<open>xs\<close>), held by the reducer (\<open>H\<close>) or about to be scheduled, and
  only the living have their reducer.
\<close>

definition positions_ok :: "u64 \<Rightarrow> event list \<Rightarrow> u64 set \<Rightarrow> u64 list \<Rightarrow> u64 multiset \<Rightarrow> bool" where
  "positions_ok this_root tr B xs H \<longleftrightarrow> life tr this_root = Absent \<and>
     (\<forall>p. life tr p \<noteq> Absent \<longleftrightarrow> p \<in> set xs \<or> p \<in># H \<or> p \<in> B) \<and>
     (\<forall>p. scheduled tr p \<longleftrightarrow> p \<in> set xs \<or> p \<in># H) \<and>
     (\<forall>p \<in> B. life tr p = Living \<and> p \<notin> set xs \<and> p \<notin># H)"

definition uses_ok :: "event list \<Rightarrow> (u64 \<Rightarrow> bool) \<Rightarrow> bool" where
  "uses_ok tr used \<longleftrightarrow> (\<forall>p. (life tr p = Living \<longrightarrow> used p) \<and> (life tr p = Doomed \<longrightarrow> \<not> used p))"

definition owners_ok :: "event list \<Rightarrow> (nat \<Rightarrow> reducer_samplers option) \<Rightarrow> bool" where
  "owners_ok tr own \<longleftrightarrow> (\<forall>r rs. own r = Some rs \<longrightarrow> series_sampler rs = None \<and>
     (\<forall>p. window_sampler rs = Some p \<longrightarrow> life tr p = Living \<and>
       (\<forall>r' rs'. own r' = Some rs' \<longrightarrow> window_sampler rs' = Some p \<longrightarrow> r' = r)))"

text \<open>In a round the samplers \<open>ts\<close> are yet to be visited.\<close>

definition round_ok :: "u64 \<Rightarrow> thread_pc \<Rightarrow> event list \<Rightarrow> u64 list \<Rightarrow> bool" where
  "round_ok this_root pc tr xs \<longleftrightarrow> (case pc of
     Looping start p \<Rightarrow> (\<exists>vs ts. xs = vs @ ts \<and> p = hd (ts @ [this_root]) \<and>
       (\<forall>q \<in> set ts. visits (this_round tr) q = 0) \<and>
       (\<forall>q. scheduled (before_round tr) q \<longrightarrow> q \<notin> set ts \<longrightarrow> visits (this_round tr) q = 1))
   | _ \<Rightarrow> True)"

definition singles :: "u64 \<Rightarrow> u64 set \<Rightarrow> u64 list \<Rightarrow> u64 list set" where
  "singles this_root B xs = insert (this_root # xs) ((\<lambda>p. [p]) ` B)"

definition service_ok :: "u64 \<Rightarrow> nat \<Rightarrow> nat \<Rightarrow> service \<Rightarrow> u64 list \<Rightarrow> (slot \<Rightarrow> u64 multiset) \<Rightarrow> bool" where
  "service_ok this_root sz c S xs val \<longleftrightarrow> held_ok (singles this_root (building S) xs) sz c (intake_of S) val \<and>
     world (intake_of S) = s_links (sampling_of S) \<and>
     positions_ok this_root (events S) (building S) xs (holdings (owner (intake_of S)) val c) \<and>
     uses_ok (events S) (s_used (sampling_of S)) \<and> owners_ok (events S) (owners S) \<and>
     round_ok this_root (pc_of S) (events S) xs \<and>
     lawful (events S) \<and> (Stopped \<in> set (events S) \<longrightarrow> stop_flag S)"

lemma service_okD:
  assumes "service_ok this_root sz c S xs val"
  shows "held_ok (singles this_root (building S) xs) sz c (intake_of S) val" "world (intake_of S) = s_links (sampling_of S)"
    "positions_ok this_root (events S) (building S) xs (holdings (owner (intake_of S)) val c)"
    "uses_ok (events S) (s_used (sampling_of S))" "owners_ok (events S) (owners S)"
    "round_ok this_root (pc_of S) (events S) xs"
    "lawful (events S)" "Stopped \<in> set (events S) \<longrightarrow> stop_flag S"
  using assms by (simp_all add: service_ok_def)

lemma service_ok_rings:
  assumes ok: "service_ok this_root sz c S xs val"
  shows "ring (s_links (sampling_of S)) (this_root # xs)" "distinct (this_root # xs)"
    "set xs \<inter> set_mset (holdings (owner (intake_of S)) val c) = {}"
    "p \<in> building S \<Longrightarrow> ring (s_links (sampling_of S)) [p]"
proof -
  note o = held_off [OF service_okD(1) [OF ok], unfolded service_okD(2) [OF ok]]
  show "ring (s_links (sampling_of S)) (this_root # xs)" using o [of "this_root # xs"] by (simp add: singles_def)
  then show "distinct (this_root # xs)" by (rule ring_distinct)
  show "set xs \<inter> set_mset (holdings (owner (intake_of S)) val c) = {}" using o [of "this_root # xs"] by (auto simp: singles_def)
  show "p \<in> building S \<Longrightarrow> ring (s_links (sampling_of S)) [p]" using o [of "[p]"] by (simp add: singles_def)
qed

text \<open>A sampler about to be scheduled is in no list.\<close>

lemma building_ready:
  assumes ok: "service_ok this_root sz c S xs val" and p: "p \<in> building S" "p \<in> ps"
  shows "ring (world (intake_of S)) [p] \<and> p \<notin># holdings (owner (intake_of S)) val c \<and>
    (\<forall>zs \<in> insert (this_root # xs) ((\<lambda>p. [p]) ` (building S - ps)). p \<notin> set zs)"
  using service_ok_rings(4) [OF ok p(1)] service_okD(2,3) [OF ok] p by (auto simp: positions_ok_def)

lemma new_ok:
  assumes "SamplerCollector_new c this_root res l = Some S"
  shows "\<exists>val. service_ok this_root sz c S [] val"
proof -
  let ?l = "LinkNode this_root l"
  obtain g where new: "Reducer_new None c (group_init None ?l) = Some g" and
    S: "S = \<lparr>intake_of = g, sampling_of = sampling_init ?l,
       pc_of = (if res = 0 then Testing else Over), created_flag = (res = 0), stop_flag = False,
       owners = (\<lambda>_. None), building = {}, events = []\<rparr>"
    using assms by (auto simp: SamplerCollector_new_def bind_eq_Some_conv)
  have none: "combiners (group_init None ?l) c = None" "identities None (group_init None ?l)"
    by (simp_all add: group_init_def identities_def)
  have "linked {[this_root]} ?l {#}" by (intro linked_empty) (simp add: LinkNode_ring)
  then have "accounts (linked {[this_root]}) (group_init None ?l) (\<lambda>_. {#}) {#}"
    by (simp add: accounts_def worths_def rest_def slots_def group_init_def)
  note n = intake.create_accounts [OF group_ok_init none new this]
  then have "held_ok {[this_root]} sz c g ((\<lambda>_. {#})(Global c := 0))" "world g = ?l"
    by (auto simp: held_ok_def group_init_def)
  then have "service_ok this_root sz c S [] ((\<lambda>_. {#})(Global c := 0))"
    using n by (simp add: service_ok_def S singles_def positions_ok_def uses_ok_def owners_ok_def round_ok_def sampling_init_def)
  then show ?thesis by blast
qed


section \<open>Every step keeps it\<close>

text \<open>A round is not changed by what is no visit and no border of a round.\<close>

lemma round_ok_event:
  "round_ok this_root pc tr xs \<Longrightarrow> e \<noteq> Begun \<Longrightarrow> (\<And>q. e \<noteq> Sampled q \<and> e \<noteq> Deleted q) \<Longrightarrow>
   round_ok this_root pc (e # tr) xs"
  by (cases pc) (simp_all add: round_ok_def visits_def)

lemma positions_ok_event:
  "positions_ok this_root tr B xs H \<Longrightarrow> (\<And>q. life (e # tr) q = life tr q) \<Longrightarrow> (\<And>q. scheduled (e # tr) q = scheduled tr q) \<Longrightarrow>
   positions_ok this_root (e # tr) B xs H"
  unfolding positions_ok_def by presburger

lemma positions_ok_made:
  "positions_ok this_root tr B xs H \<Longrightarrow> p \<noteq> this_root \<Longrightarrow> life tr p = Absent \<Longrightarrow>
   positions_ok this_root (Made p # tr) (insert p B) xs H"
  by (simp add: positions_ok_def) blast

lemma make_ok:
  assumes ok: "service_ok this_root sz c S xs val" and rs: "owners S r = Some rs" "window_sampler rs = None"
    and p: "p \<noteq> this_root" "life (events S) p = Absent"
  shows "service_ok this_root sz c (make_sampler r rs p S) xs val"
proof -
  let ?g = "intake_of S" and ?S = "make_sampler r rs p S" and ?tr = "events S"
  let ?l = "LinkNode p (world ?g)" and ?H = "holdings (owner ?g) val c"
  note d = service_okD [OF ok]
  have fresh: "p \<notin> set xs" "p \<notin># ?H" "p \<notin> building S" using d(3) p(2) by (auto simp: positions_ok_def)
  have f: "intake_of ?S = ?g\<lparr>world := ?l\<rparr>" "s_links (sampling_of ?S) = ?l" "building ?S = insert p (building S)"
    "events ?S = Made p # events S" "pc_of ?S = pc_of S" "stop_flag ?S = stop_flag S"
    "owners ?S = (owners S)(r := Some (rs\<lparr>window_sampler := Some p\<rparr>))"
    "s_used (sampling_of ?S) = (s_used (sampling_of S))(p := True)"
    by (simp_all add: make_sampler_def resampled_def Let_def d(2))
  have old: "ring (world ?g) zs \<and> set zs \<inter> set_mset ?H = {} \<and> p \<notin> set zs" if "zs \<in> singles this_root (building S) xs" for zs
    using held_off [OF d(1) that] that fresh p(1) by (auto simp: singles_def)
  have "held_ok (singles this_root (insert p (building S)) xs) sz c (?g\<lparr>world := ?l\<rparr>) val"
  proof (rule held_relink [OF d(1)])
    show "ring ?l zs" if "ring (world ?g) zs" "set zs \<subseteq> set_mset ?H" for zs
      using LinkNode_frame [OF that(1)] that(2) fresh(2) by auto
    show "ring ?l zs \<and> set zs \<inter> set_mset ?H = {}" if z: "zs \<in> singles this_root (insert p (building S)) xs" for zs
    proof (cases "zs = [p]")
      case False
      then have "zs \<in> singles this_root (building S) xs" using z by (auto simp: singles_def)
      then show ?thesis using old [of zs] LinkNode_frame [of "world ?g" zs p] by simp
    qed (use fresh(2) in \<open>simp add: LinkNode_ring\<close>)
  qed
  moreover have "positions_ok this_root (Made p # ?tr) (insert p (building S)) xs ?H"
    by (rule positions_ok_made [OF d(3) p])
  moreover have "uses_ok (Made p # ?tr) ((s_used (sampling_of S))(p := True))" using d(4) by (simp add: uses_ok_def)
  moreover have "owners_ok (Made p # ?tr) ((owners S)(r := Some (rs\<lparr>window_sampler := Some p\<rparr>)))"
  proof -
    have "\<And>r' rs'. owners S r' = Some rs' \<Longrightarrow> window_sampler rs' \<noteq> Some p" using d(5) p(2) by (auto simp: owners_ok_def)
    then show ?thesis using d(5) rs by (simp add: owners_ok_def) blast
  qed
  moreover have "round_ok this_root (pc_of S) (Made p # ?tr) xs" by (rule round_ok_event [OF d(6)]) simp_all
  ultimately show ?thesis using d(7,8) p(2) by (simp add: service_ok_def f allowed_def)
qed

lemma schedule_ok:
  assumes ok: "service_ok this_root sz c S xs val" and sz: "0 < sz" and p: "p \<in> building S"
  shows "\<exists>S' val'. schedule_sampler sz t c p S = Some S' \<and> service_ok this_root sz c S' xs val'"
proof -
  let ?F = "singles this_root (building S - {p}) xs"
  note d = service_okD [OF ok]
  have "held_ok ?F sz c (intake_of S) val" by (rule held_fewer [OF d(1)]) (auto simp: singles_def)
  from held_submit [OF this sz, of p t] building_ready [OF ok p, of "{p}"] obtain g val' where
    g: "schedule sz t c p (intake_of S) = Some g" "held_ok ?F sz c g val'"
      "holdings (owner g) val' c = holdings (owner (intake_of S)) val c + {#p#}" by (auto simp: singles_def)
  let ?S = "(relinked g S)\<lparr>building := building S - {p}, events := Scheduled p # events S\<rparr>"
  have life: "life (events S) p = Living" "\<not> scheduled (events S) p" using d(3) p by (auto simp: positions_ok_def)
  have "positions_ok this_root (Scheduled p # events S) (building S - {p}) xs (holdings (owner g) val' c)"
    using d(3) life p unfolding positions_ok_def g(3) by auto
  moreover have "uses_ok (Scheduled p # events S) (s_used (sampling_of S))"
    "owners_ok (Scheduled p # events S) (owners S)"
    using d(4,5) by (simp_all add: uses_ok_def owners_ok_def)
  moreover have "round_ok this_root (pc_of S) (Scheduled p # events S) xs" by (rule round_ok_event [OF d(6)]) simp_all
  ultimately have "service_ok this_root sz c ?S xs val'"
    using d(7,8) g(2) life by (simp add: service_ok_def relinked_def allowed_def)
  then show ?thesis by (intro exI [of _ ?S] exI [of _ val']) (simp add: schedule_sampler_def g(1))
qed

lemma exit_ok:
  assumes ok: "service_ok this_root sz c S xs val" and sz: "0 < sz"
    and ex: "exit_thread sz CombineSampler t (intake_of S) = Some g"
  shows "\<exists>val'. service_ok this_root sz c (relinked g S) xs val'"
proof -
  note d = service_okD [OF ok]
  obtain val' where g: "held_ok (singles this_root (building S) xs) sz c g val'"
    "holdings (owner g) val' c = holdings (owner (intake_of S)) val c" using held_exit [OF d(1) sz ex] by blast
  have "service_ok this_root sz c (relinked g S) xs val'"
    using g d by (simp add: service_ok_def relinked_def)
  then show ?thesis by blast
qed

lemma create_reducer_ok:
  assumes "service_ok this_root sz c S xs val" and "owners S r = None"
  shows "service_ok this_root sz c (S\<lparr>owners := (owners S)(r := Some reducer_samplers_init)\<rparr>) xs val"
proof -
  have "owners_ok (events S) ((owners S)(r := Some reducer_samplers_init))"
    using service_okD(5) [OF assms(1)] assms(2) by (simp add: owners_ok_def reducer_samplers_init_def)
  then show ?thesis using assms(1) by (simp add: service_ok_def)
qed

lemma owners_ok_drop:
  "owners_ok tr own \<Longrightarrow> own r = Some rs \<Longrightarrow> (\<And>q. life tr' q = Living \<longleftrightarrow> life tr q = Living \<and> window_sampler rs \<noteq> Some q) \<Longrightarrow>
   owners_ok tr' (own(r := None))"
  unfolding owners_ok_def by (auto split: if_splits)

lemma destroy_ok:
  assumes ok: "service_ok this_root sz c S xs val" and rs: "owners S r = Some rs"
    and quiet: "\<forall>p. window_sampler rs = Some p \<longrightarrow> p \<notin> building S"
  shows "service_ok this_root sz c (destroy_reducer r rs S) xs val"
proof -
  note d = service_okD [OF ok]
  have none: "series_sampler rs = None" using d(5) rs by (auto simp: owners_ok_def)
  show ?thesis
  proof (cases "window_sampler rs")
    case None
    have "owners_ok (events S) ((owners S)(r := None))" by (rule owners_ok_drop [OF d(5) rs]) (simp add: None)
    moreover have "destroy_reducer r rs S = S\<lparr>owners := (owners S)(r := None)\<rparr>"
      using None none by (simp add: destroy_reducer_def Reducer_destruct_def)
    ultimately show ?thesis using ok by (simp add: service_ok_def)
  next
    case (Some p)
    let ?tr = "Destroyed p # events S"
    have life: "life (events S) p = Living" using d(5) rs Some by (auto simp: owners_ok_def)
    have f: "destroy_reducer r rs S = S\<lparr>sampling_of := sampler_destroy p (sampling_of S), owners := (owners S)(r := None),
        events := ?tr\<rparr>"
      using Some none by (simp add: destroy_reducer_def Reducer_destruct_def)
    have s: "s_links (sampler_destroy p (sampling_of S)) = s_links (sampling_of S)"
      "s_used (sampler_destroy p (sampling_of S)) = (s_used (sampling_of S))(p := False)"
      by (simp_all add: sampler_destroy_def)
    have nb: "p \<notin> building S" using quiet Some by simp
    then have sch: "scheduled (events S) p" using d(3) life by (auto simp: positions_ok_def)
    have "positions_ok this_root ?tr (building S) xs (holdings (owner (intake_of S)) val c)"
      using d(3) life nb unfolding positions_ok_def by auto
    moreover have "uses_ok ?tr ((s_used (sampling_of S))(p := False))" using d(4) by (simp add: uses_ok_def)
    moreover have "owners_ok ?tr ((owners S)(r := None))"
      by (rule owners_ok_drop [OF d(5) rs]) (auto simp: Some)
    moreover have "round_ok this_root (pc_of S) ?tr xs" by (rule round_ok_event [OF d(6)]) simp_all
    ultimately show ?thesis using d(1,2,7,8) life sch by (simp add: service_ok_def f s allowed_def)
  qed
qed

lemma stop_ok:
  assumes ok: "service_ok this_root sz c S xs val" and "stop_sampling S = Some S'"
  shows "service_ok this_root sz c S' xs val"
proof -
  note d = service_okD [OF ok]
  have S': "S' = S\<lparr>stop_flag := True, events := Stopped # events S\<rparr>"
    using assms(2) by (auto simp: stop_sampling_def split: if_splits)
  have "positions_ok this_root (Stopped # events S) (building S) xs (holdings (owner (intake_of S)) val c)"
    by (rule positions_ok_event [OF d(3)]) simp_all
  moreover have "round_ok this_root (pc_of S) (Stopped # events S) xs" by (rule round_ok_event [OF d(6)]) simp_all
  moreover have "uses_ok (Stopped # events S) (s_used (sampling_of S))" "owners_ok (Stopped # events S) (owners S)"
    using d(4,5) by (simp_all add: uses_ok_def owners_ok_def)
  ultimately show ?thesis using ok by (simp add: service_ok_def S' allowed_def)
qed

lemma join_ok: "service_ok this_root sz c S xs val \<Longrightarrow> join_sampling S = Some S' \<Longrightarrow> service_ok this_root sz c S' xs val"
  by (auto simp: join_sampling_def service_ok_def split: if_splits)

text \<open>The steps of the sampling thread.\<close>

lemma over_ok: "service_ok this_root sz c S xs val \<Longrightarrow> service_ok this_root sz c (S\<lparr>pc_of := Over\<rparr>) xs val"
  by (simp add: service_ok_def round_ok_def)

lemma positions_ok_begin:
  assumes ok: "positions_ok this_root tr B xs H" and ps: "set ps \<subseteq> B"
    and split: "\<And>p. p \<in> set ys \<or> p \<in># H' \<longleftrightarrow> p \<in># H \<or> p \<in> set ps"
  shows "positions_ok this_root (map Scheduled ps @ Begun # tr) (B - set ps) (xs @ ys) H'"
proof -
  have s: "p \<in> set (xs @ ys) \<or> p \<in># H' \<longleftrightarrow> p \<in> set xs \<or> p \<in># H \<or> p \<in> set ps" for p
    using split [of p] by auto
  have "\<forall>p \<in> B - set ps. life tr p = Living \<and> p \<notin> set (xs @ ys) \<and> p \<notin># H'"
    using ok s by (simp add: positions_ok_def) blast
  moreover have "life tr p \<noteq> Absent \<longleftrightarrow> p \<in> set (xs @ ys) \<or> p \<in># H' \<or> p \<in> B - set ps" for p
    using ok s [of p] ps by (simp add: positions_ok_def) blast
  moreover have "p \<in> set ps \<or> scheduled tr p \<longleftrightarrow> p \<in> set (xs @ ys) \<or> p \<in># H'" for p
    using ok s [of p] by (simp add: positions_ok_def) blast
  ultimately show ?thesis using ok unfolding positions_ok_def by simp
qed

text \<open>A ring outside the list of scheduled samplers is a sampler under construction.\<close>

lemma singles_building:
  assumes ok: "service_ok this_root sz c S xs val" and z: "zs \<in> singles this_root (building S) ys" "zs \<noteq> this_root # ys"
  shows "ring (world (intake_of S)) zs" "set zs \<inter> set (this_root # xs) = {}"
    "set zs \<inter> set_mset (holdings (owner (intake_of S)) val c) = {}"
proof -
  note d = service_okD [OF ok]
  obtain q where q: "zs = [q]" "q \<in> building S" using z by (auto simp: singles_def)
  have "life (events S) q = Living" "q \<notin> set xs" using q(2) d(3) by (auto simp: positions_ok_def)
  then show "set zs \<inter> set (this_root # xs) = {}" using d(3) q(1) by (auto simp: positions_ok_def)
  show "ring (world (intake_of S)) zs" "set zs \<inter> set_mset (holdings (owner (intake_of S)) val c) = {}"
    using held_off [OF d(1), of zs] q by (simp_all add: singles_def)
qed

text \<open>What \<open>take_over\<close> links: the samplers the reset returned, behind the ones of earlier rounds.\<close>

lemma taken_over_linked:
  assumes ok: "service_ok this_root sz c S xs val" and held: "held_ok (singles this_root (building S - set ps) xs) sz c g val'"
    and ring_ys: "case h of None \<Rightarrow> ys = [] | Some p \<Rightarrow> ring (world g) ys \<and> hd ys = p"
    and H: "set ys \<inter> set_mset (holdings (owner g) val' c) = {}"
    and F: "\<forall>zs \<in> singles this_root (building S - set ps) xs. set ys \<inter> set zs = {}"
    and st: "st = take_over this_root h ((sampling_of S)\<lparr>s_links := world g\<rparr>)"
  shows "ring (s_links st) (this_root # xs @ ys)"
    and "held_ok (singles this_root (building S - set ps) (xs @ ys)) sz c (g\<lparr>world := s_links st\<rparr>) val'"
proof -
  note d = service_okD [OF ok]
  let ?B = "building S - set ps" and ?H' = "holdings (owner g) val' c"
  have r: "ring (world g) (this_root # xs)" "set (this_root # xs) \<inter> set_mset ?H' = {}"
    using held_off [OF held, of "this_root # xs"] by (simp_all add: singles_def)
  have dis: "set ys \<inter> set (this_root # xs) = {}" using F by (simp add: singles_def)
  have l: "ring (s_links ((sampling_of S)\<lparr>s_links := world g\<rparr>)) (this_root # xs)"
    "case h of None \<Rightarrow> ys = [] | Some p \<Rightarrow> ring (s_links ((sampling_of S)\<lparr>s_links := world g\<rparr>)) ys \<and> hd ys = p"
    using r(1) ring_ys by (simp_all split: option.splits)
  show joined: "ring (s_links st) (this_root # xs @ ys)" unfolding st by (rule take_over_ring(1) [OF l dis])
  have frame: "ring (s_links st) zs" if "ring (world g) zs" "set zs \<inter> (set (this_root # xs) \<union> set ys) = {}" for zs
    unfolding st by (rule take_over_ring(2) [OF l dis]) (use that in simp_all)
  show "held_ok (singles this_root ?B (xs @ ys)) sz c (g\<lparr>world := s_links st\<rparr>) val'"
  proof (rule held_relink [OF held])
    show "ring (s_links st) zs" if "ring (world g) zs" "set zs \<subseteq> set_mset ?H'" for zs
      by (rule frame [OF that(1)]) (use that(2) r(2) H in auto)
    show "ring (s_links st) zs \<and> set zs \<inter> set_mset ?H' = {}" if z: "zs \<in> singles this_root ?B (xs @ ys)" for zs
    proof (cases "zs = this_root # xs @ ys")
      case True
      then show ?thesis using joined r(2) H by auto
    next
      case False
      then have z': "zs \<in> singles this_root ?B xs" "zs \<in> singles this_root (building S) (xs @ ys)"
        using z by (auto simp: singles_def)
      then have "set zs \<inter> set (this_root # xs) = {}" "set ys \<inter> set zs = {}"
        using singles_building(2) [OF ok z'(2) False] F by blast+
      then show ?thesis using frame [of zs] held_off [OF held z'(1)] by blast
    qed
  qed
qed

lemma begin_ok:
  assumes ok: "service_ok this_root sz c S xs val" and go: "\<not> stop_flag S" and ps: "distinct ps" "set ps \<subseteq> building S"
    and t: "taken sz c (intake_of S) (concat (map others [0..<card {a. owner (intake_of S) a = Some c}])) = map Some ps"
  shows "\<exists>S' ys val'. begin_round this_root sz c others ps now S = Some S' \<and> service_ok this_root sz c S' (xs @ ys) val'"
proof -
  let ?B = "building S - set ps"
  let ?F = "singles this_root ?B xs" and ?H = "holdings (owner (intake_of S)) val c"
  note d = service_okD [OF ok]
  have F: "held_ok ?F sz c (intake_of S) val" by (rule held_fewer [OF d(1)]) (auto simp: singles_def)
  have ready: "ring (world (intake_of S)) [p] \<and> p \<notin># ?H \<and> (\<forall>zs \<in> ?F. p \<notin> set zs)" if "p \<in> set ps" for p
    using building_ready [OF ok _ that] ps(2) that unfolding singles_def by blast
  have "\<exists>h g' val' ys got. reset sz CombineSampler others c (intake_of S) = Some (h, g') \<and> held_ok ?F sz c g' val' \<and>
    mset ys = ?H + got \<and> got + holdings (owner g') val' c = mset ps \<and>
    (case h of None \<Rightarrow> ys = [] | Some p \<Rightarrow> ring (world g') ys \<and> hd ys = p) \<and>
    set ys \<inter> set_mset (holdings (owner g') val' c) = {} \<and> (\<forall>zs \<in> ?F. set ys \<inter> set zs = {})"
    by (rule held_reset [OF F ps(1) ready t])
  then obtain h g val' ys got where res: "reset sz CombineSampler others c (intake_of S) = Some (h, g)" "held_ok ?F sz c g val'"
    and ys: "mset ys = ?H + got" "got + holdings (owner g) val' c = mset ps"
      "case h of None \<Rightarrow> ys = [] | Some p \<Rightarrow> ring (world g) ys \<and> hd ys = p"
      "set ys \<inter> set_mset (holdings (owner g) val' c) = {}" "\<forall>zs \<in> ?F. set ys \<inter> set zs = {}"
    by (elim exE conjE) (rule that)
  let ?H' = "holdings (owner g) val' c" and ?tr = "map Scheduled ps @ Begun # events S"
  let ?st = "take_over this_root h ((sampling_of S)\<lparr>s_links := world g\<rparr>)"
  let ?pc = "Looping now (next_ptr (s_links ?st) this_root)"
  let ?S = "(resampled ?st (relinked g S))\<lparr>pc_of := ?pc, building := ?B, events := ?tr\<rparr>"
  have run: "begin_round this_root sz c others ps now S = Some ?S"
    using go res(1) by (simp add: begin_round_def Let_def relinked_def)
  have split: "p \<in> set ys \<or> p \<in># ?H' \<longleftrightarrow> p \<in># ?H \<or> p \<in> set ps" for p
  proof -
    have "mset ys + ?H' = ?H + mset ps" unfolding ys(1) ys(2) [symmetric] by (simp add: add.assoc)
    then have "set_mset (mset ys + ?H') = set_mset (?H + mset ps)" by simp
    then show ?thesis by auto
  qed
  have old: "p \<in> set ys" if "p \<in># ?H" for p
  proof -
    have "p \<in># mset ys" unfolding ys(1) using that by simp
    then show ?thesis by simp
  qed
  note linked = taken_over_linked [OF ok res(2) ys(3-5) refl]
  have "held_ok (singles this_root ?B (xs @ ys)) sz c (g\<lparr>world := s_links ?st\<rparr>) val'" by (rule linked(2))
  moreover have "positions_ok this_root ?tr ?B (xs @ ys) ?H'" by (rule positions_ok_begin [OF d(3) ps(2) split])
  moreover have "uses_ok ?tr (s_used (sampling_of S))" "owners_ok ?tr (owners S)"
    using d(4,5) by (simp_all add: uses_ok_def owners_ok_def)
  moreover have "round_ok this_root ?pc ?tr (xs @ ys)"
  proof -
    have "next_ptr (s_links ?st) this_root = hd ((xs @ ys) @ [this_root])" using linked(1) by (simp add: ring_next_hd)
    moreover have "\<forall>q. scheduled (events S) q \<longrightarrow> q \<in> set (xs @ ys)"
      using d(3) old by (auto simp: positions_ok_def)
    ultimately show ?thesis unfolding round_ok_def by (simp, intro exI [of _ "[]"] exI [of _ "xs @ ys"]) simp
  qed
  moreover have "lawful ?tr"
    using lawful_scheduled_app [OF ps(1), of "Begun # events S"] ps(2) d(3,7,8) go by (auto simp: positions_ok_def allowed_def)
  moreover have "Stopped \<in> set ?tr \<longrightarrow> stop_flag S" using d(8) by auto
  ultimately have "service_ok this_root sz c ?S (xs @ ys) val'"
    by (simp add: service_ok_def resampled_def relinked_def take_over_fields)
  then show ?thesis using run by blast
qed

lemma visit_alone:
  "s_used (visit {} p st) = s_used st"
  "s_links (visit {} p st) = (if s_used st p then s_links st else remove_from_list p (s_links st))"
  by (simp_all add: visit_def Let_def)

lemma round_ok_visit:
  assumes r: "round_ok this_root (Looping start p) tr xs" and d: "distinct (this_root # xs)" and p: "p \<noteq> this_root"
  obtains vs ts where "xs = vs @ p # ts"
    "\<And>e xs'. e = Sampled p \<and> xs' = vs @ p # ts \<or> e = Deleted p \<and> xs' = vs @ ts \<Longrightarrow>
      round_ok this_root (Looping start (hd (ts @ [this_root]))) (e # tr) xs'"
proof -
  obtain vs zs where z: "xs = vs @ zs" "p = hd (zs @ [this_root])" "\<forall>q \<in> set zs. visits (this_round tr) q = 0"
    "\<forall>q. scheduled (before_round tr) q \<longrightarrow> q \<notin> set zs \<longrightarrow> visits (this_round tr) q = 1"
    using r by (auto simp: round_ok_def)
  obtain ts where ts: "zs = p # ts" using z(2) p by (cases zs) auto
  have "p \<notin> set ts" using d by (simp add: z(1) ts)
  have "round_ok this_root (Looping start (hd (ts @ [this_root]))) (e # tr) xs'"
    if e: "e = Sampled p \<and> xs' = vs @ p # ts \<or> e = Deleted p \<and> xs' = vs @ ts" for e xs'
  proof -
    have v: "visits (this_round (e # tr)) q = (if q = p then Suc (visits (this_round tr) q) else visits (this_round tr) q)" for q
      using e by (auto simp: visits_def)
    have b: "before_round (e # tr) = before_round tr" using e by auto
    have "visits (this_round tr) p = 0" using z(3) ts by simp
    then have "(\<forall>q \<in> set ts. visits (this_round (e # tr)) q = 0) \<and>
      (\<forall>q. scheduled (before_round tr) q \<longrightarrow> q \<notin> set ts \<longrightarrow> visits (this_round (e # tr)) q = 1)"
      unfolding v using z(3,4) ts \<open>p \<notin> set ts\<close> by auto
    moreover obtain vs' where "xs' = vs' @ ts" using e by (metis append.assoc append_Cons append_Nil)
    ultimately show ?thesis
      unfolding round_ok_def b thread_pc.case by (intro exI [of _ vs'] exI [of _ ts]) simp
  qed
  with z(1) ts that show ?thesis by blast
qed

lemma positions_ok_delete:
  "positions_ok this_root tr B (vs @ p # ts) H \<Longrightarrow> distinct (vs @ p # ts) \<Longrightarrow> p \<notin># H \<Longrightarrow>
   positions_ok this_root (Deleted p # tr) B (vs @ ts) H"
  unfolding positions_ok_def by auto

lemma visit_used_ok:
  assumes ok: "service_ok this_root sz c S xs val" and p: "p \<in> set xs" and used: "s_used (sampling_of S) p"
    and pc: "next_ptr (s_links (sampling_of S)) p = q" "round_ok this_root (Looping start q) (Sampled p # events S) xs"
  shows "service_ok this_root sz c (visit_next start p S) xs val"
proof -
  note d = service_okD [OF ok]
  let ?st = "sampling_of S" and ?H = "holdings (owner (intake_of S)) val c" and ?tr = "events S"
  have here: "life ?tr p \<noteq> Absent" "scheduled ?tr p" using d(3) p by (auto simp: positions_ok_def)
  have life: "life ?tr p = Living" using d(4) used here(1) by (cases "life ?tr p") (auto simp: uses_ok_def)
  have "positions_ok this_root (Sampled p # ?tr) (building S) xs ?H" by (rule positions_ok_event [OF d(3)]) simp_all
  moreover have "uses_ok (Sampled p # ?tr) (s_used ?st)" "owners_ok (Sampled p # ?tr) (owners S)"
    using d(4,5) by (simp_all add: uses_ok_def owners_ok_def)
  ultimately show ?thesis
    using d(1,2,7,8) life here(2) used pc(2)
    by (simp add: service_ok_def visit_next_def resampled_def Let_def visit_alone pc(1) [folded d(2)] allowed_def flip: d(2))
qed

lemma held_unlinked:
  assumes ok: "service_ok this_root sz c S (vs @ p # ts) val"
  shows "held_ok (singles this_root (building S) (vs @ ts)) sz c
    ((intake_of S)\<lparr>world := remove_from_list p (world (intake_of S))\<rparr>) val"
proof -
  note d = service_okD [OF ok] and rg = service_ok_rings [OF ok]
  let ?xs = "vs @ p # ts" and ?l = "remove_from_list p (world (intake_of S))" and ?H = "holdings (owner (intake_of S)) val c"
  have whole: "ring (world (intake_of S)) (p # ts @ this_root # vs)"
    using ring_append_commute [of "s_links (sampling_of S)" "this_root # vs" "p # ts"] rg(1) d(2) by simp
  have "ring ?l (ts @ this_root # vs)" by (rule remove_from_list_ring [OF whole]) simp
  then have rest: "ring ?l (this_root # vs @ ts)" using ring_append_commute [of ?l ts "this_root # vs"] by simp
  have frame: "ring ?l zs" if "ring (world (intake_of S)) zs" "set zs \<inter> set (this_root # ?xs) = {}" for zs
    by (rule remove_from_list_frame [OF whole that(1)]) (use that(2) in auto)
  have off: "set (this_root # ?xs) \<inter> set_mset ?H = {}" using held_off [OF d(1), of "this_root # ?xs"] by (simp add: singles_def)
  show ?thesis
  proof (rule held_relink [OF d(1)])
    show "ring ?l zs" if "ring (world (intake_of S)) zs" "set zs \<subseteq> set_mset ?H" for zs
      by (rule frame [OF that(1)]) (use that(2) off in auto)
    show "ring ?l zs \<and> set zs \<inter> set_mset ?H = {}" if z: "zs \<in> singles this_root (building S) (vs @ ts)" for zs
      using singles_building [OF ok z] frame [of zs] rest off by (cases "zs = this_root # vs @ ts") auto
  qed
qed

lemma visit_deleted_ok:
  assumes ok: "service_ok this_root sz c S (vs @ p # ts) val" and unused: "\<not> s_used (sampling_of S) p"
    and pc: "next_ptr (s_links (sampling_of S)) p = q" "round_ok this_root (Looping start q) (Deleted p # events S) (vs @ ts)"
  shows "service_ok this_root sz c (visit_next start p S) (vs @ ts) val"
proof -
  note d = service_okD [OF ok] and rg = service_ok_rings [OF ok]
  let ?l = "remove_from_list p (world (intake_of S))" and ?st = "sampling_of S" and ?tr = "events S"
  let ?H = "holdings (owner (intake_of S)) val c"
  have here: "life ?tr p \<noteq> Absent" "scheduled ?tr p" using d(3) by (simp_all add: positions_ok_def)
  have life: "life ?tr p = Doomed" using d(4) unused here(1) by (cases "life ?tr p") (auto simp: uses_ok_def)
  have dis: "distinct (vs @ p # ts)" "p \<notin># ?H" using rg(2,3) by auto
  have "positions_ok this_root (Deleted p # ?tr) (building S) (vs @ ts) ?H" by (rule positions_ok_delete [OF d(3) dis])
  moreover have "uses_ok (Deleted p # ?tr) (s_used ?st)" using d(4) by (simp add: uses_ok_def)
  moreover have "owners_ok (Deleted p # ?tr) (owners S)" using d(5) life by (auto simp: owners_ok_def)
  moreover have "intake_of (visit_next start p S) = (intake_of S)\<lparr>world := ?l\<rparr>"
    "s_links (sampling_of (visit_next start p S)) = ?l" "s_used (sampling_of (visit_next start p S)) = s_used ?st"
    "pc_of (visit_next start p S) = Looping start q" "building (visit_next start p S) = building S"
    "owners (visit_next start p S) = owners S" "stop_flag (visit_next start p S) = stop_flag S"
    "events (visit_next start p S) = Deleted p # ?tr"
    by (simp_all add: visit_next_def resampled_def Let_def visit_alone pc(1) unused d(2))
  ultimately show ?thesis
    using held_unlinked [OF ok] d(7,8) life here(2) pc(2) by (simp add: service_ok_def allowed_def)
qed

lemma visit_ok:
  assumes ok: "service_ok this_root sz c S xs val" and pc: "pc_of S = Looping start p" and p: "p \<noteq> this_root"
  shows "\<exists>vs vs' ts. xs = vs @ p # ts \<and> service_ok this_root sz c (visit_next start p S) (vs' @ ts) val \<and>
    pc_of (visit_next start p S) = Looping start (hd (ts @ [this_root]))"
proof -
  note d = service_okD [OF ok] and rg = service_ok_rings [OF ok]
  obtain vs ts where xs: "xs = vs @ p # ts" and next_round:
    "\<And>e xs'. e = Sampled p \<and> xs' = vs @ p # ts \<or> e = Deleted p \<and> xs' = vs @ ts \<Longrightarrow>
      round_ok this_root (Looping start (hd (ts @ [this_root]))) (e # events S) xs'"
    by (rule round_ok_visit [OF d(6) [unfolded pc] rg(2) p]) (rule that)
  have nx: "next_ptr (s_links (sampling_of S)) p = hd (ts @ [this_root])"
    using ring_next_middle [of "s_links (sampling_of S)" "this_root # vs" p ts] rg(1) by (cases ts) (simp_all add: xs)
  have after: "pc_of (visit_next start p S) = Looping start (hd (ts @ [this_root]))"
    by (simp add: visit_next_def Let_def nx)
  show ?thesis
  proof (cases "s_used (sampling_of S) p")
    case True
    have "service_ok this_root sz c (visit_next start p S) xs val"
      by (rule visit_used_ok [OF ok _ True nx next_round]) (simp_all add: xs)
    then show ?thesis using after by (intro exI [of _ vs] exI [of _ "vs @ [p]"] exI [of _ ts]) (simp add: xs)
  next
    case False
    have "service_ok this_root sz c (visit_next start p S) (vs @ ts) val"
      by (rule visit_deleted_ok [OF ok [unfolded xs] False nx next_round]) simp
    then show ?thesis using after by (intro exI [of _ vs] exI [of _ vs] exI [of _ ts]) (simp add: xs)
  qed
qed

lemma round_end_links: "round_end start now clock st = Some st' \<Longrightarrow> s_links st' = s_links st \<and> s_used st' = s_used st"
  by (auto simp: round_end_def bind_eq_Some_conv Let_def split: if_splits)

lemma finish_ok:
  assumes ok: "service_ok this_root sz c S xs val" and pc: "pc_of S = Looping start this_root"
    and run: "finish_round start now clock S = Some S'"
  shows "service_ok this_root sz c S' xs val"
proof -
  note d = service_okD [OF ok] and rg = service_ok_rings [OF ok]
  obtain st where st: "round_end start now clock (sampling_of S) = Some st"
    "S' = (resampled st S)\<lparr>pc_of := Testing, events := Finished # events S\<rparr>"
    using run by (auto simp: finish_round_def bind_eq_Some_conv)
  obtain vs zs where z: "xs = vs @ zs" "this_root = hd (zs @ [this_root])"
    "\<forall>q. scheduled (before_round (events S)) q \<longrightarrow> q \<notin> set zs \<longrightarrow> visits (this_round (events S)) q = 1"
    using d(6) pc by (auto simp: round_ok_def)
  have "zs = []" using z(1,2) rg(2) by (cases zs) auto
  then have "allowed Finished (events S)" using z(3) by (simp add: allowed_def)
  moreover have "positions_ok this_root (Finished # events S) (building S) xs (holdings (owner (intake_of S)) val c)"
    by (rule positions_ok_event [OF d(3)]) simp_all
  moreover have "uses_ok (Finished # events S) (s_used (sampling_of S))" "owners_ok (Finished # events S) (owners S)"
    using d(4,5) by (simp_all add: uses_ok_def owners_ok_def)
  moreover have "held_ok (singles this_root (building S) xs) sz c ((intake_of S)\<lparr>world := s_links (sampling_of S)\<rparr>) val"
    unfolding d(2) [symmetric] using d(1) by simp
  ultimately show ?thesis
    using d(1,2,7,8) round_end_links [OF st(1)] by (simp add: service_ok_def st(2) resampled_def round_ok_def)
qed

section \<open>All reachable states\<close>

lemma service_step_ok:
  assumes "service_step this_root sz c S S'" and sz: "0 < sz" and ok: "service_ok this_root sz c S xs val"
  shows "\<exists>xs' val'. service_ok this_root sz c S' xs' val'"
  using assms(1)
proof cases
  case (of_thread now ps others clock)
  show ?thesis
  proof (cases "pc_of S")
    case Testing
    show ?thesis
    proof (cases "stop_flag S")
      case True
      then show ?thesis using of_thread(4) Testing over_ok [OF ok] by (auto simp: thread_step_def begin_round_def)
    next
      case False
      from of_thread(3) [OF Testing] have "distinct ps" "set ps \<subseteq> building S"
        "taken sz c (intake_of S) (concat (map others [0..<card {a. owner (intake_of S) a = Some c}])) = map Some ps"
        by simp_all
      from begin_ok [OF ok False this, of now] show ?thesis using of_thread(4) Testing by (auto simp: thread_step_def)
    qed
  next
    case (Looping start p)
    show ?thesis
    proof (cases "p = this_root")
      case True
      then have "pc_of S = Looping start this_root" "finish_round start now clock S = Some S'"
        using of_thread(4) Looping by (simp_all add: thread_step_def)
      from finish_ok [OF ok this] show ?thesis by blast
    next
      case False
      then have "S' = visit_next start p S" using of_thread(4) Looping by (simp add: thread_step_def)
      then show ?thesis using visit_ok [OF ok Looping False] by blast
    qed
  next
    case Over
    then show ?thesis using of_thread(4) by (simp add: thread_step_def)
  qed
next
  case of_creator
  then show ?thesis using create_reducer_ok [OF ok] by blast
next
  case of_maker
  then show ?thesis using make_ok [OF ok] by blast
next
  case (of_scheduler p t)
  then show ?thesis using schedule_ok [OF ok sz of_scheduler(1), of t] by auto
next
  case of_destroyer
  then show ?thesis using destroy_ok [OF ok] by blast
next
  case of_exiting
  then show ?thesis using exit_ok [OF ok sz] by blast
next
  case of_stopper
  then show ?thesis using stop_ok [OF ok] by blast
next
  case of_joiner
  then show ?thesis using join_ok [OF ok] by blast
qed

lemma service_invariant:
  "service_reach this_root sz c S \<Longrightarrow> 0 < sz \<Longrightarrow> \<exists>xs val. service_ok this_root sz c S xs val"
proof (induction rule: service_reach.induct)
  case (start res l S)
  then show ?case using new_ok by blast
next
  case (step S S')
  then show ?case using service_step_ok by blast
qed

section \<open>The clock and the end of the thread\<close>

definition times_ok :: "service \<Rightarrow> bool" where
  "times_ok S \<longleftrightarrow> long_range (cumulated_time_us (sampling_of S)) \<and>
     (case pc_of S of Looping start p \<Rightarrow> 0 \<le> start \<and> start < 2 ^ 62 | _ \<Rightarrow> True)"

text \<open>The sleep returns when the clock reaches its end.\<close>

lemma sleep_until_returns:
  "i \<le> n \<Longrightarrow> abstime \<le> clock n \<Longrightarrow> \<exists>b. sleep_until clock i abstime now slept = Some b"
proof (induction "n - i" arbitrary: i now slept)
  case 0
  then show ?case by (subst sleep_until.simps) (auto simp: sleep_until.simps [of clock "Suc i" abstime "clock i" True])
next
  case (Suc k)
  then show ?case using Suc.hyps(1) [of "i + 1"] by (subst sleep_until.simps) simp
qed

lemma round_end_returns:
  assumes "long_range (now - start)" and "long_range (cumulated_time_us st + (now - start))"
    and "long_range (start + 1000000)" and "start + 1000000 \<le> clock n"
  shows "\<exists>st'. round_end start now clock st = Some st' \<and> cumulated_time_us st' = cumulated_time_us st + (now - start)"
  using sleep_until_returns [of 0 n "start + 1000000" clock now False] assms
  by (auto simp: round_end_def chk_long_def Let_def)

lemma round_end_time: "round_end start now clock st = Some st' \<Longrightarrow> long_range (cumulated_time_us st')"
  by (auto simp: round_end_def chk_long_def bind_eq_Some_conv Let_def split: if_splits)

lemma service_step_times:
  assumes "service_step this_root sz c S S'" and ok: "times_ok S"
  shows "times_ok S'"
  using assms(1)
proof cases
  case (of_thread now ps others clock)
  have over: "cumulated_time_us (take_over r s st) = cumulated_time_us st" for r s st
    by (simp add: take_over_def Let_def split: option.split)
  show ?thesis
    using of_thread(1,2,4) ok
    by (cases "pc_of S")
      (auto simp: thread_step_def begin_round_def finish_round_def visit_next_def resampled_def relinked_def times_ok_def
        Let_def over visit_fields bind_eq_Some_conv round_end_time split: if_splits)
next
  case (of_destroyer r rs)
  have "cumulated_time_us (snd (Reducer_destruct rs st)) = cumulated_time_us st" for st
    by (simp add: Reducer_destruct_def sampler_destroy_def Let_def split: option.split)
  then show ?thesis using ok by (simp add: of_destroyer(1) destroy_reducer_def times_ok_def split_beta)
qed (use ok in \<open>auto simp: times_ok_def make_sampler_def resampled_def schedule_sampler_def relinked_def
      stop_sampling_def join_sampling_def Let_def bind_eq_Some_conv split: if_splits\<close>)

lemma service_times: "service_reach this_root sz c S \<Longrightarrow> times_ok S"
proof (induction rule: service_reach.induct)
  case (start res l S)
  then show ?case
    by (auto simp: SamplerCollector_new_def times_ok_def sampling_init_def long_range_def bind_eq_Some_conv)
next
  case (step S S')
  then show ?case using service_step_times by blast
qed

text \<open>The sampling thread by itself, \<open>n\<close> steps.\<close>

inductive thread_alone :: "u64 \<Rightarrow> nat \<Rightarrow> nat \<Rightarrow> nat \<Rightarrow> service \<Rightarrow> service \<Rightarrow> bool" for this_root sz c where
  idle: "thread_alone this_root sz c 0 S S"
| more: "0 \<le> now \<Longrightarrow> now < 2 ^ 62 \<Longrightarrow> thread_step this_root sz c (\<lambda>_. []) [] now clock S = Some S' \<Longrightarrow>
    thread_alone this_root sz c n S' S'' \<Longrightarrow> thread_alone this_root sz c (Suc n) S S''"

lemma stopped_thread_ends:
  assumes "service_ok this_root sz c S xs val" and "times_ok S" and "stop_flag S" and "created_flag S"
  shows "\<exists>n S'. thread_alone this_root sz c n S S' \<and> n \<le> length xs + 2 \<and> join_sampling S' \<noteq> None"
proof -
  have at_test: "thread_alone this_root sz c 1 S (S\<lparr>pc_of := Over\<rparr>) \<and> join_sampling (S\<lparr>pc_of := Over\<rparr>) \<noteq> None"
    if "pc_of S = Testing" "stop_flag S" "created_flag S" for S
  proof -
    have "thread_alone this_root sz c (Suc 0) S (S\<lparr>pc_of := Over\<rparr>)"
      by (rule thread_alone.more [of 0 _ _ _ "\<lambda>_. 0" _ "S\<lparr>pc_of := Over\<rparr>"])
        (use that in \<open>simp_all add: thread_step_def begin_round_def thread_alone.idle\<close>)
    then show ?thesis using that by (simp add: join_sampling_def)
  qed
  have in_loop: "\<exists>n S'. thread_alone this_root sz c n S S' \<and> n \<le> length ts + 2 \<and> join_sampling S' \<noteq> None"
    if "service_ok this_root sz c S (vs @ ts) val" "pc_of S = Looping start (hd (ts @ [this_root]))" "times_ok S"
      "stop_flag S" "created_flag S" for S vs ts start
    using that
  proof (induction ts arbitrary: S vs)
    case Nil
    have t: "0 \<le> start" "start < 2 ^ 62" "long_range (cumulated_time_us (sampling_of S))"
      using Nil.prems(2,3) by (simp_all add: times_ok_def)
    then obtain st where st: "round_end start start (\<lambda>_. start + 1000000) (sampling_of S) = Some st"
      using round_end_returns [of start start "sampling_of S" "\<lambda>_. start + 1000000" 0] by (auto simp: long_range_def)
    let ?S = "(resampled st S)\<lparr>pc_of := Testing, events := Finished # events S\<rparr>"
    have "thread_alone this_root sz c (Suc 1) S (?S\<lparr>pc_of := Over\<rparr>)"
      by (rule thread_alone.more [of start _ _ _ "\<lambda>_. start + 1000000" _ ?S])
        (use t Nil.prems at_test [of ?S] st in \<open>simp_all add: thread_step_def finish_round_def resampled_def\<close>)
    then show ?case using at_test [of ?S] Nil.prems
      by (intro exI [of _ 2] exI [of _ "?S\<lparr>pc_of := Over\<rparr>"]) (simp add: resampled_def numeral_2_eq_2)
  next
    case (Cons p ts)
    note rg = service_ok_rings [OF Cons.prems(1)]
    let ?S = "visit_next start p S"
    have p: "p \<noteq> this_root" using rg(2) by auto
    have f: "stop_flag ?S = stop_flag S" "created_flag ?S = created_flag S" "times_ok ?S"
      using Cons.prems(2,3) by (simp_all add: visit_next_def resampled_def times_ok_def Let_def visit_fields)
    have "pc_of S = Looping start p" using Cons.prems(2) by simp
    from visit_ok [OF Cons.prems(1) this p] obtain us vs' zs where z: "vs @ p # ts = us @ p # zs"
      "service_ok this_root sz c ?S (vs' @ zs) val" "pc_of ?S = Looping start (hd (zs @ [this_root]))" by blast
    have "p \<notin> set vs" "p \<notin> set ts" using rg(2) by auto
    from append_Cons_eq_iff [OF this, of us zs] have "ts = zs" using z(1) by simp
    then have vs': "service_ok this_root sz c ?S (vs' @ ts) val" "pc_of ?S = Looping start (hd (ts @ [this_root]))"
      using z(2,3) by simp_all
    from Cons.IH [OF vs'] f Cons.prems(4,5) obtain n S' where
      n: "thread_alone this_root sz c n ?S S'" "n \<le> length ts + 2" "join_sampling S' \<noteq> None" by auto
    have "thread_alone this_root sz c (Suc n) S S'"
      by (rule thread_alone.more [of 0 _ _ _ "\<lambda>_. 0", OF _ _ _ n(1)])
        (use p Cons.prems(2) in \<open>simp_all add: thread_step_def\<close>)
    then show ?case using n(2,3) by (intro exI [of _ "Suc n"] exI [of _ S']) simp
  qed
  show ?thesis
  proof (cases "pc_of S")
    case Testing
    then show ?thesis using at_test [of S] assms(3,4) by (intro exI [of _ 1] exI [of _ "S\<lparr>pc_of := Over\<rparr>"]) simp
  next
    case (Looping start p)
    obtain vs ts where z: "xs = vs @ ts" "p = hd (ts @ [this_root])"
      using service_okD(6) [OF assms(1)] by (auto simp: round_ok_def Looping)
    from in_loop [of S vs ts start] assms z Looping show ?thesis by fastforce
  next
    case Over
    then show ?thesis using assms(3,4)
      by (intro exI [of _ 0] exI [of _ S]) (simp add: thread_alone.idle join_sampling_def)
  qed
qed

section \<open>The property\<close>

lemma lawful_split: "lawful (bs @ e # tr) \<Longrightarrow> allowed e tr \<and> lawful tr"
  by (induction bs) auto

lemma rounds_of_split:
  "Begun \<notin> set bs \<Longrightarrow> this_round (bs @ Begun # tr) = bs \<and> before_round (bs @ Begun # tr) = tr"
  by (induction bs) auto

lemma doomed_deleted_in_round:
  assumes "lawful (bs @ Begun # tr)" and "life tr p = Doomed" and "visits bs p = 1"
  shows "Deleted p \<in> set bs"
proof (rule ccontr)
  assume n: "Deleted p \<notin> set bs"
  then have "Sampled p \<notin> set bs" using doomed_until_deleted [OF assms(1), of p] assms(2) by simp
  then have "visits bs p = 0" using n by (simp add: visits_def count_list_0_iff)
  then show False using assms(3) by simp
qed

text \<open>
  C15. The life of a sampler. Whatever the threads of a process do, one step at a time: the sampling
  thread samples a sampler only while the reducer that owns it exists, so never after the reducer was
  destroyed and the sampler with it; a reducer destroys only a sampler that is still there; the thread
  deletes a sampler only after that, and once. In a complete round it visits every sampler scheduled before
  the round exactly once, and deletes it if it was destroyed by then. No round begins after the destructor of the collector
  asked the thread to stop; from then on, as long as the clock goes on, the thread needs only its own steps,
  at most two more than there are samplers, to end and let the destructor return.
\<close>

theorem samplers_live_and_die:
  assumes "service_reach this_root sz c S" and "0 < sz"
  shows "(\<forall>as bs p. events S = bs @ Sampled p # as \<longrightarrow> life as p = Living) \<and>
    (\<forall>as bs p. events S = bs @ Destroyed p # as \<longrightarrow> life as p = Living) \<and>
    (\<forall>as bs p. events S = bs @ Deleted p # as \<longrightarrow> life as p = Doomed) \<and>
    (\<forall>as bs cs p. events S = cs @ Finished # bs @ Begun # as \<longrightarrow> Begun \<notin> set bs \<longrightarrow> scheduled as p \<longrightarrow>
      visits bs p = 1 \<and> (life as p = Doomed \<longrightarrow> Deleted p \<in> set bs)) \<and>
    (\<forall>as bs. events S = bs @ Stopped # as \<longrightarrow> Begun \<notin> set bs) \<and>
    (stop_flag S \<longrightarrow> created_flag S \<longrightarrow> (\<exists>n S' xs. ring (s_links (sampling_of S)) (this_root # xs) \<and>
      thread_alone this_root sz c n S S' \<and> n \<le> length xs + 2 \<and> join_sampling S' \<noteq> None))"
proof -
  obtain xs val where ok: "service_ok this_root sz c S xs val" using service_invariant [OF assms] by blast
  note l = service_okD(7) [OF ok]
  have at: "allowed e as \<and> lawful as" if "events S = bs @ e # as" for e as bs
    by (rule lawful_split [of bs]) (use l that in simp)
  have rounds: "visits bs p = 1 \<and> (life as p = Doomed \<longrightarrow> Deleted p \<in> set bs)"
    if e: "events S = cs @ Finished # bs @ Begun # as" and b: "Begun \<notin> set bs" and p: "scheduled as p" for as bs cs p
  proof -
    have "allowed Finished (bs @ Begun # as)" "lawful (bs @ Begun # as)" using at [OF e] by simp_all
    then show ?thesis
      using p rounds_of_split [OF b, of as] doomed_deleted_in_round [of bs as p] by (simp add: allowed_def)
  qed
  have stopped: "Begun \<notin> set bs" if e: "events S = bs @ Stopped # as" for as bs
  proof
    assume "Begun \<in> set bs"
    then obtain us vs where "bs = us @ Begun # vs" using split_list by metis
    then show False using at [of us Begun "vs @ Stopped # as"] e by (simp add: allowed_def)
  qed
  have "ring (s_links (sampling_of S)) (this_root # xs)" by (rule service_ok_rings(1) [OF ok])
  then show ?thesis
    using at rounds stopped stopped_thread_ends [OF ok service_times [OF assms(1)]]
    by (fastforce simp: allowed_def)
qed

theorem samplers_live_and_die_witness:
  "\<exists>S. service_reach 3 2048 7 S \<and> events S = [Stopped, Destroyed 10, Scheduled 10, Made 10] \<and>
    (\<exists>n S' xs. ring (s_links (sampling_of S)) (3 # xs) \<and> thread_alone 3 2048 7 n S S' \<and> n \<le> length xs + 2 \<and>
      join_sampling S' \<noteq> None)"
proof -
  have sz: "0 < (2048 :: nat)" by simp
  obtain S0 where "SamplerCollector_new 7 3 0 example_links = Some S0"
    by (simp add: SamplerCollector_new_def Reducer_new_def AgentCombiner_new_def group_init_def create_new_agent_def
        agent_ids_init_def Let_def)
  then have r0: "service_reach 3 2048 7 S0" and e0: "events S0 = []" "owners S0 0 = None" "created_flag S0" "\<not> stop_flag S0"
    by (auto simp: SamplerCollector_new_def bind_eq_Some_conv intro: service_reach.start)
  let ?S1 = "S0\<lparr>owners := (owners S0)(0 := Some reducer_samplers_init)\<rparr>"
  let ?S2 = "make_sampler 0 reducer_samplers_init 10 ?S1"
  have r1: "service_reach 3 2048 7 ?S1" by (rule service_reach.step [OF r0 of_creator [OF e0(2)]])
  have "service_step 3 2048 7 ?S1 ?S2" by (rule of_maker) (simp_all add: e0 reducer_samplers_init_def)
  then have r2: "service_reach 3 2048 7 ?S2" by (rule service_reach.step [OF r1])
  have f2: "10 \<in> building ?S2" "events ?S2 = [Made 10]" "created_flag ?S2" "\<not> stop_flag ?S2"
    "owners ?S2 0 = Some (reducer_samplers_init\<lparr>window_sampler := Some 10\<rparr>)"
    by (simp_all add: make_sampler_def resampled_def e0 Let_def)
  obtain xs val where "service_ok 3 2048 7 ?S2 xs val" using service_invariant [OF r2 sz] by blast
  from schedule_ok [OF this sz f2(1), of 0] obtain S3 where s3: "schedule_sampler 2048 0 7 10 ?S2 = Some S3" by blast
  then have r3: "service_reach 3 2048 7 S3" by (rule service_reach.step [OF r2 of_scheduler [OF f2(1)]])
  have f3: "10 \<notin> building S3" "events S3 = [Scheduled 10, Made 10]" "created_flag S3" "\<not> stop_flag S3" "owners S3 = owners ?S2"
    using s3 f2(2-4) by (auto simp: schedule_sampler_def relinked_def bind_eq_Some_conv)
  let ?rs = "reducer_samplers_init\<lparr>window_sampler := Some 10\<rparr>"
  have "service_step 3 2048 7 S3 (destroy_reducer 0 ?rs S3)" using f3(1,5) f2(5) by (intro of_destroyer) simp_all
  then have r4: "service_reach 3 2048 7 (destroy_reducer 0 ?rs S3)" by (rule service_reach.step [OF r3])
  let ?S5 = "(destroy_reducer 0 ?rs S3)\<lparr>stop_flag := True, events := Stopped # events (destroy_reducer 0 ?rs S3)\<rparr>"
  have "stop_sampling (destroy_reducer 0 ?rs S3) = Some ?S5"
    using f3(3,4) by (simp add: stop_sampling_def destroy_reducer_def split_beta)
  then have r5: "service_reach 3 2048 7 ?S5" by (rule service_reach.step [OF r4 of_stopper])
  have "events ?S5 = [Stopped, Destroyed 10, Scheduled 10, Made 10]" "stop_flag ?S5" "created_flag ?S5"
    using f3(2,3) by (simp_all add: destroy_reducer_def split_beta)
  then show ?thesis using samplers_live_and_die [OF r5 sz] r5 by blast
qed

end
