(* ===== verification/Windowed.thy ===== *)
theory Windowed
  imports Sampler Reducer_Total
begin

text \<open>
  A sampler on its reducer: \<^verbatim>\<open>ReducerSampler::take_sample\<close> (\<^verbatim>\<open>src/common/sampler.h\<close>) calls \<^verbatim>\<open>reset\<close> or
  \<^verbatim>\<open>get_value\<close> of \<^verbatim>\<open>src/common/reducer.h\<close>. For a reducer that adds, the value over a window is what
  threads submitted during the window.
\<close>

section \<open>Sampling a reducer\<close>

text \<open>What a sample is read with: \<open>reset\<close> when there is no inverse operation.\<close>

definition read_reducer ::
  "nat \<Rightarrow> ('v, 'w) binary_op \<Rightarrow> ('v \<Rightarrow> 'v \<Rightarrow> 'v) option \<Rightarrow> (nat \<Rightarrow> (nat \<times> 'v) list) \<Rightarrow> nat \<Rightarrow> ('v, 'w) group \<Rightarrow>
     ('v \<times> ('v, 'w) group) option" where
  "read_reducer sz opr inv_op others c g =
     (if inv_op = None then reset sz opr others c g else get_value sz opr others c g)"

text \<open>A period: threads submit values, then the sampling thread takes a sample.\<close>

type_synonym 'v period = "(nat \<times> 'v) list \<times> int"

definition submit_all :: "nat \<Rightarrow> nat \<Rightarrow> (nat \<times> 'v :: cancel_comm_monoid_add) list \<Rightarrow> ('v, unit) group \<Rightarrow> ('v, unit) group option" where
  "submit_all sz c ms g = foldM (\<lambda>m g. submit sz add_op (fst m) c (snd m) g) ms g"

definition run_period ::
  "nat \<Rightarrow> nat \<Rightarrow> nat \<Rightarrow> 'v :: cancel_comm_monoid_add period \<Rightarrow> 'v ReducerSampler \<times> ('v, unit) group \<Rightarrow>
     ('v ReducerSampler \<times> ('v, unit) group) option" where
  "run_period isz sz c p sg = do {
     g \<leftarrow> submit_all sz c (fst p) (snd sg);
     take_sample isz True (read_reducer sz add_op None (\<lambda>_. []) c) (snd p) (fst sg, g) }"

definition submitted_in :: "'v :: comm_monoid_add period \<Rightarrow> 'v" where
  "submitted_in p = (\<Sum>m\<leftarrow>fst p. snd m)"

section \<open>A reducer between two samples\<close>

definition awaiting :: "nat \<Rightarrow> nat \<Rightarrow> ('v :: cancel_comm_monoid_add, unit) group \<Rightarrow> 'v \<Rightarrow> bool" where
  "awaiting sz c g x \<longleftrightarrow> group_ok sz g \<and> identities 0 g \<and> combiners g c \<noteq> None \<and>
     (\<exists>val. accounts exact g val {#} \<and> holdings (owner g) val c = x)"

lemma awaitingI:
  "group_ok sz g \<Longrightarrow> identities 0 g \<Longrightarrow> combiners g c \<noteq> None \<Longrightarrow> accounts exact g val {#} \<Longrightarrow>
   holdings (owner g) val c = x \<Longrightarrow> awaiting sz c g x"
  by (auto simp: awaiting_def)

lemma awaitingE:
  assumes "awaiting sz c g x"
  obtains k val where "group_ok sz g" "identities 0 g" "combiners g c = Some k" "accounts exact g val {#}"
    "holdings (owner g) val c = x"
  using assms by (auto simp: awaiting_def)

lemma submit_awaiting:
  assumes "awaiting sz c g x" and sz: "0 < sz"
  shows "\<exists>g'. submit sz add_op t c v g = Some g' \<and> awaiting sz c g' (x + v)"
proof -
  obtain k val where a: "group_ok sz g" "identities 0 g" "combiners g c = Some k" "accounts exact g val {#}"
    "holdings (owner g) val c = x" using assms(1) by (rule awaitingE)
  have acc: "accounts exact g val (add_mset (v, v) {#})" using a(4) by (simp add: accounts_def exact_def)
  obtain g' val' where g': "submit sz add_op t c v g = Some g'" "group_ok sz g'" "identities 0 g'"
    "accounts exact g' val' {#}" "dom (combiners g') = dom (combiners g)"
    "holdings (owner g') val' c = holdings (owner g) val c + v"
    using adder.submit_accounts [OF a(1) sz a(3,2) acc, of t] by blast
  have "c \<in> dom (combiners g')" using a(3) g'(5) by auto
  then show ?thesis using g' a(5) by (intro exI [of _ g'] conjI awaitingI [of _ _ _ val']) auto
qed

lemma submit_all_awaiting:
  "awaiting sz c g x \<Longrightarrow> 0 < sz \<Longrightarrow> \<exists>g'. submit_all sz c ms g = Some g' \<and> awaiting sz c g' (x + (\<Sum>m\<leftarrow>ms. snd m))"
proof (induction ms arbitrary: g x)
  case (Cons m ms)
  obtain g1 where "submit sz add_op (fst m) c (snd m) g = Some g1" "awaiting sz c g1 (x + snd m)"
    using submit_awaiting [OF Cons.prems] by blast
  with Cons.IH [of g1 "x + snd m"] Cons.prems(2) show ?case by (simp add: submit_all_def add.assoc)
qed (simp add: submit_all_def)

lemma reset_awaiting:
  assumes "awaiting sz c g x"
  shows "\<exists>g'. read_reducer sz add_op None (\<lambda>_. []) c g = Some (x, g') \<and> awaiting sz c g' 0"
proof -
  obtain k val where a: "group_ok sz g" "identities 0 g" "combiners g c = Some k" "accounts exact g val {#}"
    "holdings (owner g) val c = x" using assms by (rule awaitingE)
  let ?n = "card {a. owner g a = Some c}"
  have t: "taken sz c g (concat (map (\<lambda>_. []) [0..<?n])) = []" by (simp add: taken_def)
  have acc: "accounts exact g val (pairs id (taken sz c g (concat (map (\<lambda>_. []) [0..<?n]))) + {#})"
    using a(4) by (simp add: t)
  obtain r y val' h e w where
    r: "reset_all_agents sz add_op (\<lambda>_. []) c g = Some (r, g\<lparr>combiners := (combiners g)(c := Some h), element := e, world := w\<rparr>)"
    and g': "group_ok sz (g\<lparr>combiners := (combiners g)(c := Some h), element := e, world := w\<rparr>)"
      "identities 0 (g\<lparr>combiners := (combiners g)(c := Some h), element := e, world := w\<rparr>)"
      "accounts exact (g\<lparr>combiners := (combiners g)(c := Some h), element := e, world := w\<rparr>) val' (add_mset (r, y) {#})"
    and sum: "y + holdings (owner g) val' c = holdings (owner g) val c +
      (\<Sum>v\<leftarrow>taken sz c g (concat (map (\<lambda>_. []) [0..<?n])). id v)"
    and left: "(\<forall>j. (\<lambda>_ :: nat. [] :: (nat \<times> 'a) list) j = []) \<longrightarrow> holdings (owner g) val' c = 0"
    using adder.reset_accounts [OF a(1,3,2) refl acc] by blast
  have zero: "holdings (owner g) val' c = 0" using left by simp
  then have y: "y = x" using sum a(5) by (simp add: t)
  have "r = y" using g'(3) by (simp add: accounts_def exact_def)
  moreover have "accounts exact (g\<lparr>combiners := (combiners g)(c := Some h), element := e, world := w\<rparr>) val' {#}"
    using g'(3) by (simp add: accounts_def exact_def)
  ultimately show ?thesis using r g'(1,2) zero y
    by (intro exI [of _ "g\<lparr>combiners := (combiners g)(c := Some h), element := e, world := w\<rparr>"] conjI awaitingI [of _ _ _ val'])
      (simp_all add: read_reducer_def reset_def)
qed

lemma new_awaiting:
  assumes "Reducer_new 0 c (group_init v ()) = Some g"
  shows "awaiting sz c g 0"
proof -
  have none: "combiners (group_init v ()) c = None" "identities 0 (group_init v ())"
    by (simp_all add: group_init_def identities_def)
  have acc: "accounts exact (group_init v ()) (\<lambda>_. 0) {#}"
    by (simp add: accounts_def exact_def worths_def rest_def slots_def group_init_def)
  note r = adder.create_accounts [OF group_ok_init none assms acc]
  then have "c \<in> dom (combiners g)" by auto
  then show ?thesis using r by (intro awaitingI [of _ _ _ "(\<lambda>_. 0)(Global c := 0)"]) auto
qed

section \<open>Periods as uses of the sampler\<close>

definition as_use :: "'v :: comm_monoid_add period \<Rightarrow> 'v sampler_use" where
  "as_use p = Take (submitted_in p) (snd p)"

lemma take_sample_read:
  assumes "holds s xs" and "0 < isz" "isz * 7200 < 2 ^ 64" and "read g = Some (v, g')"
  shows "take_sample isz True read now (s, g) = map_option (\<lambda>s'. (s', g')) (sampler_step isz (Take v now) s)"
proof -
  obtain s1 where "make_ready isz True s = Some (s1, True)" using make_ready_holds(3) [OF assms(1-3)] by blast
  then show ?thesis using assms(4)
    by (cases "elim_push \<lparr>data = v, time_us = now\<rparr> (samples_q s1)") (simp_all add: take_sample_def)
qed

lemma periods_run:
  assumes sz: "0 < sz" and isz: "0 < isz" "isz * 7200 < 2 ^ 64"
  shows "awaiting sz c g 0 \<Longrightarrow> holds s xs \<Longrightarrow>
    \<exists>s' g'. foldM (run_period isz sz c) ps (s, g) = Some (s', g') \<and>
      foldM (sampler_step isz) (map as_use ps) s = Some s' \<and> awaiting sz c g' 0"
proof (induction ps arbitrary: s g xs)
  case (Cons p ps)
  obtain g1 where g1: "submit_all sz c (fst p) g = Some g1" "awaiting sz c g1 (submitted_in p)"
    using submit_all_awaiting [OF Cons.prems(1) sz, of "fst p"] by (auto simp: submitted_in_def)
  obtain g2 where g2: "read_reducer sz add_op None (\<lambda>_. []) c g1 = Some (submitted_in p, g2)" "awaiting sz c g2 0"
    using reset_awaiting [OF g1(2)] by blast
  obtain s1 ys where s1: "take_sample isz True (\<lambda>g. Some (submitted_in p, g)) (snd p) (s, ()) = Some (s1, ())" "holds s1 ys"
    using take_sample_holds [where read = "\<lambda>g. Some (submitted_in p, g)" and g = "()", OF Cons.prems(2) isz refl] by blast
  then have st: "sampler_step isz (as_use p) s = Some s1" by (simp add: as_use_def)
  have "run_period isz sz c p (s, g) = Some (s1, g2)"
    using take_sample_read [where read = "read_reducer sz add_op None (\<lambda>_. []) c" and g = g1, OF Cons.prems(2) isz g2(1), of "snd p"] st g1(1)
    by (simp add: run_period_def as_use_def)
  then show ?case using Cons.IH [OF g2(2) s1(2)] st by simp
qed simp

lemma history_periods: "history (map as_use ps) = map (\<lambda>p. \<lparr>data = submitted_in p, time_us = snd p\<rparr>) ps"
  by (induction ps) (simp_all add: as_use_def)

lemma since_periods: "since_widened n (map as_use ps) = n + length ps"
  by (induction ps arbitrary: n) (simp_all add: as_use_def)

lemma widest_periods: "widest k (map as_use ps) = k"
  by (induction ps) (simp_all add: as_use_def)

lemma foldl_plus: "foldl (+) (a :: 'v :: comm_monoid_add) xs = a + sum_list xs"
  by (induction xs arbitrary: a) (simp_all add: add.assoc)

text \<open>The window over the values of \<open>ps\<close>, of which there are more than it covers.\<close>

lemma window_of_periods:
  fixes ps :: "'v :: comm_monoid_add period list"
  assumes "0 < w" and "nat w < length ps"
  shows "window_value (+) None w (x # map (\<lambda>p. \<lparr>data = submitted_in p, time_us = snd p\<rparr>) ps) =
    Some \<lparr>data = (\<Sum>p\<leftarrow>lastn (nat w) ps. submitted_in p),
          time_us = snd (last ps) - snd (ps ! (length ps - Suc (nat w)))\<rparr>"
proof -
  let ?S = "\<lambda>p :: 'v period. \<lparr>data = submitted_in p, time_us = snd p\<rparr>"
  define r where "r = rev ps"
  have r: "nat w < length r" "r \<noteq> []" using assms(2) by (auto simp: r_def)
  have ys: "rev (x # map ?S ps) = map ?S r @ [x]" by (simp add: r_def rev_map)
  have c: "covered w (x # map ?S ps) = nat w" using assms(2) by (simp add: covered_def)
  have hd: "hd (map ?S r @ [x]) = ?S (hd r)" and tl: "tl (map ?S r @ [x]) = map ?S (tl r) @ [x]"
    using r(2) by (simp_all add: hd_map map_tl)
  have nth: "(map ?S r @ [x]) ! nat w = ?S (r ! nat w)" using r(1) by (simp add: nth_append)
  obtain k where k: "nat w = Suc k" using assms(1) by (cases "nat w") auto
  have tk: "map data (take (nat w - 1) (map ?S (tl r) @ [x])) = map submitted_in (take k (tl r))"
    using r(1) by (simp add: k take_map comp_def)
  have "submitted_in (hd r) + sum_list (map submitted_in (take k (tl r))) = sum_list (map submitted_in (take (nat w) r))"
    using r(2) by (cases r) (simp_all add: k)
  also have "take (nat w) r = rev (lastn (nat w) ps)" using assms(2) by (simp add: r_def lastn_def rev_drop)
  also have "sum_list (map submitted_in (rev (lastn (nat w) ps))) = sum_list (map submitted_in (lastn (nat w) ps))"
    by (simp flip: rev_map)
  finally have sum: "submitted_in (hd r) + sum_list (map submitted_in (take k (tl r))) =
    sum_list (map submitted_in (lastn (nat w) ps))" .
  define Y where "Y = map ?S r @ [x]"
  have "ps \<noteq> []" using assms(2) by auto
  then have "hd r = last ps" "r ! nat w = ps ! (length ps - Suc (nat w))"
    using assms(2) by (simp_all add: r_def hd_rev rev_nth)
  then have Y: "rev (x # map ?S ps) = Y" "hd Y = ?S (last ps)" "Y ! nat w = ?S (ps ! (length ps - Suc (nat w)))"
    "foldl (+) (data (hd Y)) (map data (take (nat w - 1) (tl Y))) = sum_list (map submitted_in (lastn (nat w) ps))"
    using sum by (simp_all only: Y_def ys hd tl nth tk foldl_plus Sample.select_convs)
  show ?thesis using assms \<open>ps \<noteq> []\<close> Y(4) [unfolded Y(2)] unfolding window_value_def Y(1) c Let_def option.case Y(2,3)
    by simp
qed

text \<open>What a window of a sampled reducer shows.\<close>

lemma windowed_reducer:
  fixes v :: "'v :: cancel_comm_monoid_add"
  assumes sz: "0 < sz" and isz: "0 < isz" "isz * 7200 < 2 ^ 64"
    and new: "Reducer_new 0 c (group_init v ()) = Some g"
    and w: "0 < w" "w \<le> W" "W \<le> MAX_SECONDS_LIMIT" "nat w < length ps"
    and t: "0 \<le> now0 \<and> long_range now0" "\<forall>p \<in> set ps. 0 \<le> snd p \<and> long_range (snd p)"
  shows "\<exists>s0 g0 s g'. ReducerSampler_new isz True (read_reducer sz add_op None (\<lambda>_. []) c) now0 g = Some (s0, g0) \<and>
    foldM (run_period isz sz c) ps (fst (set_window_size W s0), g0) = Some (s, g') \<and>
    sampler_get_value (+) None w s = Some (Some
      \<lparr>data = (\<Sum>p\<leftarrow>lastn (nat w) ps. submitted_in p),
       time_us = snd (last ps) - snd (ps ! (length ps - Suc (nat w)))\<rparr>)"
proof -
  obtain g0 where g0: "read_reducer sz add_op None (\<lambda>_. []) c g = Some (0, g0)" "awaiting sz c g0 0"
    using reset_awaiting [OF new_awaiting [OF new]] by blast
  obtain s0 where s0: "ReducerSampler_new isz True (read_reducer sz add_op None (\<lambda>_. []) c) now0 g = Some (s0, g0)"
    "window_size s0 = 1" "holds s0 [\<lparr>data = 0, time_us = now0\<rparr>]"
    using new_sampler_holds [where read = "read_reducer sz add_op None (\<lambda>_. []) c" and g = g, OF isz g0(1), of now0] by blast
  let ?s = "fst (set_window_size W s0)"
  note wide = set_window_size_holds [OF s0(3), of W]
  have W: "window_size ?s = W" using wide w(1-3) s0(2) by simp
  obtain s g' where run: "foldM (run_period isz sz c) ps (?s, g0) = Some (s, g')"
    "foldM (sampler_step isz) (map as_use ps) ?s = Some s"
    using periods_run [OF sz isz g0(2) conjunct1 [OF wide]] by blast
  have "[\<lparr>data = 0, time_us = now0\<rparr>] = drop 0 [\<lparr>data = 0, time_us = now0\<rparr>]"
    "min 1 (nat (window_size ?s) + 1) \<le> length [\<lparr>data = 0 :: 'v, time_us = now0\<rparr>]" by simp_all
  from sampler_runs [OF isz conjunct1 [OF wide] this, of "map as_use ps"] run(2) W obtain m where
    h: "holds s (drop m ([\<lparr>data = 0, time_us = now0\<rparr>] @ history (map as_use ps)))"
    "window_size s = W"
    "min (1 + length ps) (nat W + 1) \<le> length (drop m ([\<lparr>data = 0, time_us = now0\<rparr>] @ history (map as_use ps)))"
    unfolding since_periods widest_periods by auto
  let ?hist = "\<lparr>data = 0, time_us = now0\<rparr> # map (\<lambda>p. \<lparr>data = submitted_in p, time_us = snd p\<rparr>) ps"
  have "\<forall>x \<in> set ?hist. 0 \<le> time_us x \<and> long_range (time_us x)" using t by auto
  then have "\<forall>x \<in> set (drop m ?hist). 0 \<le> time_us x \<and> long_range (time_us x)" using in_set_dropD by fast
  moreover have "holds s (drop m ?hist)" using h(1) by (simp add: history_periods)
  moreover have "long_range w" using w(1-3) by (simp add: long_range_def MAX_SECONDS_LIMIT_def)
  ultimately have "sampler_get_value (+) None w s = Some (window_value (+) None w (drop m ?hist))"
    by (intro sampler_value_rep(1))
  moreover have "nat w + 1 \<le> length (drop m ?hist)"
    using h(3) w(2,4) by (simp add: history_periods)
  ultimately show ?thesis using window_drop(1) [of w m ?hist "(+)" None] window_of_periods [OF w(1,4)] w(1) s0(1) run(1)
    by auto
qed

end
