(* ===== verification/Series_Sampler.thy ===== *)
theory Series_Sampler
  imports Time_Series Windowed
begin

text \<open>
  \<^verbatim>\<open>Reducer::SeriesSampler\<close> (\<^verbatim>\<open>src/common/reducer.h\<close>): the trend of a reducer, one value of the reducer a
  second appended to a series (\<^verbatim>\<open>src/common/series.h\<close>). For a reducer that adds, the trend of the last
  minute shows the running totals of what threads submitted. (No code of the repository creates one.)
\<close>

section \<open>Operations\<close>

text \<open>\<open>take_sample\<close> and \<open>describe\<close>; \<open>op_value\<close> is the operation on values, \<open>opr\<close> with the memory it may change.\<close>

definition series_take_sample ::
  "nat \<Rightarrow> ('v, 'w) binary_op \<Rightarrow> ('v \<Rightarrow> 'v \<Rightarrow> 'v) \<Rightarrow> (nat \<Rightarrow> (nat \<times> 'v) list) \<Rightarrow> nat \<Rightarrow> 'v series \<times> ('v, 'w) group \<Rightarrow>
     ('v series \<times> ('v, 'w) group) option" where
  "series_take_sample sz opr op_value others owner_c sg = do {
     (v, g) \<leftarrow> get_value sz opr others owner_c (snd sg);
     Some (series_append op_value v (fst sg), g) }"

definition series_describe :: "('v \<Rightarrow> string) \<Rightarrow> 'v series \<Rightarrow> string" where
  "series_describe show st = describe show st"

text \<open>A second: threads submit values, then the sample is taken.\<close>

definition series_period ::
  "nat \<Rightarrow> nat \<Rightarrow> (nat \<times> 'v :: cancel_comm_monoid_add) list \<Rightarrow> 'v series \<times> ('v, unit) group \<Rightarrow> ('v series \<times> ('v, unit) group) option" where
  "series_period sz c ms sg = do {
     g \<leftarrow> submit_all sz c ms (snd sg);
     series_take_sample sz add_op (+) (\<lambda>_. []) c (fst sg, g) }"

text \<open>The totals after each second, from \<open>x\<close> on.\<close>

fun totals :: "'v :: comm_monoid_add \<Rightarrow> (nat \<times> 'v) list list \<Rightarrow> 'v list" where
  "totals x [] = []"
| "totals x (ms # ps) = (let y = x + (\<Sum>m\<leftarrow>ms. snd m) in y # totals y ps)"

section \<open>The trend of a reducer that adds\<close>

lemma get_value_awaiting:
  assumes "awaiting sz c g x"
  shows "get_value sz add_op (\<lambda>_. []) c g = Some (x, g)"
proof -
  obtain k val where a: "group_ok sz g" "identities 0 g" "combiners g c = Some k" "accounts exact g val {#}"
    "holdings (owner g) val c = x" using assms by (rule awaitingE)
  have "mset (taken sz c g (concat (map (\<lambda>_. []) [0..<n]))) = {#}" for n by (simp add: taken_def)
  then have v: "get_value sz add_op (\<lambda>_. []) c g = Some (sum_of g c, g\<lparr>element := element g\<rparr>)"
    using get_value_sum [OF a(1,3) refl, of "\<lambda>_. []"] by auto
  have "sum_of g c = x" using sum_of_eq [OF a(1,4)] a(3,5) by simp
  then show ?thesis by (simp add: v)
qed

lemma series_periods:
  "awaiting sz c g x \<Longrightarrow> 0 < sz \<Longrightarrow>
   \<exists>g'. foldM (series_period sz c) ps (st, g) = Some (fold (series_append (+)) (totals x ps) st, g')"
proof (induction ps arbitrary: g x st)
  case (Cons ms ps)
  let ?y = "x + (\<Sum>m\<leftarrow>ms. snd m)"
  obtain g1 where g1: "submit_all sz c ms g = Some g1" "awaiting sz c g1 ?y"
    using submit_all_awaiting [OF Cons.prems, of ms] by blast
  then have "series_period sz c ms (st, g) = Some (series_append (+) ?y st, g1)"
    by (simp add: series_period_def series_take_sample_def get_value_awaiting)
  then show ?case using Cons.IH [OF g1(2) Cons.prems(2), of "series_append (+) ?y st"] by (simp add: Let_def)
qed simp

lemma length_totals [simp]: "length (totals x ps) = length ps"
  by (induction ps arbitrary: x) (simp_all add: Let_def)

text \<open>
  The trend of the last minute: when a new adding reducer was sampled for at least 60 seconds, the last
  60 values of the trend are the totals of everything submitted up to each of these seconds.
\<close>

theorem series_shows_totals:
  fixes v :: "'v :: cancel_comm_monoid_add"
  assumes "0 < sz" and "Reducer_new 0 c (group_init v ()) = Some g" and "length cells = 174" and "60 \<le> length ps"
  shows "\<exists>st g'. foldM (series_period sz c) ps (SeriesBase_init cells, g) = Some (st, g') \<and>
    drop 114 (trend st) = lastn 60 (totals 0 ps)"
proof -
  have "awaiting sz c g 0" by (rule new_awaiting [OF assms(2)])
  from series_periods [OF this assms(1), of ps "SeriesBase_init cells"] obtain g' where
    "foldM (series_period sz c) ps (SeriesBase_init cells, g) = Some (series_run (+) cells (totals 0 ps), g')"
    by (auto simp: series_run_def)
  then show ?thesis using trend_latest [OF assms(3), of "totals 0 ps" "(+)"] assms(4) by auto
qed

end
