(* ===== verification/Profiling.thy ===== *)
theory Profiling
  imports Sample_Intake Profiler
begin

text \<open>
  A profiling session from the submission of samples to the file: the steps of submitting threads,
  grab thread and dump thread of \<open>Sample_Intake\<close>, where the dump thread gives each sample to the
  session of \<open>Profiler\<close> (\<^verbatim>\<open>SampledContention::dump_and_destroy\<close>) and the grab thread returns the
  samples it drops to the object pool (\<^verbatim>\<open>SampledContention::destroy\<close>). A sample is an object of the
  pool: its address and what the hook wrote into it.
\<close>

section \<open>Steps\<close>

text \<open>What a step of the collector does to the session: the samples destroyed, then the ones dumped.\<close>

definition deliver :: "bool \<Rightarrow> (u64 list \<Rightarrow> u64 list) \<Rightarrow> u64 list \<Rightarrow> u64 list \<Rightarrow> session \<Rightarrow> session" where
  "deliver removed order dead out s = fold (sample_dump_and_destroy removed True order) out (fold destroy dead s)"

text \<open>
  In a step threads fill the objects \<open>ps\<close> with the records \<open>recs\<close> and submit them; an object that the
  session still caches is not handed out by the pool.
\<close>

definition filled :: "u64 list \<Rightarrow> (u64 \<Rightarrow> SampledContention) \<Rightarrow> session \<Rightarrow> session" where
  "filled ps recs s = s\<lparr>heap := (\<lambda>p. if p \<in> set ps then recs p else heap s p)\<rparr>"

definition profile_step ::
  "surroundings \<Rightarrow> nat \<Rightarrow> nat \<Rightarrow> bool \<Rightarrow> (u64 list \<Rightarrow> u64 list) \<Rightarrow> u64 list \<Rightarrow> intake \<Rightarrow> collector \<Rightarrow> session \<Rightarrow>
     u64 list \<Rightarrow> (u64 \<Rightarrow> SampledContention) \<Rightarrow> intake \<Rightarrow> collector \<Rightarrow> session \<Rightarrow> bool" where
  "profile_step w sz c removed order subs g st s ps recs g' st' s' \<longleftrightarrow>
     system_step w sz c subs g st ps g' st' \<and> set ps \<inter> set (cached s) = {} \<and>
     s' = deliver removed order (drop (length (destroyed st)) (destroyed st'))
       (map snd (drop (length (dumped st)) (dumped st'))) (filled ps recs s)"

text \<open>
  The collector lives longer than a session: what is on its way when a session starts was submitted
  in an earlier one and will reach this one. \<open>D\<close> and \<open>L\<close> are the numbers of samples that were dumped
  and dropped before.
\<close>

definition under_way :: "u64 list \<Rightarrow> collector \<Rightarrow> u64 multiset" where
  "under_way subs st = mset subs - (mset (destroyed st) + mset (map snd (dumped st)))"

definition session_started ::
  "surroundings \<Rightarrow> nat \<Rightarrow> nat \<Rightarrow> string \<Rightarrow> bool \<Rightarrow> nat \<Rightarrow> nat \<Rightarrow> u64 list \<Rightarrow> intake \<Rightarrow> collector \<Rightarrow> session \<Rightarrow> bool" where
  "session_started w sz c n removed D L subs g st s \<longleftrightarrow>
     system w sz c subs g st \<and> length (dumped st) = D \<and> length (destroyed st) = L \<and>
     (\<exists>old. (removed \<or> files old n = None) \<and> contention_profiler_start (Some n) old = (s, True))"

text \<open>
  A session \<open>n\<close> and the steps beside it. \<open>sent\<close> collects all records that are submitted; a sample that
  \<^verbatim>\<open>Collected::submit\<close> turns away goes back to the pool.
\<close>

inductive profiled ::
  "surroundings \<Rightarrow> nat \<Rightarrow> nat \<Rightarrow> string \<Rightarrow> bool \<Rightarrow> (u64 list \<Rightarrow> u64 list) \<Rightarrow> nat \<Rightarrow> nat \<Rightarrow>
     u64 list \<Rightarrow> intake \<Rightarrow> collector \<Rightarrow> session \<Rightarrow> SampledContention multiset \<Rightarrow> bool"
  for w sz c n removed order D L where
  started: "session_started w sz c n removed D L subs g st s \<Longrightarrow>
    profiled w sz c n removed order D L subs g st s (image_mset (heap s) (under_way subs st))"
| stepped: "profiled w sz c n removed order D L subs g st s sent \<Longrightarrow>
    profile_step w sz c removed order subs g st s ps recs g' st' s' \<Longrightarrow>
    profiled w sz c n removed order D L (subs @ ps) g' st' s' (sent + image_mset recs (mset ps))"
| discarded: "profiled w sz c n removed order D L subs g st s sent \<Longrightarrow> outside subs st p \<Longrightarrow> p \<notin> set (cached s) \<Longrightarrow>
    profiled w sz c n removed order D L subs g st (destroy p (filled [p] recs s)) sent"

section \<open>Deliveries\<close>

lemma fold_destroy:
  "heap (fold destroy ds s) = heap s" "g_ctx (fold destroy ds s) = g_ctx s" "files (fold destroy ds s) = files s"
  "returned (fold destroy ds s) = returned s @ ds"
  by (induction ds arbitrary: s) simp_all

lemma init_if_needed_frame:
  "init_if_needed removed opened p s = (p', s') \<Longrightarrow> heap s' = heap s \<and> hash_set p' = hash_set p"
  by (auto simp: init_if_needed_def Let_def split: if_splits)

lemma flush_heap: "heap (fold (flush_sample p) cs s) = heap s"
  by (induction cs arbitrary: s) (simp_all add: flush_sample_def)

lemma flush_to_disk_frame:
  "flush_to_disk order maps ending p s = (p', s') \<Longrightarrow> heap s' = heap s \<and> (hash_set p' = hash_set p \<or> hash_set p' = [])"
  by (auto simp: flush_to_disk_def Let_def flush_heap split: if_splits)

text \<open>A sample whose object is not cached stays as it is.\<close>

lemma dump_frame:
  assumes "p \<notin> set (cached s)"
  shows "heap (sample_dump_and_destroy removed opened order p s) = heap s"
    and "set (cached (sample_dump_and_destroy removed opened order p s)) \<subseteq> insert p (set (cached s))"
proof -
  let ?s = "sample_dump_and_destroy removed opened order p s"
  have "heap ?s = heap s \<and> set (cached ?s) \<subseteq> insert p (set (cached s))"
  proof (cases "g_ctx s")
    case None
    then show ?thesis by (simp add: sample_dump_and_destroy_def cached_def)
  next
    case (Some q)
    obtain q1 s1 where i: "init_if_needed removed opened q s = (q1, s1)" by (metis prod.exhaust)
    let ?q = "q1\<lparr>hash_set := hash_set q1 @ [p]\<rparr>"
    obtain q2 s2 where f: "flush_to_disk order [] False ?q s1 = (q2, s2)" by (metis prod.exhaust)
    have "p \<notin> set (hash_set q1)" using assms Some init_if_needed_frame [OF i] by (simp add: cached_def)
    then show ?thesis using init_if_needed_frame [OF i] flush_to_disk_frame [OF f] i f Some
      by (auto simp: sample_dump_and_destroy_def cp_dump_and_destroy_def Let_def cached_def)
  qed
  then show "heap ?s = heap s" "set (cached ?s) \<subseteq> insert p (set (cached s))" by blast+
qed

text \<open>A session that is ready for samples, and what it has received.\<close>

definition receiving :: "string \<Rightarrow> bool \<Rightarrow> SampledContention list \<Rightarrow> session \<Rightarrow> bool" where
  "receiving n removed recs s \<longleftrightarrow> (\<exists>r0 ptrs. in_session n r0 recs ptrs s) \<and>
     (removed \<or> files s n = None \<or> (\<exists>p. g_ctx s = Some p \<and> cp_init p))"

lemma receiving_dump:
  assumes "receiving n removed recs s" and "is_order order" and "p \<notin> set (cached s)"
  shows "receiving n removed (recs @ [heap s p]) (sample_dump_and_destroy removed True order p s)"
proof -
  have "dump_step removed (order, p, heap s p) s = sample_dump_and_destroy removed True order p s"
    by (simp add: dump_step_def)
  moreover obtain r0 ptrs where "in_session n r0 recs ptrs s" using assms(1) by (auto simp: receiving_def)
  ultimately show ?thesis
    using dump_step_in_session [of n r0 recs ptrs s order p removed "heap s p"] assms
    unfolding receiving_def by auto
qed

lemma receiving_dumps:
  "receiving n removed recs s \<Longrightarrow> is_order order \<Longrightarrow> distinct ps \<Longrightarrow> set ps \<inter> set (cached s) = {} \<Longrightarrow>
   receiving n removed (recs @ map (heap s) ps) (fold (sample_dump_and_destroy removed True order) ps s) \<and>
   heap (fold (sample_dump_and_destroy removed True order) ps s) = heap s \<and>
   set (cached (fold (sample_dump_and_destroy removed True order) ps s)) \<subseteq> set ps \<union> set (cached s)"
proof (induction ps arbitrary: recs s)
  case (Cons p ps)
  let ?s = "sample_dump_and_destroy removed True order p s"
  have p: "p \<notin> set (cached s)" using Cons.prems(4) by simp
  note f = dump_frame [OF p, of removed True order]
  have "set ps \<inter> set (cached ?s) = {}" using f(2) Cons.prems(3,4) by auto
  from Cons.IH [OF receiving_dump [OF Cons.prems(1,2) p] Cons.prems(2) _ this] Cons.prems(3) f
  show ?case by auto
qed simp

lemma receiving_destroys:
  assumes "receiving n removed recs s"
  shows "receiving n removed recs (fold destroy ds s)"
proof -
  obtain r0 ptrs p ws where "g_ctx s = Some p" "cp_filename p = n" "length (hash_set p) \<le> MAX_CACHED_CONTENTIONS"
    "if cp_init p then cp_stream_open p \<and> written n ws s else ws = [] \<and> hash_set p = []"
    "mset recs = mset ws + mset (map (heap s) (hash_set p))" "mset (returned s) + mset (hash_set p) = mset r0 + mset ptrs"
    using assms by (auto simp: receiving_def in_session_def)
  then have "in_session n (r0 @ ds) recs ptrs (fold destroy ds s)"
    unfolding in_session_def
    by (intro exI [of _ p] exI [of _ ws]) (auto simp: fold_destroy written_def ac_simps split: if_splits)
  then show ?thesis using assms by (auto simp: receiving_def fold_destroy)
qed

text \<open>New contents in objects that are not cached.\<close>

lemma receiving_fill:
  assumes "receiving n removed recs s" and "\<And>p. p \<in> set (cached s) \<Longrightarrow> h p = heap s p"
  shows "receiving n removed recs (s\<lparr>heap := h\<rparr>)"
proof -
  obtain r0 ptrs p ws where p: "g_ctx s = Some p" "cp_filename p = n" "length (hash_set p) \<le> MAX_CACHED_CONTENTIONS"
    "if cp_init p then cp_stream_open p \<and> written n ws s else ws = [] \<and> hash_set p = []"
    "mset recs = mset ws + mset (map (heap s) (hash_set p))" "mset (returned s) + mset (hash_set p) = mset r0 + mset ptrs"
    using assms(1) by (auto simp: receiving_def in_session_def)
  have m: "map (heap s) (hash_set p) = map h (hash_set p)" using assms(2) p(1) by (simp add: cached_def)
  have "in_session n r0 recs ptrs (s\<lparr>heap := h\<rparr>)"
    unfolding in_session_def using p [unfolded m]
    by (intro exI [of _ p] exI [of _ ws]) (auto simp: written_def split: if_splits)
  then show ?thesis using assms(1) by (auto simp: receiving_def)
qed

section \<open>Where the records are\<close>

definition inside :: "intake \<Rightarrow> nat \<Rightarrow> u64 list \<Rightarrow> (slot \<Rightarrow> u64 multiset) \<Rightarrow> u64 multiset" where
  "inside g c pend val = mset pend + holdings (owner g) val c"

definition profiled_ok ::
  "surroundings \<Rightarrow> nat \<Rightarrow> nat \<Rightarrow> string \<Rightarrow> bool \<Rightarrow> nat \<Rightarrow> nat \<Rightarrow> u64 list \<Rightarrow> intake \<Rightarrow> collector \<Rightarrow> session \<Rightarrow>
     SampledContention multiset \<Rightarrow> u64 list \<Rightarrow> (slot \<Rightarrow> u64 multiset) \<Rightarrow> SampledContention list \<Rightarrow> SampledContention multiset \<Rightarrow> bool" where
  "profiled_ok w sz c n removed D L subs g st s sent pend val recs lost \<longleftrightarrow>
     system_ok w sz c subs g st pend val \<and> receiving n removed recs s \<and>
     set (cached s) \<inter> set_mset (inside g c pend val) = {} \<and>
     sent = mset recs + lost + image_mset (heap s) (inside g c pend val) \<and>
     length recs + D = length (dumped st) \<and> size lost + L = length (destroyed st)"

lemma under_way_inside:
  assumes "system_ok w sz c subs g st pend val"
  shows "under_way subs st = inside g c pend val"
proof -
  have "mset subs = mset (destroyed st) + mset (map snd (dumped st)) + inside g c pend val"
    using system_okD(1) [OF assms] by (simp add: inside_def)
  then show ?thesis by (simp add: under_way_def)
qed

lemma count_inside:
  assumes ok: "system_ok w sz c subs g st pend val"
  shows "count (inside g c pend val) p \<le> 1"
proof -
  have "count (mset pend) p \<le> 1" using system_okD(2) [OF ok] by (simp add: distinct_count_atmost_1)
  moreover have "count (holdings (owner g) val c) p \<le> 1" by (rule system_okD(4) [OF ok])
  moreover have "count (mset pend) p = 0 \<or> count (holdings (owner g) val c) p = 0"
    using system_okD(3) [OF ok] by (metis disjoint_iff not_in_iff set_mset_mset)
  ultimately show ?thesis unfolding inside_def count_union by linarith
qed

lemma count_with_ready:
  assumes ok: "system_ok w sz c subs g st pend val" and r: "ready w subs st ps"
  shows "count (inside g c pend val + mset ps) p \<le> 1"
proof (cases "p \<in> set ps")
  case True
  then have "outside subs st p" using r by (simp add: ready_def)
  then have "count (inside g c pend val) p = 0"
    using outside_nowhere [OF ok] by (simp add: inside_def not_in_iff)
  moreover have "count (mset ps) p \<le> 1" using r by (simp add: ready_def distinct_count_atmost_1)
  ultimately show ?thesis by simp
next
  case False
  then have "count (mset ps) p = 0" by simp
  then show ?thesis using count_inside [OF ok, of p] unfolding count_union by linarith
qed

lemma inside_balance:
  assumes "system_ok w sz c subs g st pend val" and "system_ok w sz c (subs @ ps) g' st' pend' val'" and "extends st st'"
  shows "inside g c pend val + mset ps = mset (drop (length (destroyed st)) (destroyed st')) +
      mset (map snd (drop (length (dumped st)) (dumped st'))) + inside g' c pend' val'"
proof -
  obtain d e where d: "destroyed st' = destroyed st @ d" and e: "dumped st' = dumped st @ e"
    using assms(3) by (auto simp: extends_def prefix_def)
  have "mset subs = mset (destroyed st) + mset (map snd (dumped st)) + inside g c pend val"
    using system_okD(1) [OF assms(1)] by (simp add: inside_def)
  moreover have "mset subs + mset ps = mset (destroyed st') + mset (map snd (dumped st')) + inside g' c pend' val'"
    using system_okD(1) [OF assms(2)] by (simp add: inside_def)
  ultimately have "(mset (destroyed st) + mset (map snd (dumped st))) + (inside g c pend val + mset ps) =
      (mset (destroyed st) + mset (map snd (dumped st))) + (mset d + mset (map snd e) + inside g' c pend' val')"
    by (simp add: d e ac_simps)
  then show ?thesis by (simp add: d e)
qed

lemma distinct_of_count: "(\<And>p. count (mset xs) p \<le> 1) \<Longrightarrow> distinct xs"
  unfolding distinct_count_atmost_1 by (metis One_nat_def count_eq_zero_iff le_Suc_eq le_zero_eq set_mset_mset)

lemma profiled_step_ok:
  assumes w: "heads_ok w" and sz: "0 < sz" and o: "is_order order"
    and ok: "profiled_ok w sz c n removed D L subs g st s sent pend val recs lost"
    and p: "profile_step w sz c removed order subs g st s ps cont g' st' s'"
  shows "\<exists>pend val recs lost. profiled_ok w sz c n removed D L (subs @ ps) g' st' s' (sent + image_mset cont (mset ps)) pend val recs lost"
proof -
  have step: "system_step w sz c subs g st ps g' st'" and new: "set ps \<inter> set (cached s) = {}"
    and s': "s' = deliver removed order (drop (length (destroyed st)) (destroyed st')) (map snd (drop (length (dumped st)) (dumped st')))
      (s\<lparr>heap := (\<lambda>p. if p \<in> set ps then cont p else heap s p)\<rparr>)"
    using p by (simp_all add: profile_step_def filled_def)
  have a: "system_ok w sz c subs g st pend val" "receiving n removed recs s"
    "set (cached s) \<inter> set_mset (inside g c pend val) = {}"
    "sent = mset recs + lost + image_mset (heap s) (inside g c pend val)"
    "length recs + D = length (dumped st)" "size lost + L = length (destroyed st)"
    using ok by (simp_all add: profiled_ok_def)
  obtain pend' val' where b: "system_ok w sz c (subs @ ps) g' st' pend' val'" "ready w subs st ps" "extends st st'"
    using system_step_ok [OF w sz a(1) step] by blast
  define D' where "D' = drop (length (destroyed st)) (destroyed st')"
  define O' where "O' = map snd (drop (length (dumped st)) (dumped st'))"
  define h where "h = (\<lambda>p. if p \<in> set ps then cont p else heap s p)"
  let ?M = "inside g c pend val" and ?M' = "inside g' c pend' val'"
  have bal: "?M + mset ps = mset D' + mset O' + ?M'"
    using inside_balance [OF a(1) b(1,3)] by (simp only: D'_def O'_def)
  have one: "count (mset D' + mset O' + ?M') p \<le> 1" for p
    using count_with_ready [OF a(1) b(2), of p] unfolding bal .
  have "count (mset O') p \<le> 1" for p using one [of p] by simp
  then have dO: "distinct O'" by (rule distinct_of_count)
  have "set_mset (mset D' + mset O' + ?M') = set_mset ?M \<union> set ps" using bal by (metis set_mset_mset set_mset_union)
  then have sub: "set O' \<union> set_mset ?M' \<subseteq> set_mset ?M \<union> set ps" by auto
  have off: "set O' \<inter> set_mset ?M' = {}"
  proof -
    have "count (mset O' + ?M') p \<le> 1" for p using one [of p] by simp
    then have "\<forall>p. count (mset O' + ?M') p \<le> 1" by blast
    from count_le_one_disjoint [OF this] show ?thesis by auto
  qed
  have c1: "set (cached s) \<inter> (set O' \<union> set_mset ?M') = {}" using sub a(3) new by blast
  have "\<And>p. p \<in> set (cached s) \<Longrightarrow> h p = heap s p" using new by (auto simp: h_def)
  from receiving_fill [OF a(2) this] have "receiving n removed recs (s\<lparr>heap := h\<rparr>)" .
  from receiving_destroys [OF this] have rd: "receiving n removed recs (fold destroy D' (s\<lparr>heap := h\<rparr>))" .
  have cd: "cached (fold destroy D' (s\<lparr>heap := h\<rparr>)) = cached s" by (simp add: cached_def fold_destroy)
  have "set O' \<inter> set (cached (fold destroy D' (s\<lparr>heap := h\<rparr>))) = {}" using c1 unfolding cd by blast
  from receiving_dumps [OF rd o dO this]
  have r': "receiving n removed (recs @ map h O') s'" "heap s' = h" "set (cached s') \<subseteq> set O' \<union> set (cached s)"
    unfolding s' deliver_def cd by (simp_all add: D'_def O'_def h_def fold_destroy)
  have "image_mset (heap s) ?M = image_mset h ?M"
  proof (rule image_mset_cong)
    fix p assume "p \<in># ?M"
    then have "p \<notin> set ps"
      using outside_nowhere [OF a(1), of p] b(2) by (auto simp: inside_def ready_def)
    then show "heap s p = h p" by (simp add: h_def)
  qed
  moreover have "image_mset cont (mset ps) = image_mset h (mset ps)" by (rule image_mset_cong) (simp add: h_def)
  ultimately have "sent + image_mset cont (mset ps) = mset recs + lost + image_mset h (?M + mset ps)" by (simp add: a(4))
  then have sent_eq: "sent + image_mset cont (mset ps) =
      mset (recs @ map h O') + (lost + image_mset h (mset D')) + image_mset (heap s') ?M'"
    unfolding bal r'(2) by (simp add: ac_simps)
  have len: "length (recs @ map h O') + D = length (dumped st')" "size (lost + image_mset h (mset D')) + L = length (destroyed st')"
    using a(5,6) b(3) by (auto simp: D'_def O'_def extends_def dest!: prefix_length_le)
  have "set (cached s') \<inter> set_mset ?M' = {}" using r'(3) off c1 by blast
  then show ?thesis using b(1) r'(1) sent_eq len unfolding profiled_ok_def by blast
qed

text \<open>A sample that is turned away is in no list and not cached: its object changes nothing.\<close>

lemma discarded_ok:
  assumes ok: "profiled_ok w sz c n removed D L subs g st s sent pend val recs lost"
    and p: "outside subs st p" "p \<notin> set (cached s)"
  shows "profiled_ok w sz c n removed D L subs g st (destroy p (filled [p] cont s)) sent pend val recs lost"
proof -
  have sys: "system_ok w sz c subs g st pend val" and r: "receiving n removed recs s"
    using ok by (simp_all add: profiled_ok_def)
  have "p \<notin># inside g c pend val" using outside_nowhere [OF sys p(1)] by (simp add: inside_def)
  then have h: "image_mset (heap (filled [p] cont s)) (inside g c pend val) = image_mset (heap s) (inside g c pend val)"
    by (intro image_mset_cong) (auto simp: filled_def)
  have "receiving n removed recs (filled [p] cont s)"
    unfolding filled_def using p(2) by (intro receiving_fill [OF r]) auto
  from receiving_destroys [OF this, of "[p]"] have "receiving n removed recs (destroy p (filled [p] cont s))" by simp
  moreover have "cached (destroy p (filled [p] cont s)) = cached s"
    by (simp add: cached_def destroy_def filled_def)
  ultimately show ?thesis using ok h by (simp add: profiled_ok_def destroy_def)
qed

lemma start_receiving:
  assumes "contention_profiler_start (Some n) old = (s, True)" and "removed \<or> files old n = None"
  shows "receiving n removed [] s" and "cached s = []"
proof -
  have s: "g_ctx s = Some (ContentionProfiler_new n)" "files s = files old"
    using assms(1) by (auto simp: contention_profiler_start_def split: if_splits)
  have "in_session n (returned s) [] [] s"
    unfolding in_session_def using s
    by (intro exI [of _ "ContentionProfiler_new n"] exI [of _ "[]"]) (simp add: ContentionProfiler_new_def)
  then show "receiving n removed [] s" using assms(2) s by (auto simp: receiving_def)
  show "cached s = []" using s by (simp add: cached_def ContentionProfiler_new_def)
qed

lemma profiled_invariant:
  assumes w: "heads_ok w" and sz: "0 < sz" and o: "is_order order"
  shows "profiled w sz c n removed order D L subs g st s sent \<Longrightarrow>
    system w sz c subs g st \<and> (\<exists>pend val recs lost. profiled_ok w sz c n removed D L subs g st s sent pend val recs lost)"
proof (induction rule: profiled.induct)
  case (started subs g st s)
  then obtain old where sys: "system w sz c subs g st" and len: "length (dumped st) = D" "length (destroyed st) = L"
    and s: "removed \<or> files old n = None" "contention_profiler_start (Some n) old = (s, True)"
    by (auto simp: session_started_def)
  obtain pend val where ok: "system_ok w sz c subs g st pend val" using system_invariant [OF w sz sys] by blast
  have "profiled_ok w sz c n removed D L subs g st s (image_mset (heap s) (under_way subs st)) pend val [] {#}"
    using ok start_receiving [OF s(2,1)] len by (simp add: profiled_ok_def under_way_inside [OF ok])
  then show ?case using sys by blast
next
  case (stepped subs g st s sent ps g' st' s' cont)
  obtain pend val recs lost where "profiled_ok w sz c n removed D L subs g st s sent pend val recs lost"
    using stepped.IH by blast
  from profiled_step_ok [OF w sz o this stepped.hyps(2)]
  show ?case using stepped.IH stepped.hyps(2) system.step unfolding profile_step_def by blast
next
  case (discarded subs g st s sent p cont)
  then obtain pend val recs lost where "profiled_ok w sz c n removed D L subs g st s sent pend val recs lost" by blast
  from discarded_ok [OF this discarded.hyps(2,3)] show ?case using discarded.IH by blast
qed

text \<open>Stopping the session writes what it has received.\<close>

lemma stop_received:
  assumes "receiving n removed recs s" and "is_order order"
  shows "\<exists>ws. mset ws = mset recs \<and>
    files (contention_profiler_stop removed True order maps s) n = Some (profile_header @ concat (map sample_line ws) @ maps)"
proof -
  obtain r0 ptrs where "in_session n r0 recs ptrs s" using assms(1) by (auto simp: receiving_def)
  from stop_writes [OF this assms(2)] assms(1) show ?thesis by (auto simp: receiving_def Let_def)
qed

text \<open>Where every record of a session is when it is stopped.\<close>

lemma profile_account:
  assumes "heads_ok w" and "0 < sz" and "is_order order" and "profiled w sz c n removed order D L subs g st s sent"
  shows "\<exists>ws lost way. sent = mset ws + lost + way \<and>
    files (contention_profiler_stop removed True order maps s) n = Some (profile_header @ concat (map sample_line ws) @ maps) \<and>
    int (length ws) = dump_count st - int D \<and> int (size lost) = drop_count st - int L \<and>
    int (size way) = int (length subs) - dump_count st - drop_count st"
proof -
  obtain pend val recs lost where ok: "profiled_ok w sz c n removed D L subs g st s sent pend val recs lost"
    using profiled_invariant [OF assms(1-3,4)] by blast
  then have r: "receiving n removed recs s" and sys: "system_ok w sz c subs g st pend val"
    and sent: "sent = mset recs + lost + image_mset (heap s) (inside g c pend val)"
    and len: "length recs + D = length (dumped st)" "size lost + L = length (destroyed st)" by (simp_all add: profiled_ok_def)
  obtain ws where ws: "mset ws = mset recs"
    "files (contention_profiler_stop removed True order maps s) n = Some (profile_header @ concat (map sample_line ws) @ maps)"
    using stop_received [OF r assms(3)] by blast
  have "length subs = length (destroyed st) + length (dumped st) + size (inside g c pend val)"
  proof -
    have "mset subs = mset (destroyed st) + mset (map snd (dumped st)) + inside g c pend val"
      using system_okD(1) [OF sys] by (simp add: inside_def)
    then have "size (mset subs) = size (mset (destroyed st) + mset (map snd (dumped st)) + inside g c pend val)" by simp
    then show ?thesis by (simp only: size_union size_mset length_map)
  qed
  moreover have "length ws = length recs" using ws(1) by (metis size_mset)
  moreover have "drop_count st = int (length (destroyed st))" "dump_count st = int (length (dumped st))"
    using system_okD(5,6) [OF sys] by simp_all
  ultimately show ?thesis using ws sent len
    by (intro exI [of _ ws] exI [of _ lost] exI [of _ "image_mset (heap s) (inside g c pend val)"]) simp
qed

section \<open>An example\<close>

text \<open>A thread has constructed an object; when a session starts it can fill it with any record and submit it.\<close>

lemma example_ready:
  "\<exists>g st s. session_started example_surroundings 2048 7 ''out'' True 0 0 [] g st s \<and> under_way [] st = {#} \<and>
    last_active_cpuwide_us st = 0 \<and>
    (\<forall>r. \<exists>g' st' s'. profile_step example_surroundings 2048 7 True rev [] g st s [10] (\<lambda>_. r) g' st' s')"
proof -
  let ?w = example_surroundings
  let ?st = "collector_init 0 example_links (\<lambda>_. CollectorSpeedLimit_init)"
  let ?l = "LinkNode 10 (c_links ?st)"
  have w: "dump_root ?w = 3" "dump_local ?w = 4" "heads ?w = {1, 2, 3, 4}"
    by (auto simp: example_surroundings_def heads_def)
  have sz: "0 < (2048 :: nat)" by simp
  obtain g :: intake where new: "Reducer_new None 7 (group_init None example_links) = Some g"
    by (simp add: Reducer_new_def AgentCombiner_new_def group_init_def create_new_agent_def agent_ids_init_def Let_def)
  have r0: "ring example_links [dump_root ?w]" "ring example_links [dump_local ?w]" using example_rings by (simp_all add: w)
  let ?g = "g\<lparr>world := ?l\<rparr>" and ?st1 = "?st\<lparr>c_links := ?l\<rparr>"
  have "system_step ?w 2048 7 [] g ?st [] ?g ?st1"
    by (rule used [OF construct]) (simp_all add: w outside_def collector_init_def)
  from system.step [OF created [OF r0 new] this] have sys: "system ?w 2048 7 [] ?g ?st1" by simp
  define s where "s = fst (contention_profiler_start (Some ''out'') empty_session)"
  have start: "contention_profiler_start (Some ''out'') empty_session = (s, True)"
    by (simp add: s_def contention_profiler_start_def empty_session_def)
  have begun: "session_started ?w 2048 7 ''out'' True 0 0 [] ?g ?st1 s" "cached s = []"
    unfolding session_started_def using sys start start_receiving(2) [OF start] by (auto simp: collector_init_def)
  have r: "ready ?w [] ?st1 [10]"
    by (simp add: ready_def LinkNode_ring w outside_def collector_init_def)
  obtain pend val where ok: "system_ok ?w 2048 7 [] ?g ?st1 pend val"
    using system_invariant [OF example_heads_ok sz sys] by auto
  obtain g1 where g1: "submit 2048 CombineCollected 0 7 (Some 10) ?g = Some g1"
    using submit_succeeds [OF ok sz r, of 0] by blast
  have "profile_step ?w 2048 7 True rev [] ?g ?st1 s [10] (\<lambda>_. r) g1 (?st1\<lparr>c_links := world g1\<rparr>)
      (deliver True rev [] [] (filled [10] (\<lambda>_. r) s))" for r
    using used [OF user_step.submitted [OF r g1]] begun(2) by (simp add: profile_step_def)
  then show ?thesis using begun(1)
    by (intro exI [of _ ?g] exI [of _ ?st1] exI [of _ s]) (auto simp: collector_init_def under_way_def)
qed

end
