(* ===== verification/Settling.thy ===== *)
theory Settling
  imports Sample_Intake
begin

text \<open>
  What the grab thread has taken over is dumped or destroyed within a bounded number of steps of the
  two threads of \<^verbatim>\<open>src/collector.cpp\<close>, in whatever order they come and whatever other threads submit
  meanwhile, as long as the next round has not begun and the collector is not stopped.
\<close>

section \<open>The work that is left\<close>

fun grab_weight :: "grab_place \<Rightarrow> nat" where
  "grab_weight (Grab_look a ps bs) = 5 + length bs"
| "grab_weight (Grab_adapt a) = 4"
| "grab_weight (Grab_doze a) = 3"
| "grab_weight Grab_asleep = 2"
| "grab_weight Grab_start = 1"
| "grab_weight Grab_quit = 0"

text \<open>A dump thread that has come to the end of its list has the way to its next wait before it.\<close>

fun dump_weight :: "surroundings \<Rightarrow> dump_place \<Rightarrow> nat" where
  "dump_weight w (Dump_work n p) = (if p = dump_local w then 5 else 2)"
| "dump_weight w (Dump_start n) = 4"
| "dump_weight w (Dump_await n) = 3"
| "dump_weight w Dump_quit = 0"

text \<open>The samples that were kept and are not dumped.\<close>

definition in_queue :: "collector \<Rightarrow> int" where
  "in_queue st = grab_count st - drop_count st - dump_count st"

definition work_left :: "surroundings \<Rightarrow> collector \<Rightarrow> nat" where
  "work_left w st = 6 * length (in_hand st) + 5 * nat (in_queue st) + grab_weight (grab_pos st) + dump_weight w (dump_pos st)"

lemma in_queue_length: "lanes_ok w st ls ws ks \<Longrightarrow> in_queue st = int (length (ls @ ws @ ks))"
  by (simp add: lanes_ok_def counters_ok_def in_queue_def)

lemma length_bucket_list: "heads_ok w \<Longrightarrow> length (bucket_list w b) = length (snd b)"
  by (metis heads_ok_def mset_bucket_list size_mset)

lemma hand_to_dumper_counts: "in_queue (hand_to_dumper w st) = in_queue st" "dump_pos (hand_to_dumper w st) = dump_pos st"
  by (simp_all add: hand_to_dumper_def in_queue_def Let_def)

lemma grab_one_counts:
  "in_queue (grab_one w p st) \<le> in_queue st + 1" "dump_pos (grab_one w p st) = dump_pos st"
  by (simp_all add: grab_one_def in_queue_def Let_def)

text \<open>Every step of the grab thread that is not the start of a round is work done.\<close>

lemma grab_next_work:
  assumes lanes: "lanes_ok w st ls ws ks" and w: "heads_ok w" and step: "grab_next w e st = Some st'"
  shows "work_left w st' < work_left w st"
proof (cases "grab_pos st")
  case (Grab_look a ps bs)
  have q: "0 \<le> in_queue st" using in_queue_length [OF lanes] by simp
  show ?thesis
  proof (cases ps)
    case (Cons p qs)
    then have st': "st' = (grab_one w p st)\<lparr>grab_pos := Grab_look a qs bs\<rparr>" using step Grab_look by (simp add: grab_next_def)
    have "nat (in_queue st') \<le> nat (in_queue st) + 1"
      using grab_one_counts(1) [of w p st] q by (simp add: st' in_queue_def)
    then show ?thesis by (simp add: work_left_def in_hand_def st' Grab_look Cons grab_one_counts(2))
  next
    case Nil
    then show ?thesis using step Grab_look w
      by (cases bs) (auto simp: grab_next_def work_left_def in_hand_def all_of_def length_bucket_list in_queue_def
        hand_to_dumper_counts [unfolded in_queue_def])
  qed
next
  case (Grab_adapt a)
  then obtain st1 where u: "update_speed_limits (r_expected e) (r_wall e) (r_now e) st = Some st1" "st' = st1\<lparr>grab_pos := Grab_doze a\<rparr>"
    using step by (auto simp: grab_next_def split: Option.bind_splits)
  show ?thesis using update_speed_limits_frame [OF u(1)] Grab_adapt
    by (auto simp: u(2) work_left_def in_hand_def in_queue_def)
next
  case (Grab_doze a)
  then have "st' = st\<lparr>last_active_cpuwide_us := r_now e, grab_pos := Grab_asleep\<rparr>"
    using step by (auto simp: grab_next_def grab_doze_def Let_def split: Option.bind_splits)
  then show ?thesis using Grab_doze by (simp add: work_left_def in_hand_def in_queue_def)
qed (use step in \<open>auto simp: grab_next_def work_left_def in_hand_def in_queue_def split: if_splits\<close>)

lemma dump_next_work:
  assumes lanes: "lanes_ok w st ls ws ks" and w: "heads_ok w" and run: "\<not> stop_flag st" and step: "dump_next w st = Some st'"
  shows "work_left w st' < work_left w st"
proof (cases "dump_pos st")
  case (Dump_await n)
  then have ne: "next_ptr (c_links st) (dump_root w) \<noteq> dump_root w"
    and st': "st' = (dump_take w st)\<lparr>dump_pos := Dump_work n (next_ptr (c_links (dump_take w st)) (dump_local w))\<rparr>"
    using step run by (auto simp: dump_next_def Let_def split: if_splits)
  note r = lanes_ok_rings [OF lanes]
  obtain x xs where ws: "ws = x # xs" using r(1) ne by (cases ws) (auto simp: ring_singleton)
  have ls: "ls = []" using lanes Dump_await run by (simp add: lanes_ok_def dumper_ok_def)
  have x: "dump_local w \<notin> set (dump_root w # x # xs)"
    using lanes w by (auto simp: lanes_ok_def off_heads_def heads_def heads_ok_def ws)
  from dump_take_rings [where Z = "{}", OF r(1) [unfolded ws] r(2) [unfolded ls] x] obtain L where
    "dump_take w st = st\<lparr>c_links := L\<rparr>" "next_ptr L (dump_local w) = x" by auto
  moreover have "x \<noteq> dump_local w" using x by auto
  ultimately show ?thesis using Dump_await by (simp add: st' work_left_def in_hand_def in_queue_def)
next
  case (Dump_work n p)
  show ?thesis
  proof (cases "p = dump_local w")
    case True
    then show ?thesis using step run Dump_work by (auto simp: dump_next_def work_left_def in_hand_def in_queue_def)
  next
    case False
    then have st': "st' = (dump_one n p st)\<lparr>dump_pos := Dump_work n (next_ptr (c_links st) p)\<rparr>"
      using step run Dump_work by (simp add: dump_next_def)
    have "ls \<noteq> []" using lanes Dump_work False by (auto simp: lanes_ok_def dumper_ok_def)
    then have "1 \<le> in_queue st" using in_queue_length [OF lanes] by (cases ls) simp_all
    moreover have "in_queue st' = in_queue st - 1" by (simp add: st' dump_one_def in_queue_def)
    moreover have "dump_weight w (dump_pos st') \<le> 5" by (simp add: st')
    moreover have "grab_pos st' = grab_pos st" "in_hand st' = in_hand st" by (simp_all add: st' dump_one_def in_hand_def)
    ultimately show ?thesis using Dump_work False by (simp add: work_left_def nat_diff_distrib)
  qed
qed (use step run in \<open>auto simp: dump_next_def work_left_def in_hand_def in_queue_def\<close>)

text \<open>While work is left, one of the threads can go on, whatever its clocks show.\<close>

lemma someone_moves:
  assumes lanes: "lanes_ok w st ls ws ks" and run: "\<not> stop_flag st" and left: "in_hand st \<noteq> [] \<or> in_queue st \<noteq> 0"
  shows "(\<exists>st'. dump_next w st = Some st') \<or> (\<forall>e. \<exists>st'. grab_next w e st = Some st')"
proof (cases "keeping st")
  case True
  then obtain a ps bs where pos: "grab_pos st = Grab_look a ps bs"
    by (auto simp: keeping_def split: grab_place.splits)
  have "\<exists>st'. grab_next w e st = Some st'" for e
    by (cases ps; cases bs) (simp_all add: grab_next_def pos)
  then show ?thesis by blast
next
  case False
  then have idle: "in_hand st = []" "ks = []"
    using lanes by (auto simp: lanes_ok_def keeping_def in_hand_def split: grab_place.splits)
  then have "ls \<noteq> [] \<or> ws \<noteq> []" using left in_queue_length [OF lanes] by auto
  moreover have "next_ptr (c_links st) (dump_root w) \<noteq> dump_root w" if "ws \<noteq> []"
    using lanes_ok_rings(1) [OF lanes] that ring_distinct [OF lanes_ok_rings(1) [OF lanes]]
      ring_next_hd [OF lanes_ok_rings(1) [OF lanes]] by (cases ws) auto
  ultimately show ?thesis
    using lanes run by (cases "dump_pos st") (auto simp: dump_next_def Let_def lanes_ok_def dumper_ok_def)
qed

section \<open>Schedules\<close>

text \<open>
  \<open>n\<close> steps of the grab thread and the dump thread, with steps of the threads that use the collector
  between them.
\<close>

inductive settling ::
  "surroundings \<Rightarrow> nat \<Rightarrow> nat \<Rightarrow> u64 list \<Rightarrow> intake \<Rightarrow> collector \<Rightarrow> nat \<Rightarrow> u64 list \<Rightarrow> intake \<Rightarrow> collector \<Rightarrow> bool"
  for w sz c subs0 g0 st0 where
  here: "settling w sz c subs0 g0 st0 0 subs0 g0 st0"
| user: "settling w sz c subs0 g0 st0 n subs g st \<Longrightarrow> user_step w sz c subs g st ps g' st' \<Longrightarrow>
    settling w sz c subs0 g0 st0 n (subs @ ps) g' st'"
| grab: "settling w sz c subs0 g0 st0 n subs g st \<Longrightarrow> grab_next w e st = Some st' \<Longrightarrow>
    settling w sz c subs0 g0 st0 (Suc n) subs (g\<lparr>world := c_links st'\<rparr>) st'"
| dump: "settling w sz c subs0 g0 st0 n subs g st \<Longrightarrow> dump_next w st = Some st' \<Longrightarrow>
    settling w sz c subs0 g0 st0 (Suc n) subs (g\<lparr>world := c_links st'\<rparr>) st'"

lemma user_step_work:
  assumes "user_step w sz c subs g st ps g' st'"
  shows "work_left w st' = work_left w st \<and> stop_flag st' = stop_flag st"
  using assms by cases (simp_all add: work_left_def in_hand_def in_queue_def)

lemma grab_ops_stop: "stop_flag (grab_one w p st) = stop_flag st" "stop_flag (hand_to_dumper w st) = stop_flag st"
  by (simp_all add: grab_one_def hand_to_dumper_def Let_def)

lemma grab_next_stop: "grab_next w e st = Some st' \<Longrightarrow> stop_flag st' = stop_flag st"
proof (cases "grab_pos st")
  case (Grab_look a ps bs)
  assume "grab_next w e st = Some st'"
  then show ?thesis using Grab_look
    by (cases ps; cases bs) (auto simp: grab_next_def grab_ops_stop)
next
  case (Grab_adapt a)
  assume "grab_next w e st = Some st'"
  then obtain st1 where "update_speed_limits (r_expected e) (r_wall e) (r_now e) st = Some st1" "st' = st1\<lparr>grab_pos := Grab_doze a\<rparr>"
    using Grab_adapt by (auto simp: grab_next_def split: Option.bind_splits)
  then show ?thesis using update_speed_limits_frame by fastforce
qed (auto simp: grab_next_def grab_doze_def Let_def split: Option.bind_splits if_splits)

lemma dump_next_stop: "dump_next w st = Some st' \<Longrightarrow> stop_flag st' = stop_flag st"
  by (cases "dump_pos st") (auto simp: dump_next_def dump_take_def dump_one_def Let_def split: if_splits)

text \<open>What has been taken over, as the counters and the vectors show it.\<close>

definition taken_over :: "collector \<Rightarrow> int" where
  "taken_over st = grab_count st + int (length (in_hand st))"

lemma taken_over_total:
  assumes "lanes_ok w st ls ws ks"
  shows "taken_over st = int (size (h_total (queue_view st (ls @ ws @ ks))))"
  using assms by (simp add: taken_over_def total_view lanes_ok_def counters_ok_def)

lemma taken_over_step:
  assumes "machine_ok w sz c subs g st ls ws ks val" and "machine_ok w sz c subs' g' st' ls' ws' ks' val'"
    and q: "hand_off_step (max_pending w) {#} (queue_view st (ls @ ws @ ks)) (queue_view st' (ls' @ ws' @ ks'))"
  shows "taken_over st' = taken_over st"
proof -
  have "lanes_ok w st ls ws ks" "lanes_ok w st' ls' ws' ks'" using assms(1,2) by (simp_all add: machine_ok_def)
  from this [THEN taken_over_total] show ?thesis using hand_off_step_total [OF q] by simp
qed

lemma settling_ok:
  assumes w: "heads_ok w" and sz: "0 < sz" and start: "machine_ok w sz c subs0 g0 st0 ls0 ws0 ks0 val0" and run: "\<not> stop_flag st0"
  shows "settling w sz c subs0 g0 st0 n subs g st \<Longrightarrow> (\<exists>ls ws ks val. machine_ok w sz c subs g st ls ws ks val) \<and>
    \<not> stop_flag st \<and> n + work_left w st \<le> work_left w st0 \<and> taken_over st = taken_over st0"
proof (induction rule: settling.induct)
  case here
  show ?case using start run by auto
next
  case (user n subs g st ps g' st')
  then obtain ls ws ks val where m: "machine_ok w sz c subs g st ls ws ks val" by blast
  from user_step_ok [OF m sz user.hyps(2)] obtain val' where m': "machine_ok w sz c (subs @ ps) g' st' ls ws ks val'"
    "hand_off_step (max_pending w) {#} (queue_view st (ls @ ws @ ks)) (queue_view st' (ls @ ws @ ks))" by blast
  have "taken_over st' = taken_over st" by (rule taken_over_step [OF m m'])
  then show ?case using user.IH user_step_work [OF user.hyps(2)] m'(1) by auto
next
  case (grab n subs g st e st')
  then obtain ls ws ks val where m: "machine_ok w sz c subs g st ls ws ks val" by blast
  then have lanes: "lanes_ok w st ls ws ks" by (simp add: machine_ok_def)
  obtain ls' ws' ks' where m': "machine_ok w sz c subs (g\<lparr>world := c_links st'\<rparr>) st' ls' ws' ks' val"
    "hand_off_step (max_pending w) {#} (queue_view st (ls @ ws @ ks)) (queue_view st' (ls' @ ws' @ ks'))"
    using advance_machine [OF m grab_next_advances [OF lanes w grab.hyps(2)]] by blast
  have "taken_over st' = taken_over st" by (rule taken_over_step [OF m m'])
  then show ?case using grab.IH grab_next_work [OF lanes w grab.hyps(2)] grab_next_stop [OF grab.hyps(2)] m'(1) by auto
next
  case (dump n subs g st st')
  then obtain ls ws ks val where m: "machine_ok w sz c subs g st ls ws ks val" by blast
  then have lanes: "lanes_ok w st ls ws ks" by (simp add: machine_ok_def)
  obtain ls' ws' ks' where m': "machine_ok w sz c subs (g\<lparr>world := c_links st'\<rparr>) st' ls' ws' ks' val"
    "hand_off_step (max_pending w) {#} (queue_view st (ls @ ws @ ks)) (queue_view st' (ls' @ ws' @ ks'))"
    using advance_machine [OF m dump_next_advances [OF lanes w dump.hyps(2)]] by blast
  have "taken_over st' = taken_over st" by (rule taken_over_step [OF m m'])
  moreover have "\<not> stop_flag st" using dump.IH by blast
  ultimately show ?case
    using dump.IH dump_next_work [OF lanes w _ dump.hyps(2)] dump_next_stop [OF dump.hyps(2)] m'(1) by auto
qed

section \<open>Properties\<close>

definition vectors_left :: "collector \<Rightarrow> nat" where
  "vectors_left st = (case grab_pos st of Grab_look a ps bs \<Rightarrow> length bs | _ \<Rightarrow> 0)"

lemma work_left_bound: "work_left w st \<le> 6 * length (in_hand st) + 5 * nat (in_queue st) + vectors_left st + 10"
proof -
  have "grab_weight (grab_pos st) \<le> 5 + vectors_left st" by (cases "grab_pos st") (simp_all add: vectors_left_def)
  moreover have "dump_weight w (dump_pos st) \<le> 5" by (cases "dump_pos st") simp_all
  ultimately show ?thesis by (simp add: work_left_def)
qed

text \<open>
  C6. What a grab round has taken over is dumped or destroyed in bounded time. From any reachable
  state in which the collector is not stopped, however the steps of the grab thread and the dump
  thread are scheduled, and whatever other threads construct, submit or do at their exits meanwhile:
  before the next round begins the two threads make at most six steps for each sample in the vectors,
  five for each in the queue, one for each vector and ten more; as long as a sample is in the vectors
  or in the queue one of them can go on; and when none is, every sample taken over so far has been
  dumped or destroyed.
\<close>

theorem samples_settle:
  assumes "heads_ok w" and "0 < sz" and "system w sz c subs0 g0 st0" and "\<not> stop_flag st0"
    and "settling w sz c subs0 g0 st0 n subs g st"
  shows "n \<le> 6 * length (in_hand st0) + 5 * nat (in_queue st0) + vectors_left st0 + 10 \<and>
    (in_hand st \<noteq> [] \<or> in_queue st \<noteq> 0 \<longrightarrow>
      (\<exists>st'. dump_next w st = Some st') \<or> (\<forall>e. \<exists>st'. grab_next w e st = Some st')) \<and>
    (in_hand st = [] \<and> in_queue st = 0 \<longrightarrow>
      int (length (destroyed st)) + int (length (dumped st)) = grab_count st0 + int (length (in_hand st0)))"
proof -
  obtain ls0 ws0 ks0 val0 where "machine_ok w sz c subs0 g0 st0 ls0 ws0 ks0 val0"
    using system_runs [OF assms(1-3)] by blast
  from settling_ok [OF assms(1,2) this assms(4,5)] obtain ls ws ks val where m: "machine_ok w sz c subs g st ls ws ks val"
    and run: "\<not> stop_flag st" and n: "n + work_left w st \<le> work_left w st0" and t: "taken_over st = taken_over st0" by blast
  have lanes: "lanes_ok w st ls ws ks" using m by (simp add: machine_ok_def)
  have "n \<le> 6 * length (in_hand st0) + 5 * nat (in_queue st0) + vectors_left st0 + 10"
    using n work_left_bound [of w st0] by linarith
  moreover have "int (length (destroyed st)) + int (length (dumped st)) = grab_count st0 + int (length (in_hand st0))"
    if "in_hand st = []" "in_queue st = 0"
    using that t lanes by (simp add: taken_over_def in_queue_def lanes_ok_def counters_ok_def)
  ultimately show ?thesis using someone_moves [OF lanes run] by blast
qed

text \<open>A sample was submitted, and a round has taken it over.\<close>

lemma example_round:
  "\<exists>g st. system example_surroundings 2048 7 [10] g st \<and> \<not> stop_flag st \<and> dump_pos st = Dump_start 0 \<and> in_hand st = [10]"
proof -
  let ?w = example_surroundings
  have sz: "0 < (2048 :: nat)" by simp
  have hd: "tmp_root ?w \<noteq> 10" "10 \<notin> heads ?w" by (auto simp: example_surroundings_def heads_def)
  obtain g st where s: "system ?w 2048 7 [10] g st" and pos: "grab_pos st = Grab_start" "dump_pos st = Dump_start 0"
    and st: "\<not> stop_flag st" "grab_count st = 0" "last_active_cpuwide_us st = 0" using example_system by blast
  obtain ls ws ks val where m: "machine_ok ?w 2048 7 [10] g st ls ws ks val" using system_runs [OF example_heads_ok sz s] by blast
  have lanes: "lanes_ok ?w st ls ws ks" using m by (simp add: machine_ok_def)
  have idle: "in_hand st = []" by (simp add: in_hand_def pos)
  have "int (length (destroyed st)) + int (length (dumped st)) + int (length (ls @ ws @ ks)) = 0"
    using lanes st(2) unfolding lanes_ok_def counters_ok_def by linarith
  then have "destroyed st = []" "dumped st = []" "ls = []" "ws = []" "ks = []" by (simp_all flip: length_0_conv)
  then have H: "holdings (owner g) val 7 = {#10#}" and e: "ls = []" "ws = []"
    using m idle by (simp_all add: machine_ok_def total_view)
  obtain h g' where res: "reset 2048 CombineCollected (\<lambda>_. []) 7 g = Some (h, g')" and den: "denotes (world g') h {#10#}"
    using next_reset [OF m] unfolding H by blast
  obtain xs where xs: "headed (world g') h xs" "mset xs = {#10#}" using denotes_headed [OF den] by metis
  then have x: "xs = [10]" by (simp add: mset_single_iff_right)
  then have h: "h = Some 10" "ring (world g') [10]" using xs(1) by (cases h; simp add: headed_def)+
  let ?st = "st\<lparr>c_links := world g'\<rparr>"
  have t: "taken 2048 7 g (concat (map (\<lambda>_. []) [0..<n])) = map Some []" for n by (simp add: taken_def)
  obtain val' where "lanes_ok ?w ?st ls ws []"
    using reset_machine [OF example_heads_ok m pos(1) ready_Nil t res] by (auto simp: machine_ok_def)
  moreover have hx: "headed (c_links ?st) (Some 10) [10]" using h by (simp add: headed_def)
  have "long_range (last_active_cpuwide_us ?st + COLLECTOR_GRAB_INTERVAL_US)"
    by (simp add: st(3) COLLECTOR_GRAB_INTERVAL_US_def long_range_def)
  from grab_begin_returns [OF hx _ this, of ?w] obtain st' where
    b: "grab_begin ?w (Some 10) ?st = Some st'" "dump_pos st' = Dump_start 0" "\<not> stop_flag st'" using hd(1) pos st(1) by auto
  ultimately have "mset (in_hand st') = {#10#}"
    using begin_with_samples [OF _ example_heads_ok, of ?st ls ws "[]" 10 "[]" st'] h(2) hd(2) pos(1)
    by (simp add: e off_heads_def queue_view_def)
  then have "in_hand st' = [10]" by (simp add: mset_single_iff_right)
  moreover have "system ?w 2048 7 ([10] @ []) (g'\<lparr>world := c_links st'\<rparr>) st'"
    by (rule system.step [OF s grab_began [OF pos(1) st(1) ready_Nil t res]]) (use b(1) h(1) in simp)
  ultimately show ?thesis using b(2,3) by auto
qed

theorem samples_settle_witness:
  "\<exists>g st st'. system example_surroundings 2048 7 [10] g st \<and> in_hand st = [10] \<and>
    settling example_surroundings 2048 7 [10] g st 1 [10] (g\<lparr>world := c_links st'\<rparr>) st' \<and>
    1 \<le> 6 * length (in_hand st) + 5 * nat (in_queue st) + vectors_left st + 10 \<and> in_hand st' = [10] \<and>
    ((\<exists>st2. dump_next example_surroundings st' = Some st2) \<or> (\<forall>e. \<exists>st2. grab_next example_surroundings e st' = Some st2))"
proof -
  let ?w = example_surroundings
  have sz: "0 < (2048 :: nat)" by simp
  obtain g st where s: "system ?w 2048 7 [10] g st" "\<not> stop_flag st" "dump_pos st = Dump_start 0" "in_hand st = [10]"
    using example_round by blast
  let ?st = "st\<lparr>dump_pos := Dump_await 1\<rparr>"
  have "dump_next ?w st = Some ?st" using s(2,3) by (simp add: dump_next_def)
  from settling.dump [OF settling.here this] have r: "settling ?w 2048 7 [10] g st 1 [10] (g\<lparr>world := c_links ?st\<rparr>) ?st"
    by simp
  have i: "in_hand ?st = [10]" using s(4) by (simp add: in_hand_def)
  from samples_settle [OF example_heads_ok sz s(1,2) r] show ?thesis
    using s(1,4) r i by (intro exI [of _ g] exI [of _ st] exI [of _ ?st]) simp
qed

end
