(* ===== verification/Interposition.thy ===== *)
theory Interposition
  imports Contention
begin

text \<open>
  What \<^verbatim>\<open>src/hook_mutex.cpp\<close> puts in the place of \<open>pthread_mutex_lock\<close> and \<open>pthread_mutex_unlock\<close>:
  the hooks of \<open>Contention\<close>, called with the real functions that \<open>mutex_hook_init\<close> looked up. The
  state of the mutexes is the type \<open>'m\<close> of the C library; its lock function is a parameter that
  gives the result and the new state, or \<open>None\<close> in a state in which the caller has to wait.
  Threads run the parts of their calls in any order; a part ends at a call of the library.
\<close>

section \<open>The real functions\<close>

type_synonym 'm mutex_function = "nat \<Rightarrow> u64 \<Rightarrow> 'm \<Rightarrow> (int \<times> 'm) option"

record 'm hook_pointers =
  real_pthread_mutex_lock_func :: "'m mutex_function option"
  real_pthread_mutex_unlock_func :: "'m mutex_function option"

definition mutex_hook_init ::
  "(string \<Rightarrow> 'm mutex_function option) \<Rightarrow> 'm hook_pointers \<Rightarrow> 'm hook_pointers" where
  "mutex_hook_init dlsym h =
     h\<lparr>real_pthread_mutex_lock_func := dlsym ''pthread_mutex_lock'',
       real_pthread_mutex_unlock_func := dlsym ''pthread_mutex_unlock''\<rparr>"

text \<open>Run when the library is loaded; a lock may be taken before that.\<close>

definition mutex_hook_constructor ::
  "(string \<Rightarrow> 'm mutex_function option) \<Rightarrow> 'm hook_pointers \<Rightarrow> 'm hook_pointers" where
  "mutex_hook_constructor dlsym h = mutex_hook_init dlsym h"

definition lock_pointer_check ::
  "(string \<Rightarrow> 'm mutex_function option) \<Rightarrow> 'm hook_pointers \<Rightarrow> 'm hook_pointers" where
  "lock_pointer_check dlsym h =
     (if real_pthread_mutex_lock_func h = None then mutex_hook_init dlsym h else h)"

definition unlock_pointer_check ::
  "(string \<Rightarrow> 'm mutex_function option) \<Rightarrow> 'm hook_pointers \<Rightarrow> 'm hook_pointers" where
  "unlock_pointer_check dlsym h =
     (if real_pthread_mutex_unlock_func h = None then mutex_hook_init dlsym h else h)"

text \<open>A call through a pointer: undefined if it is null.\<close>

definition call_through ::
  "'m mutex_function option \<Rightarrow> nat \<Rightarrow> u64 \<Rightarrow> 'm \<Rightarrow> (int \<times> 'm) option" where
  "call_through f t m x = do { g \<leftarrow> f; g t m x }"

section \<open>Interposed programs\<close>

datatype operation = Lock_call | Unlock_call

text \<open>A call that took effect: the thread, the function, the mutex and the result.\<close>

type_synonym event = "nat \<times> operation \<times> u64 \<times> int"

datatype phase =
  Idle
  | In_lock u64 lock_plan
  | In_unlock u64 "(u64 \<times> pthread_contention_site_t) option"
  | After_unlock u64 "(u64 \<times> pthread_contention_site_t) option" int

text \<open>
  The program and its mutexes. \<open>answers t\<close> are the calls of thread \<open>t\<close> that have returned, with
  what they returned to the program; \<open>effects\<close> are all calls of the library that changed a mutex or
  failed to, in the order they happened; \<open>sent_samples\<close> are the samples given to the collector.
\<close>

record 'm interposed =
  pointers :: "'m hook_pointers"
  i_shared :: shared
  i_thread :: "nat \<Rightarrow> thread"
  i_phase :: "nat \<Rightarrow> phase"
  mutexes :: 'm
  effects :: "event list"
  answers :: "nat \<Rightarrow> event list"
  sent_samples :: "(SampledContention \<times> u64) list"

definition interposed_init :: "'m \<Rightarrow> 'm interposed" where
  "interposed_init x = \<lparr>pointers = \<lparr>real_pthread_mutex_lock_func = None, real_pthread_mutex_unlock_func = None\<rparr>,
     i_shared = shared_init, i_thread = (\<lambda>_. thread_init), i_phase = (\<lambda>_. Idle), mutexes = x,
     effects = [], answers = (\<lambda>_. []), sent_samples = []\<rparr>"

definition answer :: "event \<Rightarrow> 'm interposed \<Rightarrow> 'm interposed" where
  "answer e w = w\<lparr>answers := (answers w)(fst e := answers w (fst e) @ [e]), i_phase := (i_phase w)(fst e := Idle)\<rparr>"

text \<open>
  \<open>pthread_mutex_trylock\<close> is called when the profiler is on and the thread is not inside it;
  otherwise the hook goes on to the real lock at once, as it does after \<open>EBUSY\<close>.
\<close>

definition tried_lock :: "(nat \<Rightarrow> u64 \<Rightarrow> 'm \<Rightarrow> int \<times> 'm) \<Rightarrow> nat \<Rightarrow> u64 \<Rightarrow> 'm interposed \<Rightarrow> int \<times> 'm" where
  "tried_lock trylock t mutex w =
     (if \<not> g_cp (i_shared w) \<or> tls_inside_lock (i_thread w t) then (EBUSY, mutexes w)
      else trylock t mutex (mutexes w))"

text \<open>The lock hook up to the real lock.\<close>

definition pthread_mutex_lock_begin ::
  "(string \<Rightarrow> 'm mutex_function option) \<Rightarrow> (nat \<Rightarrow> u64 \<Rightarrow> 'm \<Rightarrow> int \<times> 'm) \<Rightarrow> int \<Rightarrow> u64 \<Rightarrow> u64 \<Rightarrow> u64 \<Rightarrow>
     nat \<Rightarrow> u64 \<Rightarrow> 'm interposed \<Rightarrow> 'm interposed" where
  "pthread_mutex_lock_begin dlsym trylock expected mono_us rand now_ns t mutex w =
     (let w = w\<lparr>pointers := lock_pointer_check dlsym (pointers w)\<rparr>;
          (res, x) = tried_lock trylock t mutex w;
          (s, th, plan) = lock_enter res expected mono_us rand now_ns mutex (i_shared w) (i_thread w t)
      in w\<lparr>i_shared := s, i_thread := (i_thread w)(t := th), i_phase := (i_phase w)(t := In_lock mutex plan),
           mutexes := x,
           effects := effects w @ (if res = EBUSY then [] else [(t, Lock_call, mutex, res)])\<rparr>)"

text \<open>
  The rest of the lock hook: the real lock, unless \<open>trylock\<close> settled the call, and the return.
  \<open>None\<close>: the thread waits (or the pointer is null).
\<close>

definition pthread_mutex_lock_end ::
  "bool \<Rightarrow> u64 \<Rightarrow> nat \<Rightarrow> u64 \<Rightarrow> lock_plan \<Rightarrow> 'm interposed \<Rightarrow> 'm interposed option" where
  "pthread_mutex_lock_end exchanged now_ns t mutex plan w = do {
     (res, x) \<leftarrow> (case plan of Returned r \<Rightarrow> Some (r, mutexes w)
                  | _ \<Rightarrow> call_through (real_pthread_mutex_lock_func (pointers w)) t mutex (mutexes w));
     let (s, th, r) = lock_finish exchanged res now_ns mutex plan (i_shared w) (i_thread w t);
     Some (answer (t, Lock_call, mutex, r)
       (w\<lparr>i_shared := s, i_thread := (i_thread w)(t := th), mutexes := x,
          effects := effects w @ (case plan of Returned _ \<Rightarrow> [] | _ \<Rightarrow> [(t, Lock_call, mutex, res)])\<rparr>)) }"

text \<open>The unlock hook before the real unlock, the real unlock, and what follows it outside the lock.\<close>

definition pthread_mutex_unlock_begin ::
  "(string \<Rightarrow> 'm mutex_function option) \<Rightarrow> u64 \<Rightarrow> nat \<Rightarrow> u64 \<Rightarrow> 'm interposed \<Rightarrow> 'm interposed" where
  "pthread_mutex_unlock_begin dlsym now_ns t mutex w =
     (let w = w\<lparr>pointers := unlock_pointer_check dlsym (pointers w)\<rparr>;
          (s, th, saved) = unlock_begin now_ns mutex (i_shared w) (i_thread w t)
      in w\<lparr>i_shared := s, i_thread := (i_thread w)(t := th), i_phase := (i_phase w)(t := In_unlock mutex saved)\<rparr>)"

definition pthread_mutex_unlock_call ::
  "nat \<Rightarrow> u64 \<Rightarrow> (u64 \<times> pthread_contention_site_t) option \<Rightarrow> 'm interposed \<Rightarrow> 'm interposed option" where
  "pthread_mutex_unlock_call t mutex saved w = do {
     (res, x) \<leftarrow> call_through (real_pthread_mutex_unlock_func (pointers w)) t mutex (mutexes w);
     Some (w\<lparr>mutexes := x, i_phase := (i_phase w)(t := After_unlock mutex saved res),
             effects := effects w @ [(t, Unlock_call, mutex, res)]\<rparr>) }"

definition pthread_mutex_unlock_end ::
  "(nat \<Rightarrow> u64 list) \<Rightarrow> u64 \<Rightarrow> nat \<Rightarrow> u64 \<Rightarrow> (u64 \<times> pthread_contention_site_t) option \<Rightarrow> int \<Rightarrow>
     'm interposed \<Rightarrow> 'm interposed option" where
  "pthread_mutex_unlock_end backtrace now_ns t mutex saved res w = do {
     sample \<leftarrow> unlock_finish backtrace now_ns saved;
     Some (answer (t, Unlock_call, mutex, res)
       (w\<lparr>sent_samples := sent_samples w @ (case sample of None \<Rightarrow> [] | Some s \<Rightarrow> [s])\<rparr>)) }"

inductive interposed_step ::
  "(string \<Rightarrow> 'm mutex_function option) \<Rightarrow> (nat \<Rightarrow> u64 \<Rightarrow> 'm \<Rightarrow> int \<times> 'm) \<Rightarrow> 'm interposed \<Rightarrow> 'm interposed \<Rightarrow> bool"
  for dlsym trylock where
  constructed: "interposed_step dlsym trylock w (w\<lparr>pointers := mutex_hook_constructor dlsym (pointers w)\<rparr>)"
| lock_called: "i_phase w t = Idle \<Longrightarrow> user_address m \<Longrightarrow>
    interposed_step dlsym trylock w (pthread_mutex_lock_begin dlsym trylock ex us rand now t m w)"
| lock_returned: "i_phase w t = In_lock m plan \<Longrightarrow> pthread_mutex_lock_end x now t m plan w = Some w' \<Longrightarrow>
    interposed_step dlsym trylock w w'"
| unlock_called: "i_phase w t = Idle \<Longrightarrow> user_address m \<Longrightarrow>
    interposed_step dlsym trylock w (pthread_mutex_unlock_begin dlsym now t m w)"
| unlocked: "i_phase w t = In_unlock m saved \<Longrightarrow> pthread_mutex_unlock_call t m saved w = Some w' \<Longrightarrow>
    interposed_step dlsym trylock w w'"
| unlock_returned: "i_phase w t = After_unlock m saved r \<Longrightarrow>
    pthread_mutex_unlock_end bt now t m saved r w = Some w' \<Longrightarrow> interposed_step dlsym trylock w w'"
| profiler_started: "\<not> g_cp (i_shared w) \<Longrightarrow> interposed_step dlsym trylock w (w\<lparr>i_shared := profiler_on (i_shared w)\<rparr>)"
| profiler_stopped: "g_cp (i_shared w) \<Longrightarrow> interposed_step dlsym trylock w (w\<lparr>i_shared := profiler_off (i_shared w)\<rparr>)"
| limit_updated:
    "update_speed_limit ex now (g_cp_sl (i_shared w)) last_count cur interval = Some (sl', c) \<Longrightarrow>
    interposed_step dlsym trylock w (w\<lparr>i_shared := (i_shared w)\<lparr>g_cp_sl := sl'\<rparr>\<rparr>)"

inductive interposed_run ::
  "(string \<Rightarrow> 'm mutex_function option) \<Rightarrow> (nat \<Rightarrow> u64 \<Rightarrow> 'm \<Rightarrow> int \<times> 'm) \<Rightarrow> 'm \<Rightarrow> 'm interposed \<Rightarrow> bool"
  for dlsym trylock x where
  loaded: "interposed_run dlsym trylock x (interposed_init x)"
| continued: "interposed_run dlsym trylock x w \<Longrightarrow> interposed_step dlsym trylock w w' \<Longrightarrow>
    interposed_run dlsym trylock x w'"

section \<open>The program without the profiler\<close>

text \<open>A call of the library on its own, with the result it is said to have.\<close>

fun plain_step :: "'m mutex_function \<Rightarrow> 'm mutex_function \<Rightarrow> event \<Rightarrow> 'm \<Rightarrow> 'm option" where
  "plain_step lock unlock (t, op, m, r) x = do {
     (r', x') \<leftarrow> (case op of Lock_call \<Rightarrow> lock t m x | Unlock_call \<Rightarrow> unlock t m x);
     if r' = r then Some x' else None }"

text \<open>
  What the hook relies on: \<open>trylock\<close> either answers \<open>EBUSY\<close> and changes nothing, or does what
  \<open>pthread_mutex_lock\<close> does in that state, without waiting.
\<close>

definition trylock_law :: "'m mutex_function \<Rightarrow> (nat \<Rightarrow> u64 \<Rightarrow> 'm \<Rightarrow> int \<times> 'm) \<Rightarrow> bool" where
  "trylock_law lock trylock \<longleftrightarrow>
     (\<forall>t m x. if fst (trylock t m x) = EBUSY then snd (trylock t m x) = x else lock t m x = Some (trylock t m x))"

text \<open>A library whose mutexes remember their owner; it is used in examples only.\<close>

definition example_lock :: "(u64 \<Rightarrow> nat option) mutex_function" where
  "example_lock t m x = (if x m = None then Some (0, x(m := Some t)) else None)"

definition example_trylock :: "nat \<Rightarrow> u64 \<Rightarrow> (u64 \<Rightarrow> nat option) \<Rightarrow> int \<times> (u64 \<Rightarrow> nat option)" where
  "example_trylock t m x = (if x m = None then (0, x(m := Some t)) else (EBUSY, x))"

definition example_unlock :: "(u64 \<Rightarrow> nat option) mutex_function" where
  "example_unlock t m x = Some (if x m = Some t then (0, x(m := None)) else (1, x))"

definition example_dlsym :: "string \<Rightarrow> (u64 \<Rightarrow> nat option) mutex_function option" where
  "example_dlsym = [''pthread_mutex_lock'' \<mapsto> example_lock, ''pthread_mutex_unlock'' \<mapsto> example_unlock]"

lemma example_trylock_law: "trylock_law example_lock example_trylock"
  by (simp add: trylock_law_def example_lock_def example_trylock_def EBUSY_def)

section \<open>Invariants\<close>

lemma lock_finish_result:
  "lock_finish x res now m plan s th = (s', th', r) \<Longrightarrow> r = (case plan of Returned r \<Rightarrow> r | _ \<Rightarrow> res)"
  by (auto simp: lock_finish_def Let_def split: lock_plan.splits if_splits option.splits prod.splits bool.splits)

lemma lock_enter_plan:
  "lock_enter tr ex us rand now m s th = (s', th', plan) \<Longrightarrow>
   case plan of Returned r \<Rightarrow> r = tr \<and> tr \<noteq> EBUSY \<and> g_cp s \<and> \<not> tls_inside_lock th
   | _ \<Rightarrow> tr = EBUSY \<or> \<not> g_cp s \<or> tls_inside_lock th"
  by (auto simp: lock_enter_def Let_def split: lock_plan.splits if_splits prod.splits)

text \<open>The pointers are null or what \<open>dlsym\<close> found, and not null inside a hook.\<close>

definition pointers_ok :: "(string \<Rightarrow> 'm mutex_function option) \<Rightarrow> 'm interposed \<Rightarrow> bool" where
  "pointers_ok dlsym w \<longleftrightarrow>
     pointers w = mutex_hook_init dlsym (pointers w) \<or>
     (real_pthread_mutex_lock_func (pointers w) = None \<and> real_pthread_mutex_unlock_func (pointers w) = None \<and>
      i_phase w = (\<lambda>_. Idle))"

text \<open>The call of a thread that took effect and has not returned.\<close>

fun pending :: "nat \<Rightarrow> phase \<Rightarrow> event list" where
  "pending t Idle = []"
| "pending t (In_lock m plan) = (case plan of Returned r \<Rightarrow> [(t, Lock_call, m, r)] | _ \<Rightarrow> [])"
| "pending t (In_unlock m saved) = []"
| "pending t (After_unlock m saved r) = [(t, Unlock_call, m, r)]"

text \<open>The threads as \<open>Contention\<close> sees them.\<close>

fun hook_of :: "phase \<Rightarrow> hook_state" where
  "hook_of Idle = Outside"
| "hook_of (In_lock m plan) = Locking m plan"
| "hook_of (In_unlock m saved) = Unlocking saved"
| "hook_of (After_unlock m saved r) = Unlocking saved"

definition world_of :: "'m interposed \<Rightarrow> world" where
  "world_of w = \<lparr>w_shared = i_shared w, w_thread = i_thread w, w_hook = (\<lambda>t. hook_of (i_phase w t))\<rparr>"

definition interposed_ok ::
  "'m mutex_function \<Rightarrow> 'm mutex_function \<Rightarrow> (string \<Rightarrow> 'm mutex_function option) \<Rightarrow> 'm \<Rightarrow> 'm interposed \<Rightarrow> bool" where
  "interposed_ok lock unlock dlsym x w \<longleftrightarrow>
     pointers_ok dlsym w \<and>
     foldM (plain_step lock unlock) (effects w) x = Some (mutexes w) \<and>
     (\<forall>t. [e \<leftarrow> effects w. fst e = t] = answers w t @ pending t (i_phase w t)) \<and>
     reachable (world_of w)"

lemma pointers_check:
  assumes "pointers_ok dlsym w"
  shows "mutex_hook_init dlsym (lock_pointer_check dlsym (pointers w)) = lock_pointer_check dlsym (pointers w)"
    and "mutex_hook_init dlsym (unlock_pointer_check dlsym (pointers w)) = unlock_pointer_check dlsym (pointers w)"
  using assms by (auto simp: pointers_ok_def lock_pointer_check_def unlock_pointer_check_def mutex_hook_init_def)

lemma pointers_found:
  assumes "pointers_ok dlsym w" and "i_phase w t \<noteq> Idle"
  shows "real_pthread_mutex_lock_func (pointers w) = dlsym ''pthread_mutex_lock''"
    and "real_pthread_mutex_unlock_func (pointers w) = dlsym ''pthread_mutex_unlock''"
proof -
  have "pointers w = mutex_hook_init dlsym (pointers w)" using assms by (auto simp: pointers_ok_def)
  then have "real_pthread_mutex_lock_func (pointers w) = real_pthread_mutex_lock_func (mutex_hook_init dlsym (pointers w))"
    "real_pthread_mutex_unlock_func (pointers w) = real_pthread_mutex_unlock_func (mutex_hook_init dlsym (pointers w))"
    by simp_all
  then show "real_pthread_mutex_lock_func (pointers w) = dlsym ''pthread_mutex_lock''"
    "real_pthread_mutex_unlock_func (pointers w) = dlsym ''pthread_mutex_unlock''"
    by (simp_all add: mutex_hook_init_def)
qed

lemma plain_snoc:
  "foldM (plain_step lock unlock) es x = Some y \<Longrightarrow> plain_step lock unlock e y = Some z \<Longrightarrow>
   foldM (plain_step lock unlock) (es @ [e]) x = Some z"
  by (simp add: foldM_append)

text \<open>A part of a call of thread \<open>t\<close>: what it has to satisfy to keep the invariant.\<close>

lemma interposed_ok_part:
  assumes "interposed_ok lock unlock dlsym x w" and "pointers_ok dlsym w'"
    and "effects w' = effects w @ es" and "\<And>e. e \<in> set es \<Longrightarrow> fst e = t"
    and "foldM (plain_step lock unlock) es (mutexes w) = Some (mutexes w')"
    and "i_phase w' = (i_phase w)(t := p)" and "answers w' = (answers w)(t := answers w t @ as)"
    and "pending t (i_phase w t) @ es = as @ pending t p"
    and "world_step (world_of w) (world_of w')"
  shows "interposed_ok lock unlock dlsym x w'"
proof -
  have ok: "foldM (plain_step lock unlock) (effects w) x = Some (mutexes w)"
    "\<And>u. [e \<leftarrow> effects w. fst e = u] = answers w u @ pending u (i_phase w u)" "reachable (world_of w)"
    using assms(1) by (simp_all add: interposed_ok_def)
  have "[e \<leftarrow> es. fst e = u] = (if u = t then es else [])" for u
    using assms(4) by (auto simp: filter_empty_conv intro!: filter_True)
  then have "[e \<leftarrow> effects w'. fst e = u] = answers w' u @ pending u (i_phase w' u)" for u
    using ok(2) [of u] assms(8) by (auto simp: assms(3,6,7))
  moreover have "foldM (plain_step lock unlock) (effects w') x = Some (mutexes w')"
    by (simp add: assms(3) foldM_append ok(1) assms(5))
  ultimately show ?thesis using assms(2) more [OF ok(3) assms(9)] by (simp add: interposed_ok_def)
qed

lemma world_of_part:
  assumes "i_phase w' = (i_phase w)(t := p)"
    and "world_step (world_of w) ((world_of w)\<lparr>w_shared := i_shared w', w_thread := i_thread w',
      w_hook := (w_hook (world_of w))(t := hook_of p)\<rparr>)"
  shows "world_step (world_of w) (world_of w')"
proof -
  have "world_of w' = (world_of w)\<lparr>w_shared := i_shared w', w_thread := i_thread w',
      w_hook := (w_hook (world_of w))(t := hook_of p)\<rparr>"
    using assms(1) by (auto simp: world_of_def fun_eq_iff)
  then show ?thesis using assms(2) by simp
qed

lemma world_of_simps:
  "w_shared (world_of w) = i_shared w" "w_thread (world_of w) = i_thread w"
  "w_hook (world_of w) t = hook_of (i_phase w t)"
  by (simp_all add: world_of_def)

lemma tried_lock_pointers: "tried_lock trylock t m (w\<lparr>pointers := p\<rparr>) = tried_lock trylock t m w"
  by (simp add: tried_lock_def)

lemma lock_begin_eq:
  assumes "tried_lock trylock t m w = (res, y)"
    and "lock_enter res ex us rand now m (i_shared w) (i_thread w t) = (s, th, plan)"
  shows "pthread_mutex_lock_begin dlsym trylock ex us rand now t m w =
    w\<lparr>pointers := lock_pointer_check dlsym (pointers w), i_shared := s, i_thread := (i_thread w)(t := th),
      i_phase := (i_phase w)(t := In_lock m plan), mutexes := y,
      effects := effects w @ (if res = EBUSY then [] else [(t, Lock_call, m, res)])\<rparr>"
  by (simp add: pthread_mutex_lock_begin_def tried_lock_pointers assms Let_def)

lemma lock_begin_ok:
  assumes ok: "interposed_ok lock unlock dlsym x w" and law: "trylock_law lock trylock"
    and t: "i_phase w t = Idle" "user_address m"
  shows "interposed_ok lock unlock dlsym x (pthread_mutex_lock_begin dlsym trylock ex us rand now t m w)"
proof -
  obtain res y where tr: "tried_lock trylock t m w = (res, y)" by (metis prod.exhaust)
  obtain s th plan where e: "lock_enter res ex us rand now m (i_shared w) (i_thread w t) = (s, th, plan)"
    by (metis prod.exhaust)
  let ?h = "if res = EBUSY then [] else [(t, Lock_call, m, res)]"
  let ?w = "w\<lparr>pointers := lock_pointer_check dlsym (pointers w), i_shared := s, i_thread := (i_thread w)(t := th),
      i_phase := (i_phase w)(t := In_lock m plan), mutexes := y, effects := effects w @ ?h\<rparr>"
  have w': "pthread_mutex_lock_begin dlsym trylock ex us rand now t m w = ?w"
    by (rule lock_begin_eq [OF tr e])
  have y: "if res = EBUSY then y = mutexes w else lock t m (mutexes w) = Some (res, y)"
    using tr law [unfolded trylock_law_def, rule_format, of t m "mutexes w"] by (auto simp: tried_lock_def split: if_splits)
  have h: "foldM (plain_step lock unlock) ?h (mutexes w) = Some y" using y by auto
  have p: "pending t (In_lock m plan) = ?h"
    using lock_enter_plan [OF e] tr by (cases plan) (auto simp: tried_lock_def split: if_splits)
  have "pointers_ok dlsym w" using ok by (simp add: interposed_ok_def)
  from pointers_check(1) [OF this] have "pointers_ok dlsym ?w" by (simp add: pointers_ok_def)
  moreover have "world_step (world_of w) (world_of ?w)"
  proof (rule world_of_part)
    show "i_phase ?w = (i_phase w)(t := In_lock m plan)" by simp
    show "world_step (world_of w) ((world_of w)\<lparr>w_shared := i_shared ?w, w_thread := i_thread ?w,
        w_hook := (w_hook (world_of w))(t := hook_of (In_lock m plan))\<rparr>)"
      using world_step.enter [of "world_of w" t m res ex us rand now s th plan] t e by (simp add: world_of_simps)
  qed
  ultimately show ?thesis unfolding w'
    using h t by (intro interposed_ok_part [OF ok, where t = t and es = ?h and as = "[]" and p = "In_lock m plan"])
      (simp_all add: p del: pending.simps(2) split: if_splits)
qed

lemma lock_end_ok:
  assumes ok: "interposed_ok lock unlock dlsym x w" and lk: "dlsym ''pthread_mutex_lock'' = Some lock"
    and t: "i_phase w t = In_lock m plan" and w': "pthread_mutex_lock_end ex now t m plan w = Some w'"
  shows "interposed_ok lock unlock dlsym x w'"
proof -
  have p: "pointers_ok dlsym w" using ok by (simp add: interposed_ok_def)
  have f: "real_pthread_mutex_lock_func (pointers w) = Some lock" using pointers_found(1) [OF p, of t] t lk by simp
  obtain res y where r: "(case plan of Returned r \<Rightarrow> Some (r, mutexes w) | _ \<Rightarrow> lock t m (mutexes w)) = Some (res, y)"
    using w' by (cases plan) (auto simp: pthread_mutex_lock_end_def f call_through_def split: Option.bind_splits)
  obtain s th r' where e: "lock_finish ex res now m plan (i_shared w) (i_thread w t) = (s, th, r')" by (metis prod.exhaust)
  let ?h = "case plan of Returned _ \<Rightarrow> [] | _ \<Rightarrow> [(t, Lock_call, m, res)]"
  have r': "r' = res" using lock_finish_result [OF e] r by (auto split: lock_plan.splits)
  have weq: "w' = answer (t, Lock_call, m, res)
       (w\<lparr>i_shared := s, i_thread := (i_thread w)(t := th), mutexes := y, effects := effects w @ ?h\<rparr>)"
    using w' r e by (cases plan) (auto simp: pthread_mutex_lock_end_def f call_through_def r')
  show ?thesis
  proof (rule interposed_ok_part [OF ok, where t = t and es = ?h and as = "[(t, Lock_call, m, res)]" and p = Idle])
    show "pointers_ok dlsym w'" using p t by (auto simp: pointers_ok_def weq answer_def fun_eq_iff dest: spec [of _ t])
    show "effects w' = effects w @ ?h" "i_phase w' = (i_phase w)(t := Idle)"
      "answers w' = (answers w)(t := answers w t @ [(t, Lock_call, m, res)])" by (simp_all add: weq answer_def)
    show "foldM (plain_step lock unlock) ?h (mutexes w) = Some (mutexes w')" "\<And>e. e \<in> set ?h \<Longrightarrow> fst e = t"
      "pending t (i_phase w t) @ ?h = [(t, Lock_call, m, res)] @ pending t Idle"
      using r t by (auto simp: weq answer_def split: lock_plan.splits)
    have "i_phase w' = (i_phase w)(t := Idle)" by (simp add: weq answer_def)
    then show "world_step (world_of w) (world_of w')"
    proof (rule world_of_part)
      show "world_step (world_of w) ((world_of w)\<lparr>w_shared := i_shared w', w_thread := i_thread w',
          w_hook := (w_hook (world_of w))(t := hook_of Idle)\<rparr>)"
        using world_step.finish [of "world_of w" t m plan ex res now s th r'] t e
        by (simp add: world_of_simps weq answer_def)
    qed
  qed
qed

lemma unlock_begin_ok:
  assumes ok: "interposed_ok lock unlock dlsym x w" and t: "i_phase w t = Idle" "user_address m"
  shows "interposed_ok lock unlock dlsym x (pthread_mutex_unlock_begin dlsym now t m w)"
proof -
  obtain s th saved where e: "unlock_begin now m (i_shared w) (i_thread w t) = (s, th, saved)" by (metis prod.exhaust)
  let ?w = "w\<lparr>pointers := unlock_pointer_check dlsym (pointers w), i_shared := s, i_thread := (i_thread w)(t := th),
      i_phase := (i_phase w)(t := In_unlock m saved)\<rparr>"
  have w': "pthread_mutex_unlock_begin dlsym now t m w = ?w"
    by (simp add: pthread_mutex_unlock_begin_def e Let_def)
  have "pointers_ok dlsym w" using ok by (simp add: interposed_ok_def)
  from pointers_check(2) [OF this] have p: "pointers_ok dlsym ?w" by (simp add: pointers_ok_def)
  have "world_step (world_of w) (world_of ?w)"
  proof (rule world_of_part)
    show "i_phase ?w = (i_phase w)(t := In_unlock m saved)" by simp
    show "world_step (world_of w) ((world_of w)\<lparr>w_shared := i_shared ?w, w_thread := i_thread ?w,
        w_hook := (w_hook (world_of w))(t := hook_of (In_unlock m saved))\<rparr>)"
      using world_step.unlock [of "world_of w" t m now s th saved] t e by (simp add: world_of_simps)
  qed
  then show ?thesis unfolding w' using p t
    by (intro interposed_ok_part [OF ok, where t = t and es = "[]" and as = "[]" and p = "In_unlock m saved"]) simp_all
qed

lemma unlock_call_ok:
  assumes ok: "interposed_ok lock unlock dlsym x w" and lk: "dlsym ''pthread_mutex_unlock'' = Some unlock"
    and t: "i_phase w t = In_unlock m saved" and w': "pthread_mutex_unlock_call t m saved w = Some w'"
  shows "interposed_ok lock unlock dlsym x w'"
proof -
  have p: "pointers_ok dlsym w" using ok by (simp add: interposed_ok_def)
  have f: "real_pthread_mutex_unlock_func (pointers w) = Some unlock" using pointers_found(2) [OF p, of t] t lk by simp
  obtain res y where r: "unlock t m (mutexes w) = Some (res, y)"
    and weq: "w' = w\<lparr>mutexes := y, i_phase := (i_phase w)(t := After_unlock m saved res),
             effects := effects w @ [(t, Unlock_call, m, res)]\<rparr>"
    using w' by (auto simp: pthread_mutex_unlock_call_def f call_through_def split: Option.bind_splits)
  have "world_of w' = world_of w" using t by (auto simp: world_of_def weq fun_eq_iff)
  moreover have "pointers_ok dlsym w'" using p t by (auto simp: pointers_ok_def weq fun_eq_iff dest: spec [of _ t])
  moreover have "[e \<leftarrow> effects w'. fst e = u] = answers w' u @ pending u (i_phase w' u)" for u
  proof -
    have "[e \<leftarrow> effects w. fst e = u] = answers w u @ pending u (i_phase w u)" using ok by (simp add: interposed_ok_def)
    then show ?thesis using t by (auto simp: weq)
  qed
  ultimately show ?thesis using ok r by (simp add: interposed_ok_def weq foldM_append)
qed

lemma unlock_end_ok:
  assumes ok: "interposed_ok lock unlock dlsym x w"
    and t: "i_phase w t = After_unlock m saved r" and w': "pthread_mutex_unlock_end bt now t m saved r w = Some w'"
  shows "interposed_ok lock unlock dlsym x w'"
proof -
  obtain sample where s: "unlock_finish bt now saved = Some sample"
    and weq: "w' = answer (t, Unlock_call, m, r)
       (w\<lparr>sent_samples := sent_samples w @ (case sample of None \<Rightarrow> [] | Some s \<Rightarrow> [s])\<rparr>)"
    using w' by (auto simp: pthread_mutex_unlock_end_def split: Option.bind_splits)
  have p: "pointers_ok dlsym w" using ok by (simp add: interposed_ok_def)
  show ?thesis
  proof (rule interposed_ok_part [OF ok, where t = t and es = "[]" and as = "[(t, Unlock_call, m, r)]" and p = Idle])
    show "pointers_ok dlsym w'" using p t by (auto simp: pointers_ok_def weq answer_def fun_eq_iff dest: spec [of _ t])
    have "i_phase w' = (i_phase w)(t := Idle)" by (simp add: weq answer_def)
    then show "world_step (world_of w) (world_of w')"
    proof (rule world_of_part)
      show "world_step (world_of w) ((world_of w)\<lparr>w_shared := i_shared w', w_thread := i_thread w',
          w_hook := (w_hook (world_of w))(t := hook_of Idle)\<rparr>)"
        using world_step.submitted [of "world_of w" t saved bt now sample] t s
        by (simp add: world_of_simps weq answer_def) (simp add: world_of_def)
    qed
  qed (use t in \<open>simp_all add: weq answer_def\<close>)
qed

text \<open>Start and stop of the profiler and the grab thread change only the shared variables.\<close>

lemma shared_step_ok:
  assumes "interposed_ok lock unlock dlsym x w" and "world_step (world_of w) ((world_of w)\<lparr>w_shared := s\<rparr>)"
  shows "interposed_ok lock unlock dlsym x (w\<lparr>i_shared := s\<rparr>)"
proof -
  have "world_of (w\<lparr>i_shared := s\<rparr>) = (world_of w)\<lparr>w_shared := s\<rparr>" by (simp add: world_of_def)
  then show ?thesis using assms more by (auto simp: interposed_ok_def pointers_ok_def)
qed

lemma interposed_step_ok:
  assumes "interposed_step dlsym trylock w w'" and "interposed_ok lock unlock dlsym x w"
    and "dlsym ''pthread_mutex_lock'' = Some lock" and "dlsym ''pthread_mutex_unlock'' = Some unlock"
    and "trylock_law lock trylock"
  shows "interposed_ok lock unlock dlsym x w'"
  using assms(1)
proof cases
  case constructed
  have "world_of (w\<lparr>pointers := mutex_hook_constructor dlsym (pointers w)\<rparr>) = world_of w" by (simp add: world_of_def)
  then show ?thesis using assms(2) constructed
    by (simp add: interposed_ok_def pointers_ok_def mutex_hook_constructor_def mutex_hook_init_def)
next
  case profiler_started
  then show ?thesis using shared_step_ok [OF assms(2)] world_step.start [of "world_of w"] by (simp add: world_of_simps)
next
  case profiler_stopped
  then show ?thesis using shared_step_ok [OF assms(2)] world_step.stop [of "world_of w"] by (simp add: world_of_simps)
next
  case limit_updated
  then show ?thesis using shared_step_ok [OF assms(2)] world_step.grab [where w = "world_of w"]
    by (simp add: world_of_simps)
next
  case lock_called
  then show ?thesis using lock_begin_ok [OF assms(2,5)] by simp
next
  case lock_returned
  then show ?thesis using lock_end_ok [OF assms(2,3)] by simp
next
  case unlock_called
  then show ?thesis using unlock_begin_ok [OF assms(2)] by simp
next
  case unlocked
  then show ?thesis using unlock_call_ok [OF assms(2,4)] by simp
next
  case unlock_returned
  then show ?thesis using unlock_end_ok [OF assms(2)] by simp
qed

lemma interposed_run_ok:
  assumes "interposed_run dlsym trylock x w"
    and "dlsym ''pthread_mutex_lock'' = Some lock" and "dlsym ''pthread_mutex_unlock'' = Some unlock"
    and "trylock_law lock trylock"
  shows "interposed_ok lock unlock dlsym x w"
  using assms(1)
proof induction
  case loaded
  have "world_of (interposed_init x) = world_init" by (simp add: world_of_def world_init_def interposed_init_def)
  then have "reachable (world_of (interposed_init x))" by (simp add: init)
  moreover have "pointers_ok dlsym (interposed_init x)"
    unfolding pointers_ok_def interposed_init_def by (rule disjI2) simp
  moreover have "effects (interposed_init x) = []" "mutexes (interposed_init x) = x"
    "answers (interposed_init x) t = []" "pending t (i_phase (interposed_init x) t) = []" for t
    by (simp_all add: interposed_init_def)
  ultimately show ?case by (simp add: interposed_ok_def)
next
  case (continued w w')
  then show ?case using interposed_step_ok [OF continued(2) _ assms(2-4)] by simp
qed

section \<open>Properties\<close>



end
