(* ===== verification/Whole_Program.thy ===== *)
theory Whole_Program
  imports Interposition Profiling
begin

text \<open>
  The program under the profiler, from its calls of \<^verbatim>\<open>pthread_mutex_lock\<close> to the file: the threads of
  \<open>Interposition\<close>, whose unlock hooks hand samples to \<^verbatim>\<open>Collected::submit\<close> (\<^verbatim>\<open>src/collector.cpp\<close>), and
  beside them the collector and a session of \<open>Profiling\<close>, which is open while \<open>g_cp\<close> is set. \<open>K\<close>, \<open>D\<close>
  and \<open>L\<close> are the numbers of samples sent, dumped and dropped before the session.
\<close>

section \<open>Steps\<close>

text \<open>Calls of the program inside the session, and the samples that they sent.\<close>

definition in_session_step ::
  "(string \<Rightarrow> 'm mutex_function option) \<Rightarrow> (nat \<Rightarrow> u64 \<Rightarrow> 'm \<Rightarrow> int \<times> 'm) \<Rightarrow> 'm interposed \<Rightarrow> 'm interposed \<Rightarrow> bool" where
  "in_session_step dlsym trylock x x' \<longleftrightarrow> interposed_step dlsym trylock x x' \<and> g_cp (i_shared x')"

definition calls ::
  "(string \<Rightarrow> 'm mutex_function option) \<Rightarrow> (nat \<Rightarrow> u64 \<Rightarrow> 'm \<Rightarrow> int \<times> 'm) \<Rightarrow>
     'm interposed \<Rightarrow> (SampledContention \<times> u64) list \<Rightarrow> 'm interposed \<Rightarrow> bool" where
  "calls dlsym trylock x new x' \<longleftrightarrow>
     (in_session_step dlsym trylock)\<^sup>*\<^sup>* x x' \<and> sent_samples x' = sent_samples x @ new"

text \<open>
  Calls that send no sample; calls whose samples are submitted during a step of the collector, each
  in an object of its own, in the order of \<open>ps\<close>; and a call whose sample comes later than the
  collector accepts and is returned to the pool.
\<close>

inductive whole ::
  "surroundings \<Rightarrow> nat \<Rightarrow> nat \<Rightarrow> string \<Rightarrow> bool \<Rightarrow> (u64 list \<Rightarrow> u64 list) \<Rightarrow> nat \<Rightarrow> nat \<Rightarrow> nat \<Rightarrow>
     SampledContention multiset \<Rightarrow> (string \<Rightarrow> 'm mutex_function option) \<Rightarrow> (nat \<Rightarrow> u64 \<Rightarrow> 'm \<Rightarrow> int \<times> 'm) \<Rightarrow> 'm \<Rightarrow> 'm interposed \<Rightarrow> u64 list \<Rightarrow> intake \<Rightarrow> collector \<Rightarrow> session \<Rightarrow>
     SampledContention multiset \<Rightarrow> bool"
  for w sz c n removed order D L K old dlsym trylock m where
  begun: "interposed_run dlsym trylock m x \<Longrightarrow> \<not> g_cp (i_shared x) \<Longrightarrow> length (sent_samples x) = K \<Longrightarrow>
    session_started w sz c n removed D L subs g st s \<Longrightarrow> old = image_mset (heap s) (under_way subs st) \<Longrightarrow>
    whole w sz c n removed order D L K old dlsym trylock m (x\<lparr>i_shared := profiler_on (i_shared x)\<rparr>) subs g st s {#}"
| quiet: "whole w sz c n removed order D L K old dlsym trylock m x subs g st s late \<Longrightarrow> calls dlsym trylock x [] x' \<Longrightarrow>
    whole w sz c n removed order D L K old dlsym trylock m x' subs g st s late"
| collected: "whole w sz c n removed order D L K old dlsym trylock m x subs g st s late \<Longrightarrow> calls dlsym trylock x new x' \<Longrightarrow>
    \<forall>q \<in> set new. submit_accepted (snd q) st = Some True \<Longrightarrow> map recs ps = map fst new \<Longrightarrow>
    profile_step w sz c removed order subs g st s ps recs g' st' s' \<Longrightarrow>
    whole w sz c n removed order D L K old dlsym trylock m x' (subs @ ps) g' st' s' late"
| refused: "whole w sz c n removed order D L K old dlsym trylock m x subs g st s late \<Longrightarrow> calls dlsym trylock x [(r, us)] x' \<Longrightarrow>
    submit_accepted us st = Some False \<Longrightarrow> outside subs st p \<Longrightarrow> p \<notin> set (cached s) \<Longrightarrow>
    whole w sz c n removed order D L K old dlsym trylock m x' subs g st (destroy p (filled [p] (\<lambda>_. r) s)) (late + {#r#})"

section \<open>Both sides of the steps\<close>

lemma calls_run: "calls dlsym trylock x new x' \<Longrightarrow> interposed_run dlsym trylock m x \<Longrightarrow> interposed_run dlsym trylock m x'"
proof -
  assume "calls dlsym trylock x new x'" and x: "interposed_run dlsym trylock m x"
  then have "(in_session_step dlsym trylock)\<^sup>*\<^sup>* x x'" by (simp add: calls_def)
  then show ?thesis using x
    by (induction rule: rtranclp_induct) (auto simp: in_session_step_def intro: continued)
qed

lemma calls_in_session:
  "calls dlsym trylock x new x' \<Longrightarrow> g_cp (i_shared x) \<Longrightarrow> g_cp (i_shared x')"
  by (auto simp: calls_def in_session_step_def elim: rtranclp.cases)

lemma whole_sides:
  assumes "whole w sz c n removed order D L K old dlsym trylock m x subs g st s late"
  shows "interposed_run dlsym trylock m x \<and> g_cp (i_shared x) \<and>
    (\<exists>sent. profiled w sz c n removed order D L subs g st s sent \<and> K \<le> length (sent_samples x) \<and>
      old + mset (map fst (drop K (sent_samples x))) = sent + late)"
  using assms
proof induction
  case (begun x subs g st s)
  from started [OF begun(4)] begun(5) have "profiled w sz c n removed order D L subs g st s old" by simp
  then show ?case using begun(3) continued [OF begun(1) profiler_started [OF begun(2)]] by (auto simp: profiler_on_def)
next
  case (quiet x subs g st s late x')
  then show ?case using calls_run calls_in_session by (fastforce simp: calls_def)
next
  case (collected x subs g st s late new x' recs ps g' st' s')
  then obtain sent where "profiled w sz c n removed order D L subs g st s sent"
    and len: "K \<le> length (sent_samples x)" and eq: "old + mset (map fst (drop K (sent_samples x))) = sent + late" by blast
  from stepped [OF this(1) collected.hyps(5)]
  have p: "profiled w sz c n removed order D L (subs @ ps) g' st' s' (sent + image_mset recs (mset ps))" .
  have "sent_samples x' = sent_samples x @ new" using collected.hyps(2) by (simp add: calls_def)
  then have "old + mset (map fst (drop K (sent_samples x'))) = (sent + mset (map recs ps)) + late"
    unfolding collected.hyps(4) using eq len by (simp add: ac_simps)
  then show ?case using p len \<open>sent_samples x' = _\<close> collected.IH calls_run [OF collected.hyps(2)] calls_in_session [OF collected.hyps(2)]
    by auto
next
  case (refused x subs g st s late r us x' p)
  then obtain sent where "profiled w sz c n removed order D L subs g st s sent"
    and len: "K \<le> length (sent_samples x)" and eq: "old + mset (map fst (drop K (sent_samples x))) = sent + late" by blast
  from discarded [OF this(1) refused.hyps(4,5)]
  have p: "profiled w sz c n removed order D L subs g st (destroy p (filled [p] (\<lambda>_. r) s)) sent" .
  have "sent_samples x' = sent_samples x @ [(r, us)]" using refused.hyps(2) by (simp add: calls_def)
  then have "old + mset (map fst (drop K (sent_samples x'))) = sent + (late + {#r#})"
    using eq len by (simp add: ac_simps)
  then show ?case using p len \<open>sent_samples x' = _\<close> refused.IH calls_run [OF refused.hyps(2)] calls_in_session [OF refused.hyps(2)] by auto
qed

section \<open>A contended section\<close>

text \<open>
  The calls of a thread around a contended critical section send exactly the sample of its wait.
  The other threads stand still here once the mutex is free.
\<close>

lemma contended_calls:
  assumes ok: "interposed_ok lock unlock dlsym m0 x" and lib: "dlsym ''pthread_mutex_lock'' = Some lock"
      "dlsym ''pthread_mutex_unlock'' = Some unlock" "trylock_law lock trylock"
    and t: "i_phase x t = Idle" "user_address m" "g_cp (i_shared x)" "\<not> tls_inside_lock (i_thread x t)"
    and busy: "trylock t m (mutexes x) = (EBUSY, mutexes x)" "lock t m (mutexes x) = Some (0, y)" "unlock t m y = Some (0, z)"
    and site: "tls_ok (i_thread x t)" "length (live_in (i_shared x) (i_thread x t)) < 3"
      "range_answer ex us rand (i_shared x) = r" "r \<noteq> 0" "t2 \<noteq> 0"
  shows "\<exists>x'. calls dlsym trylock x [sample_of bt (waited r t0 t1) t2 t3] x'"
proof -
  let ?s = "i_shared x" and ?th = "i_thread x t" and ?step = "in_session_step dlsym trylock"
  obtain s1 th1 plan where e: "lock_enter EBUSY ex us rand t0 m ?s ?th = (s1, th1, plan)" by (metis prod_cases3)
  obtain s2 th2 res where f: "lock_finish True 0 t1 m plan s1 th1 = (s2, th2, res)" by (metis prod_cases3)
  have plan: "plan \<noteq> Returned q" for q using lock_enter_plan [OF e] by auto
  then have res: "res = 0" using lock_finish_result [OF f] by (cases plan) auto
  have impl: "pthread_mutex_lock_impl EBUSY ex us rand t0 0 t1 m ?s ?th = (s2, th2, 0)"
    using e f res by (simp add: pthread_mutex_lock_impl_def)
  have g: "g_cp s1" "g_cp s2"
    using lock_enter_shared [OF e] contended_lock_live [OF site(1) t(3,4) impl] t(3) by simp_all
  obtain th3 where u: "unlock_begin t2 m s2 th2 = (s2, th3, Some (t2, waited r t0 t1))"
    using unlock_after_sampled_lock [OF site(1) t(3,4) site(2-4) impl g(2)] by blast
  have v: "is_contention_site_valid (waited r t0 t1)" using site(4) by (simp add: is_contention_site_valid_def waited_def)
  let ?x1 = "pthread_mutex_lock_begin dlsym trylock ex us rand t0 t m x"
  have tr: "tried_lock trylock t m x = (EBUSY, mutexes x)" using busy(1) t(3,4) by (simp add: tried_lock_def)
  have i1: "i_phase ?x1 t = In_lock m plan" "mutexes ?x1 = mutexes x" "i_shared ?x1 = s1" "i_thread ?x1 t = th1"
    "sent_samples ?x1 = sent_samples x"
    unfolding lock_begin_eq [OF tr e] by simp_all
  have ok1: "interposed_ok lock unlock dlsym m0 ?x1" using lock_begin_ok [OF ok lib(3) t(1,2)] .
  have lk: "real_pthread_mutex_lock_func (pointers ?x1) = Some lock"
    using pointers_found(1) [of dlsym ?x1 t] ok1 i1(1) lib(1) by (simp add: interposed_ok_def)
  obtain x2 where x2: "pthread_mutex_lock_end True t1 t m plan ?x1 = Some x2"
    and i2: "i_phase x2 t = Idle" "mutexes x2 = y" "i_shared x2 = s2" "i_thread x2 t = th2" "sent_samples x2 = sent_samples x"
    using plan f busy(2) i1 by (cases plan) (auto simp: pthread_mutex_lock_end_def lk call_through_def answer_def)
  have ok2: "interposed_ok lock unlock dlsym m0 x2" using lock_end_ok [OF ok1 lib(1) i1(1) x2] .
  let ?x3 = "pthread_mutex_unlock_begin dlsym t2 t m x2"
  have i3: "i_phase ?x3 t = In_unlock m (Some (t2, waited r t0 t1))" "mutexes ?x3 = y" "i_shared ?x3 = s2"
    "sent_samples ?x3 = sent_samples x"
    using u i2 by (simp_all add: pthread_mutex_unlock_begin_def)
  have ok3: "interposed_ok lock unlock dlsym m0 ?x3" using unlock_begin_ok [OF ok2 i2(1) t(2)] .
  have ul: "real_pthread_mutex_unlock_func (pointers ?x3) = Some unlock"
    using pointers_found(2) [of dlsym ?x3 t] ok3 i3(1) lib(2) by (simp add: interposed_ok_def)
  obtain x4 where x4: "pthread_mutex_unlock_call t m (Some (t2, waited r t0 t1)) ?x3 = Some x4"
    and i4: "i_phase x4 t = After_unlock m (Some (t2, waited r t0 t1)) 0" "i_shared x4 = s2" "sent_samples x4 = sent_samples x"
    using busy(3) i3 by (simp add: pthread_mutex_unlock_call_def ul call_through_def)
  obtain x5 where x5: "pthread_mutex_unlock_end bt t3 t m (Some (t2, waited r t0 t1)) 0 x4 = Some x5"
    and i5: "i_shared x5 = s2" "sent_samples x5 = sent_samples x @ [sample_of bt (waited r t0 t1) t2 t3]"
    using unlock_finish_sample [OF site(5) v, of bt t3] i4 by (simp add: pthread_mutex_unlock_end_def answer_def)
  have "?step x ?x1" using lock_called [where w = x, OF t(1,2)] g i1 by (simp add: in_session_step_def)
  moreover have "?step ?x1 x2" using lock_returned [OF i1(1) x2] g i2 by (simp add: in_session_step_def)
  moreover have "?step x2 ?x3" using unlock_called [OF i2(1) t(2)] g i3 by (simp add: in_session_step_def)
  moreover have "?step ?x3 x4" using unlocked [OF i3(1) x4] g i4 by (simp add: in_session_step_def)
  moreover have "?step x4 x5" using unlock_returned [OF i4(1) x5] g i5 by (simp add: in_session_step_def)
  ultimately have "?step\<^sup>*\<^sup>* x x5" by (meson rtranclp.rtrancl_into_rtrancl rtranclp.rtrancl_refl)
  then show ?thesis using i5(2) by (auto simp: calls_def)
qed

section \<open>Properties\<close>


text \<open>
  A thread waits once, for 250 ns, and holds the mutex for 50 ns; the library of the example makes
  every caller try again.
\<close>

definition busy_lock :: "unit mutex_function" where
  "busy_lock t m x = Some (0, x)"

definition busy_dlsym :: "string \<Rightarrow> unit mutex_function option" where
  "busy_dlsym name = Some busy_lock"

definition busy_trylock :: "nat \<Rightarrow> u64 \<Rightarrow> unit \<Rightarrow> int \<times> unit" where
  "busy_trylock t m x = (EBUSY, x)"

definition waited_sample :: "SampledContention \<times> u64" where
  "waited_sample = sample_of (\<lambda>n. [11, 22, 33]) (waited 16384 100 350) 900 950"

lemma example_wait:
  "\<exists>x'. calls busy_dlsym busy_trylock ((interposed_init ())\<lparr>i_shared := profiler_on shared_init\<rparr>) [waited_sample] x'"
proof -
  let ?f = busy_lock and ?x = "(interposed_init ())\<lparr>i_shared := profiler_on shared_init\<rparr>"
  have lib: "busy_dlsym ''pthread_mutex_lock'' = Some ?f" "busy_dlsym ''pthread_mutex_unlock'' = Some ?f"
    "trylock_law ?f busy_trylock" by (simp_all add: busy_dlsym_def trylock_law_def busy_trylock_def)
  have "interposed_run busy_dlsym busy_trylock () ?x"
    using continued [OF loaded profiler_started, of "()" busy_dlsym busy_trylock]
    by (simp add: interposed_init_def shared_init_def)
  from interposed_run_ok [OF this lib] have ok: "interposed_ok ?f ?f busy_dlsym () ?x" .
  have site: "tls_ok (i_thread ?x 0)" "length (live_in (i_shared ?x) (i_thread ?x 0)) < 3"
    "range_answer 1000 5 6 (i_shared ?x) = 16384"
    by (simp_all add: interposed_init_def tls_ok_def thread_init_def profiler_on_def live_in_def shared_init_def
        range_answer_def is_collectable_def is_collectable_before_first_time_grabbed_def CollectorSpeedLimit_init_def
        COLLECTOR_SAMPLING_BASE_def Let_def)
  have t: "i_phase ?x 0 = Idle" "user_address 4096" "g_cp (i_shared ?x)" "\<not> tls_inside_lock (i_thread ?x 0)"
    by (simp_all add: interposed_init_def user_address_def profiler_on_def thread_init_def)
  have busy: "busy_trylock 0 4096 (mutexes ?x) = (EBUSY, mutexes ?x)" "?f 0 4096 (mutexes ?x) = Some (0, ())" "?f 0 4096 () = Some (0, ())"
    by (simp_all add: busy_trylock_def busy_lock_def)
  have "(16384 :: u64) \<noteq> 0" "(900 :: u64) \<noteq> 0" by simp_all
  from contended_calls [OF ok lib t busy site this, of "\<lambda>n. [11, 22, 33]" 100 350 950]
  show ?thesis unfolding waited_sample_def .
qed


end
