(* ===== verification/Logger.thy ===== *)
theory Logger
  imports Prelude
begin

text \<open>
  \<^verbatim>\<open>src/common/log.cpp\<close> and \<^verbatim>\<open>src/common/log.h\<close>: log lines go to the file that \<^verbatim>\<open>init_logger\<close> opened
  or, without one, to standard output. The stream of the file fails when it is opened a second time
  while it is open; it then drops what is written to it. Whether the file can be opened and what the
  clock prints are arguments.
\<close>

section \<open>State and operations\<close>

record logger =
  log_file :: "string option"
  log_failed :: bool
  log_contents :: "string \<Rightarrow> string"
  log_stdout :: string

definition logger_init :: "(string \<Rightarrow> string) \<Rightarrow> logger" where
  "logger_init old = \<lparr>log_file = None, log_failed = False, log_contents = old, log_stdout = []\<rparr>"

definition DEBUG :: int where "DEBUG = 0"
definition INFO :: int where "INFO = 1"
definition WARN :: int where "WARN = 2"
definition ERROR :: int where "ERROR = 3"

definition get_log_level_str :: "int \<Rightarrow> string" where
  "get_log_level_str log_level =
     (if log_level = DEBUG then ''DEBUG''
      else if log_level = INFO then ''INFO''
      else if log_level = WARN then ''WARN''
      else if log_level = ERROR then ''ERROR''
      else ''INVALID_LOG_LEVEL'')"

definition init_logger :: "bool \<Rightarrow> string \<Rightarrow> logger \<Rightarrow> logger" where
  "init_logger can_open filename l =
     (if log_file l = None \<and> can_open then l\<lparr>log_file := Some filename, log_failed := False\<rparr>
      else l\<lparr>log_failed := True\<rparr>)"

text \<open>One output operation on \<open>get_stream()\<close>.\<close>

definition put_stream :: "string \<Rightarrow> logger \<Rightarrow> logger" where
  "put_stream text l = (case log_file l of
       Some f \<Rightarrow> if log_failed l then l
                 else l\<lparr>log_contents := (log_contents l)(f := log_contents l f @ text)\<rparr>
     | None \<Rightarrow> l\<lparr>log_stdout := log_stdout l @ text\<rparr>)"

definition log_start :: "string \<Rightarrow> int \<Rightarrow> int \<Rightarrow> string \<Rightarrow> logger \<Rightarrow> logger" where
  "log_start time_str log_level line func l =
     fold put_stream [time_str, '' ['', get_log_level_str log_level, ''] '', ''func['', func, ''] '',
       ''line['', show_int line, ''] ''] l"

definition Logger_destruct :: "logger \<Rightarrow> logger" where
  "Logger_destruct l = put_stream [CHR 0x0A] l"

text \<open>The statement \<^verbatim>\<open>LOG(log_level) << m1 << m2 ...;\<close>: the temporary is destroyed at its end.\<close>

definition LOG_statement :: "string \<Rightarrow> int \<Rightarrow> int \<Rightarrow> string \<Rightarrow> string list \<Rightarrow> logger \<Rightarrow> logger" where
  "LOG_statement time_str log_level line func ms l =
     Logger_destruct (fold put_stream ms (log_start time_str log_level line func l))"

section \<open>One line per statement\<close>

lemma put_streams: "fold put_stream ts l = put_stream (concat ts) l"
  by (induction ts arbitrary: l) (auto simp: put_stream_def split: option.splits)

definition log_line :: "string \<Rightarrow> int \<Rightarrow> int \<Rightarrow> string \<Rightarrow> string list \<Rightarrow> string" where
  "log_line time_str log_level line func ms =
     time_str @ '' ['' @ get_log_level_str log_level @ ''] func['' @ func @ ''] line['' @ show_int line @ ''] '' @
     concat ms @ [CHR 0x0A]"

lemma log_statement_line: "LOG_statement time_str level line func ms l = put_stream (log_line time_str level line func ms) l"
proof -
  have "put_stream a (put_stream b l) = put_stream (b @ a) l" for a b
    using put_streams [of "[b, a]" l] by simp
  then show ?thesis
    by (simp add: LOG_statement_def Logger_destruct_def log_start_def put_streams log_line_def del: fold_simps)
qed

lemma show_int_no_newline: "CHR 0x0A \<notin> set (show_int i)"
proof -
  have d: "digit_char k \<noteq> CHR 0x0A" if "k < 10" for k
  proof -
    have "k \<in> {0, 1, 2, 3, 4, 5, 6, 7, 8, 9}" using that by auto
    then show ?thesis by (auto simp: digit_char_def char_of_def)
  qed
  have "CHR 0x0A \<notin> set (show_nat n)" for n
  proof
    assume "CHR 0x0A \<in> set (show_nat n)"
    then have "CHR 0x0A \<in> digit_char ` {..<10}" using set_digits [of 10 digit_char n] by (auto simp: show_nat_def)
    then show False using d by force
  qed
  then show ?thesis by (simp add: show_int_def)
qed

text \<open>
  A statement whose texts hold no newline adds exactly one line to exactly one stream: the file if
  it was opened once, standard output before that, and nothing after a second opening.
\<close>

lemma log_one_line:
  assumes "CHR 0x0A \<notin> set time_str" and "CHR 0x0A \<notin> set func" and "\<forall>m \<in> set ms. CHR 0x0A \<notin> set m"
  shows "\<exists>body. log_line time_str level line func ms = body @ [CHR 0x0A] \<and> CHR 0x0A \<notin> set body"
  using assms show_int_no_newline
  by (auto simp: log_line_def get_log_level_str_def intro!: exI [of _ "butlast (log_line time_str level line func ms)"])

lemma log_goes_to:
  "log_stdout (LOG_statement ts level line func ms (logger_init old)) = log_line ts level line func ms"
  "log_contents (LOG_statement ts level line func ms (init_logger True f (logger_init old))) f =
     old f @ log_line ts level line func ms"
  "log_file l = Some f \<Longrightarrow> LOG_statement ts level line func ms (init_logger c g l) = init_logger c g l"
  by (simp_all add: log_statement_line put_stream_def logger_init_def init_logger_def)

end
