(* ===== verification/Session_Lock.thy ===== *)
theory Session_Lock
  imports Prelude
begin

text \<open>
  \<open>g_cp\<close> and \<open>g_cp_mutex\<close> down to single accesses: any number of threads start and stop the profiler
  (\<^verbatim>\<open>contention_profiler_start\<close>, \<^verbatim>\<open>contention_profiler_stop\<close> in \<^verbatim>\<open>src/profiler.cpp\<close>) while others dump
  samples (\<^verbatim>\<open>SampledContention::dump_and_destroy\<close> in \<^verbatim>\<open>src/collector.h\<close>). All test \<open>g_cp\<close> before they take
  the mutex and again after it, and a session is flushed and deleted outside the mutex. Sessions and
  samples are numbers here; what a session does with a sample is in \<open>Profiler\<close>.
\<close>

section \<open>State\<close>

text \<open>
  Where a thread is: before \<open>pthread_mutex_lock\<close>, after it, or past the unlock; \<open>Nat.nat\<close> arguments are
  the session a thread has for itself and the sample it dumps.
\<close>

datatype client =
  Resting
  | Starting_lock nat | Starting_test nat | Starting_lost nat
  | Stopping_lock | Stopping_test | Stopping_flush nat | Stopping_delete nat
  | Dumping_lock nat | Dumping_test nat | Dumping_use nat nat | Dumping_return nat

datatype session_event =
  Published nat
  | Gave nat nat
  | Flushed nat
  | Deleted nat

text \<open>\<open>created\<close> sessions have been constructed; \<open>events\<close> is what happened to them, in order.\<close>

record session_lock =
  cp :: "nat option"
  cp_mutex :: "nat option"
  created :: nat
  client_at :: "nat \<Rightarrow> client"
  events :: "session_event list"
  turned_away :: "nat list"

definition session_lock_init :: session_lock where
  "session_lock_init = \<lparr>cp = None, cp_mutex = None, created = 0, client_at = (\<lambda>_. Resting), events = [], turned_away = []\<rparr>"

section \<open>Steps\<close>

definition goes :: "nat \<Rightarrow> client \<Rightarrow> session_lock \<Rightarrow> session_lock" where
  "goes t c s = s\<lparr>client_at := (client_at s)(t := c)\<rparr>"

text \<open>The call: the first test of \<open>g_cp\<close>, without the mutex.\<close>

definition start_call :: "nat \<Rightarrow> session_lock \<Rightarrow> session_lock" where
  "start_call t s = (if cp s \<noteq> None then s else goes t (Starting_lock (created s)) (s\<lparr>created := created s + 1\<rparr>))"

definition stop_call :: "nat \<Rightarrow> session_lock \<Rightarrow> session_lock" where
  "stop_call t s = (if cp s \<noteq> None then goes t Stopping_lock s else s)"

definition dump_call :: "nat \<Rightarrow> nat \<Rightarrow> session_lock \<Rightarrow> session_lock" where
  "dump_call t p s = (if cp s \<noteq> None then goes t (Dumping_lock p) s else goes t (Dumping_return p) s)"

text \<open>The rest of the calls, step by step.\<close>

definition acquire :: "nat \<Rightarrow> client \<Rightarrow> session_lock \<Rightarrow> session_lock option" where
  "acquire t c s = (if cp_mutex s = None then Some (goes t c (s\<lparr>cp_mutex := Some t\<rparr>)) else None)"

definition release :: "nat \<Rightarrow> client \<Rightarrow> session_lock \<Rightarrow> session_lock option" where
  "release t c s = Some (goes t c (s\<lparr>cp_mutex := None\<rparr>))"

definition happens :: "session_event \<Rightarrow> session_lock \<Rightarrow> session_lock" where
  "happens e s = s\<lparr>events := events s @ [e]\<rparr>"

definition client_step :: "nat \<Rightarrow> session_lock \<Rightarrow> session_lock option" where
  "client_step t s = (case client_at s t of
       Resting \<Rightarrow> None
     | Starting_lock i \<Rightarrow> acquire t (Starting_test i) s
     | Starting_test i \<Rightarrow> if cp s \<noteq> None then release t (Starting_lost i) s
                         else release t Resting (happens (Published i) (s\<lparr>cp := Some i\<rparr>))
     | Starting_lost i \<Rightarrow> Some (goes t Resting (happens (Deleted i) s))
     | Stopping_lock \<Rightarrow> acquire t Stopping_test s
     | Stopping_test \<Rightarrow> (case cp s of
           Some i \<Rightarrow> release t (Stopping_flush i) (s\<lparr>cp := None\<rparr>)
         | None \<Rightarrow> release t Resting s)
     | Stopping_flush i \<Rightarrow> Some (goes t (Stopping_delete i) (happens (Flushed i) s))
     | Stopping_delete i \<Rightarrow> Some (goes t Resting (happens (Deleted i) s))
     | Dumping_lock p \<Rightarrow> acquire t (Dumping_test p) s
     | Dumping_test p \<Rightarrow> (case cp s of
           Some i \<Rightarrow> Some (goes t (Dumping_use p i) s)
         | None \<Rightarrow> release t (Dumping_return p) s)
     | Dumping_use p i \<Rightarrow> release t Resting (happens (Gave p i) s)
     | Dumping_return p \<Rightarrow> Some (goes t Resting (s\<lparr>turned_away := turned_away s @ [p]\<rparr>)))"

inductive sessions :: "session_lock \<Rightarrow> bool" where
  none: "sessions session_lock_init"
| start: "sessions s \<Longrightarrow> client_at s t = Resting \<Longrightarrow> sessions (start_call t s)"
| stop: "sessions s \<Longrightarrow> client_at s t = Resting \<Longrightarrow> sessions (stop_call t s)"
| dump: "sessions s \<Longrightarrow> client_at s t = Resting \<Longrightarrow> sessions (dump_call t p s)"
| goes_on: "sessions s \<Longrightarrow> client_step t s = Some s' \<Longrightarrow> sessions s'"

section \<open>Invariants\<close>

text \<open>
  The life of a session. \<open>stage\<close> says for every number who has that session: nobody yet, the thread
  that constructed it, \<open>g_cp\<close>, the thread that stopped it, before and after the flush, or nobody any more.
\<close>

datatype stage = Unborn | New nat | Live | Flushing nat | Deleting nat | Gone

fun starts :: "client \<Rightarrow> nat option" where
  "starts (Starting_lock i) = Some i"
| "starts (Starting_test i) = Some i"
| "starts (Starting_lost i) = Some i"
| "starts _ = None"

text \<open>Whether the thread is inside the mutex.\<close>

fun inside_mutex :: "client \<Rightarrow> bool" where
  "inside_mutex (Starting_test i) = True"
| "inside_mutex Stopping_test = True"
| "inside_mutex (Dumping_test p) = True"
| "inside_mutex (Dumping_use p i) = True"
| "inside_mutex _ = False"

fun session_of :: "session_event \<Rightarrow> nat" where
  "session_of (Published i) = i"
| "session_of (Gave p i) = i"
| "session_of (Flushed i) = i"
| "session_of (Deleted i) = i"

text \<open>
  The order of what happens to a session: nothing after it is deleted, nothing but its deletion after
  it is flushed, and it is published once, before anything else.
\<close>

fun may_follow :: "session_event \<Rightarrow> session_event \<Rightarrow> bool" where
  "may_follow (Deleted i) f = (session_of f \<noteq> i)"
| "may_follow (Flushed i) f = (session_of f = i \<longrightarrow> f = Deleted i)"
| "may_follow e f = (f \<noteq> Published (session_of e))"

definition lock_ok :: "session_lock \<Rightarrow> bool" where
  "lock_ok s \<longleftrightarrow> (\<forall>t. inside_mutex (client_at s t) \<longleftrightarrow> cp_mutex s = Some t) \<and>
     (\<forall>t p i. client_at s t = Dumping_use p i \<longrightarrow> cp s = Some i)"

definition events_ok :: "nat \<Rightarrow> stage \<Rightarrow> session_event list \<Rightarrow> bool" where
  "events_ok i g es \<longleftrightarrow> (case g of
       Unborn \<Rightarrow> i \<notin> session_of ` set es
     | New t \<Rightarrow> i \<notin> session_of ` set es
     | Live \<Rightarrow> Flushed i \<notin> set es \<and> Deleted i \<notin> set es
     | Flushing t \<Rightarrow> Flushed i \<notin> set es \<and> Deleted i \<notin> set es
     | Deleting t \<Rightarrow> Deleted i \<notin> set es
     | Gone \<Rightarrow> True)"

definition stages :: "(nat \<Rightarrow> stage) \<Rightarrow> session_lock \<Rightarrow> bool" where
  "stages g s \<longleftrightarrow>
     (\<forall>i. cp s = Some i \<longleftrightarrow> g i = Live) \<and>
     (\<forall>t i. starts (client_at s t) = Some i \<longleftrightarrow> g i = New t) \<and>
     (\<forall>t i. client_at s t = Stopping_flush i \<longleftrightarrow> g i = Flushing t) \<and>
     (\<forall>t i. client_at s t = Stopping_delete i \<longleftrightarrow> g i = Deleting t) \<and>
     (\<forall>i. created s \<le> i \<longleftrightarrow> g i = Unborn) \<and>
     (\<forall>i. events_ok i (g i) (events s)) \<and> sorted_wrt may_follow (events s)"

lemmas step_defs = client_step_def acquire_def release_def goes_def happens_def

lemma lock_ok_init: "lock_ok session_lock_init"
  by (simp add: lock_ok_def session_lock_init_def)

lemma lock_ok_call:
  assumes "lock_ok s" and "client_at s t = Resting"
  shows "lock_ok (start_call t s)" "lock_ok (stop_call t s)" "lock_ok (dump_call t p s)"
proof -
  have "cp_mutex s \<noteq> Some t" using assms by (metis inside_mutex.simps(5) lock_ok_def)
  then show "lock_ok (start_call t s)" "lock_ok (stop_call t s)" "lock_ok (dump_call t p s)"
    using assms by (auto simp: lock_ok_def start_call_def stop_call_def dump_call_def goes_def)
qed

lemma lock_ok_step:
  assumes "lock_ok s" and "client_step t s = Some s'"
  shows "lock_ok s'"
proof -
  have a: "\<And>t. inside_mutex (client_at s t) \<longleftrightarrow> cp_mutex s = Some t"
    "\<And>t p i. client_at s t = Dumping_use p i \<Longrightarrow> cp s = Some i"
    using assms(1) by (simp_all add: lock_ok_def)
  have use: "client_at s u \<noteq> Dumping_use p i" if "cp_mutex s \<noteq> Some u" for u p i
    using a(1) [of u] that by auto
  show ?thesis
    using assms(2) a(1) [of t] use
    by (cases "client_at s t")
      (auto simp: lock_ok_def step_defs a(1) split: if_splits option.splits dest: a(2))
qed

lemma sessions_lock_ok: "sessions s \<Longrightarrow> lock_ok s"
  by (induction rule: sessions.induct) (use lock_ok_init lock_ok_call lock_ok_step in auto)

lemma stages_init: "stages (\<lambda>_. Unborn) session_lock_init"
  by (simp add: stages_def session_lock_init_def events_ok_def)

lemma stages_call:
  assumes "stages g s" and "client_at s t = Resting"
  shows "\<exists>g. stages g (start_call t s)" "\<exists>g. stages g (stop_call t s)" "\<exists>g. stages g (dump_call t p s)"
proof -
  have a: "starts (client_at s t) = None" "client_at s t \<noteq> Stopping_flush i" "client_at s t \<noteq> Stopping_delete i" for i
    using assms(2) by simp_all
  then have n: "g i \<noteq> New t" "g i \<noteq> Flushing t" "g i \<noteq> Deleting t" for i
    using assms(1) unfolding stages_def by (metis option.distinct(1))+
  show "\<exists>g. stages g (stop_call t s)" "\<exists>g. stages g (dump_call t p s)"
    using assms(1) n by (auto simp: stages_def stop_call_def dump_call_def goes_def intro!: exI [of _ g])
  show "\<exists>g. stages g (start_call t s)"
  proof (cases "cp s = None")
    case True
    have u: "g (created s) = Unborn" using assms(1) by (auto simp: stages_def)
    have suc: "Suc (created s) \<le> i \<longleftrightarrow> created s \<le> i \<and> i \<noteq> created s" for i by auto
    have "stages (g(created s := New t)) (start_call t s)"
      using assms(1) True n u suc
      by (auto simp: stages_def start_call_def goes_def events_ok_def split: stage.splits)
    then show ?thesis by blast
  qed (use assms(1) in \<open>auto simp: start_call_def\<close>)
qed

text \<open>An event is recorded in a stage that allows it.\<close>

lemma may_follow_all:
  assumes "events_ok i g es" and "f \<in> set es"
  shows "g = New t \<Longrightarrow> may_follow f (Published i)" and "g = New t \<Longrightarrow> may_follow f (Deleted i)"
    and "g = Live \<Longrightarrow> may_follow f (Gave p i)" and "g = Flushing t \<Longrightarrow> may_follow f (Flushed i)"
    and "g = Deleting t \<Longrightarrow> may_follow f (Deleted i)"
proof -
  have "g = New t \<Longrightarrow> session_of f \<noteq> i" using assms by (auto simp: events_ok_def)
  then show "g = New t \<Longrightarrow> may_follow f (Published i)" "g = New t \<Longrightarrow> may_follow f (Deleted i)"
    by (cases f; auto)+
  have f: "f \<noteq> Flushed i" "f \<noteq> Deleted i" if "g = Live \<or> g = Flushing t"
    using assms that by (auto simp: events_ok_def)
  have "f \<noteq> Deleted i" if "g = Deleting t" using assms that by (auto simp: events_ok_def)
  then show "g = Live \<Longrightarrow> may_follow f (Gave p i)" "g = Flushing t \<Longrightarrow> may_follow f (Flushed i)"
    "g = Deleting t \<Longrightarrow> may_follow f (Deleted i)"
    using f by (cases f; auto)+
qed

lemma events_ok_other: "session_of e \<noteq> i \<Longrightarrow> events_ok i g (es @ [e]) = events_ok i g es"
  by (cases e) (auto simp: events_ok_def split: stage.split)

text \<open>A thread that moves on with the sessions it has.\<close>

lemma stages_same:
  assumes "stages g s" and "cp s' = cp s" "created s' = created s" "events s' = events s"
    and "client_at s' = (client_at s)(t := c)" and "starts c = starts (client_at s t)"
    and "\<And>i. c = Stopping_flush i \<longleftrightarrow> client_at s t = Stopping_flush i"
    and "\<And>i. c = Stopping_delete i \<longleftrightarrow> client_at s t = Stopping_delete i"
  shows "stages g s'"
  using assms by (simp add: stages_def)

text \<open>A session that passes to its next stage, with what happens to it.\<close>

lemma stages_change:
  assumes s: "stages g s" and s': "client_at s' = (client_at s)(t := c)" "created s' = created s" "events s' = events s @ es"
    and es: "es = [] \<or> (\<exists>e. es = [e] \<and> session_of e = i \<and> (\<forall>f \<in> set (events s). may_follow f e))"
    and ok: "events_ok i G (events s @ es)" and born: "g i \<noteq> Unborn" "G \<noteq> Unborn"
    and cp: "\<And>j. cp s' = Some j \<longleftrightarrow> (g(i := G)) j = Live"
    and c: "\<And>j. starts c = Some j \<longleftrightarrow> (g(i := G)) j = New t" "\<And>j. c = Stopping_flush j \<longleftrightarrow> (g(i := G)) j = Flushing t"
      "\<And>j. c = Stopping_delete j \<longleftrightarrow> (g(i := G)) j = Deleting t"
    and others: "\<And>u. u \<noteq> t \<Longrightarrow> g i \<notin> {New u, Flushing u, Deleting u} \<and> G \<notin> {New u, Flushing u, Deleting u}"
  shows "stages (g(i := G)) s'"
proof -
  let ?g = "g(i := G)"
  have a: "starts (client_at s u) = Some j \<longleftrightarrow> g j = New u" "client_at s u = Stopping_flush j \<longleftrightarrow> g j = Flushing u"
    "client_at s u = Stopping_delete j \<longleftrightarrow> g j = Deleting u" "created s \<le> j \<longleftrightarrow> g j = Unborn" "events_ok j (g j) (events s)"
    for u j using s by (simp_all add: stages_def)
  have "starts (client_at s' u) = Some j \<longleftrightarrow> ?g j = New u" for u j
    using c(1) [of j] a(1) [of u j] others [of u] by (cases "u = t") (auto simp: s')
  moreover have "client_at s' u = Stopping_flush j \<longleftrightarrow> ?g j = Flushing u" for u j
    using c(2) [of j] a(2) [of u j] others [of u] by (cases "u = t") (auto simp: s')
  moreover have "client_at s' u = Stopping_delete j \<longleftrightarrow> ?g j = Deleting u" for u j
    using c(3) [of j] a(3) [of u j] others [of u] by (cases "u = t") (auto simp: s')
  moreover have "created s' \<le> j \<longleftrightarrow> ?g j = Unborn" for j using a(4) [of j] born by (auto simp: s')
  moreover have "events_ok j (?g j) (events s')" for j
    using es ok a(5) [of j] by (cases "j = i") (auto simp: s' events_ok_other)
  moreover have "sorted_wrt may_follow (events s')"
    using es s by (auto simp: s' sorted_wrt_append stages_def)
  ultimately show ?thesis using cp by (simp add: stages_def)
qed

lemma stagesD:
  assumes "stages g s"
  shows "starts (client_at s t) = Some j \<longleftrightarrow> g j = New t" "client_at s t = Stopping_flush j \<longleftrightarrow> g j = Flushing t"
    "client_at s t = Stopping_delete j \<longleftrightarrow> g j = Deleting t" "cp s = Some j \<longleftrightarrow> g j = Live"
    "events_ok j (g j) (events s)"
  using assms by (simp_all add: stages_def)

lemma stage_published:
  assumes s: "stages g s" and at: "client_at s t = Starting_test i" and cp: "cp s = None"
  shows "stages (g(i := Live)) (goes t Resting (happens (Published i) (s\<lparr>cp := Some i\<rparr>)\<lparr>cp_mutex := None\<rparr>))"
proof -
  note n = stagesD [OF s]
  have i: "g i = New t" using n(1) [of t i] at by simp
  then have e: "i \<notin> session_of ` set (events s)" using n(5) [of i] by (simp add: events_ok_def)
  have "Flushed i \<notin> set (events s)" "Deleted i \<notin> set (events s)" using e by force+
  then have ok: "events_ok i Live (events s @ [Published i])" by (auto simp: events_ok_def)
  show ?thesis
  proof (rule stages_change [OF s, where t = t and c = Resting and es = "[Published i]", OF _ _ _ _ ok])
    show "[Published i] = [] \<or> (\<exists>e. [Published i] = [e] \<and> session_of e = i \<and> (\<forall>f \<in> set (events s). may_follow f e))"
      using may_follow_all(1) [OF n(5)] i by auto
    show "starts Resting = Some j \<longleftrightarrow> (g(i := Live)) j = New t" for j using n(1) [of t j] at by auto
  qed (use i cp n(2-4) [of t] at n(4) in \<open>auto simp: goes_def happens_def\<close>)
qed

lemma stage_deleted:
  assumes s: "stages g s" and at: "client_at s t \<in> {Starting_lost i, Stopping_delete i}"
  shows "stages (g(i := Gone)) (goes t Resting (happens (Deleted i) s))"
proof -
  note n = stagesD [OF s]
  have i: "g i = New t \<or> g i = Deleting t" using n(1,3) [of t i] at by auto
  have c: "starts (client_at s t) = Some j \<longrightarrow> j = i" "client_at s t = Stopping_delete j \<longrightarrow> j = i" "client_at s t \<noteq> Stopping_flush j" for j
    using at by auto
  show ?thesis
  proof (rule stages_change [OF s, where t = t and c = Resting and es = "[Deleted i]"])
    show "[Deleted i] = [] \<or> (\<exists>e. [Deleted i] = [e] \<and> session_of e = i \<and> (\<forall>f \<in> set (events s). may_follow f e))"
      using may_follow_all(2,5) [OF n(5)] i by auto
    show "starts Resting = Some j \<longleftrightarrow> (g(i := Gone)) j = New t" for j using n(1) [of t j] c(1) [of j] by auto
    show "Resting = Stopping_flush j \<longleftrightarrow> (g(i := Gone)) j = Flushing t" for j using n(2) [of t j] c(3) [of j] by auto
    show "Resting = Stopping_delete j \<longleftrightarrow> (g(i := Gone)) j = Deleting t" for j using n(3) [of t j] c(2) [of j] by auto
    show "cp (goes t Resting (happens (Deleted i) s)) = Some j \<longleftrightarrow> (g(i := Gone)) j = Live" for j
      using n(4) [of j] i by (auto simp: goes_def happens_def)
  qed (use i in \<open>auto simp: goes_def happens_def events_ok_def\<close>)
qed

lemma stage_taken:
  assumes s: "stages g s" and at: "client_at s t = Stopping_test" and cp: "cp s = Some i"
  shows "stages (g(i := Flushing t)) (goes t (Stopping_flush i) (s\<lparr>cp := None, cp_mutex := None\<rparr>))"
proof -
  note n = stagesD [OF s]
  have i: "g i = Live" using n(4) [of i] cp by simp
  have ok: "events_ok i (Flushing t) (events s @ [])" using n(5) [of i] i by (auto simp: events_ok_def)
  show ?thesis
  proof (rule stages_change [OF s, where t = t and c = "Stopping_flush i" and es = "[]", OF _ _ _ _ ok])
    show "Stopping_flush i = Stopping_flush j \<longleftrightarrow> (g(i := Flushing t)) j = Flushing t" for j
      using n(2) [of t j] at by auto
    show "cp (goes t (Stopping_flush i) (s\<lparr>cp := None, cp_mutex := None\<rparr>)) = Some j \<longleftrightarrow> (g(i := Flushing t)) j = Live" for j
      using n(4) [of j] cp by (auto simp: goes_def)
  qed (use i n(1-3) [of t] at in \<open>auto simp: goes_def\<close>)
qed

lemma stage_flushed:
  assumes s: "stages g s" and at: "client_at s t = Stopping_flush i"
  shows "stages (g(i := Deleting t)) (goes t (Stopping_delete i) (happens (Flushed i) s))"
proof -
  note n = stagesD [OF s]
  have i: "g i = Flushing t" using n(2) [of t i] at by simp
  have ok: "events_ok i (Deleting t) (events s @ [Flushed i])" using n(5) [of i] i by (auto simp: events_ok_def)
  show ?thesis
  proof (rule stages_change [OF s, where t = t and c = "Stopping_delete i" and es = "[Flushed i]", OF _ _ _ _ ok])
    show "[Flushed i] = [] \<or> (\<exists>e. [Flushed i] = [e] \<and> session_of e = i \<and> (\<forall>f \<in> set (events s). may_follow f e))"
      using may_follow_all(4) [OF n(5)] i by auto
    show "starts (Stopping_delete i) = Some j \<longleftrightarrow> (g(i := Deleting t)) j = New t" for j using n(1) [of t j] at by auto
    show "Stopping_delete i = Stopping_flush j \<longleftrightarrow> (g(i := Deleting t)) j = Flushing t" for j using n(2) [of t j] at by auto
    show "Stopping_delete i = Stopping_delete j \<longleftrightarrow> (g(i := Deleting t)) j = Deleting t" for j
      using n(3) [of t j] at by auto
    show "cp (goes t (Stopping_delete i) (happens (Flushed i) s)) = Some j \<longleftrightarrow> (g(i := Deleting t)) j = Live" for j
      using n(4) [of j] i by (auto simp: goes_def happens_def)
  qed (use i in \<open>auto simp: goes_def happens_def\<close>)
qed

lemma stage_used:
  assumes s: "stages g s" and l: "lock_ok s" and at: "client_at s t = Dumping_use p i"
  shows "stages (g(i := Live)) (goes t Resting (happens (Gave p i) s\<lparr>cp_mutex := None\<rparr>))"
proof -
  note n = stagesD [OF s]
  have i: "g i = Live" using l n(4) [of i] at by (auto simp: lock_ok_def)
  have ok: "events_ok i Live (events s @ [Gave p i])" using n(5) [of i] i by (auto simp: events_ok_def)
  show ?thesis
  proof (rule stages_change [OF s, where t = t and c = Resting and es = "[Gave p i]", OF _ _ _ _ ok])
    show "[Gave p i] = [] \<or> (\<exists>e. [Gave p i] = [e] \<and> session_of e = i \<and> (\<forall>f \<in> set (events s). may_follow f e))"
      using may_follow_all(3) [OF n(5)] i by auto
  qed (use i n(1-3) [of t] n(4) at in \<open>auto simp: goes_def happens_def\<close>)
qed

text \<open>The other steps leave every session in its stage.\<close>

lemma stages_rest:
  assumes s: "stages g s" and step: "client_step t s = Some s'"
    and at: "case client_at s t of Starting_test i \<Rightarrow> cp s \<noteq> None | Starting_lost i \<Rightarrow> False | Stopping_test \<Rightarrow> cp s = None
      | Stopping_flush i \<Rightarrow> False | Stopping_delete i \<Rightarrow> False | Dumping_use p i \<Rightarrow> False | _ \<Rightarrow> True"
  shows "stages g s'"
proof -
  note d = step [unfolded client_step_def acquire_def release_def goes_def]
  have "cp s' = cp s \<and> created s' = created s \<and> events s' = events s"
    using d at by (cases "client_at s t") (auto split: if_splits option.splits)
  moreover have "client_at s' = (client_at s)(t := client_at s' t)"
    using d at by (cases "client_at s t") (auto split: if_splits option.splits)
  moreover have "starts (client_at s' t) = starts (client_at s t) \<and> client_at s' t \<noteq> Stopping_flush i \<and>
      client_at s' t \<noteq> Stopping_delete i \<and> client_at s t \<noteq> Stopping_flush i \<and> client_at s t \<noteq> Stopping_delete i" for i
    using d at by (cases "client_at s t") (auto split: if_splits option.splits)
  ultimately show ?thesis using stages_same [OF s, of s' t "client_at s' t"] by simp
qed

lemma stages_step:
  assumes s: "stages g s" and l: "lock_ok s" and step: "client_step t s = Some s'"
  shows "\<exists>g'. stages g' s'"
proof (cases "client_at s t")
  case (Starting_test i)
  then show ?thesis using stage_published [OF s Starting_test] stages_rest [OF s step] step
    by (cases "cp s") (auto simp: client_step_def release_def)
next
  case (Starting_lost i)
  then show ?thesis using stage_deleted [OF s, of t i] step by (auto simp: client_step_def)
next
  case Stopping_test
  then show ?thesis using stage_taken [OF s Stopping_test] stages_rest [OF s step] step
    by (cases "cp s") (auto simp: client_step_def release_def)
next
  case (Stopping_flush i)
  then show ?thesis using stage_flushed [OF s Stopping_flush] step by (auto simp: client_step_def)
next
  case (Stopping_delete i)
  then show ?thesis using stage_deleted [OF s, of t i] step by (auto simp: client_step_def)
next
  case (Dumping_use p i)
  then show ?thesis using stage_used [OF s l Dumping_use] step by (auto simp: client_step_def release_def simp del: fun_upd_apply)
qed (use stages_rest [OF s step] in auto)

lemma sessions_stages: "sessions s \<Longrightarrow> \<exists>g. stages g s"
proof (induction rule: sessions.induct)
  case (goes_on s t s')
  then show ?case using stages_step sessions_lock_ok by blast
qed (use stages_init stages_call in blast)+

section \<open>Properties\<close>

text \<open>
  C11. Sessions are exclusive. However threads start and stop the profiler and dump samples, a session
  is published at most once, before it is given a sample; it is given no sample after it is flushed,
  is flushed and deleted at most once, and nothing happens to it after it is deleted. A thread that
  dumps into a session does so while that session is published, at most one thread is inside the
  mutex, and unless all threads are at rest one of them can go on.
\<close>

theorem sessions_exclusive:
  assumes "sessions s"
  shows "sorted_wrt may_follow (events s) \<and>
    (\<forall>t p i. client_at s t = Dumping_use p i \<longrightarrow> cp s = Some i \<and> Flushed i \<notin> set (events s) \<and> Deleted i \<notin> set (events s)) \<and>
    (\<forall>t u. inside_mutex (client_at s t) \<and> inside_mutex (client_at s u) \<longrightarrow> t = u) \<and>
    ((\<exists>t. client_at s t \<noteq> Resting) \<longrightarrow> (\<exists>t s'. client_step t s = Some s'))"
proof -
  have l: "lock_ok s" using sessions_lock_ok [OF assms] .
  obtain g where g: "stages g s" using sessions_stages [OF assms] by blast
  have "cp s = Some i \<and> Flushed i \<notin> set (events s) \<and> Deleted i \<notin> set (events s)"
    if "client_at s t = Dumping_use p i" for t p i
  proof -
    have "cp s = Some i" using l that by (auto simp: lock_ok_def)
    moreover have "cp s = Some i \<longleftrightarrow> g i = Live" "events_ok i (g i) (events s)" using g unfolding stages_def by blast+
    ultimately show ?thesis by (simp add: events_ok_def)
  qed
  moreover have "t = u" if "inside_mutex (client_at s t)" "inside_mutex (client_at s u)" for t u
    using l that by (simp add: lock_ok_def)
  moreover have "\<exists>t s'. client_step t s = Some s'" if "client_at s t \<noteq> Resting" for t
  proof (cases "cp_mutex s")
    case None
    have "client_step t s \<noteq> None"
      using that None by (cases "client_at s t") (auto simp: client_step_def acquire_def release_def split: option.split)
    then show ?thesis by blast
  next
    case (Some u)
    then have "inside_mutex (client_at s u)" using l by (simp add: lock_ok_def)
    then have "client_step u s \<noteq> None"
      by (cases "client_at s u") (auto simp: client_step_def release_def split: option.split)
    then show ?thesis by blast
  qed
  ultimately show ?thesis using g unfolding stages_def by blast
qed

lemma sessions_steps: "sessions s \<Longrightarrow> foldM client_step ts s = Some s' \<Longrightarrow> sessions s'"
  by (induction ts arbitrary: s) (auto split: Option.bind_splits intro: goes_on)

text \<open>Thread 0 starts the profiler, thread 1 tests \<open>g_cp\<close>, thread 0 stops; then both go on.\<close>

theorem sessions_exclusive_witness:
  "\<exists>s. sessions s \<and> events s = [Published 0, Flushed 0, Deleted 0] \<and> turned_away s = [7] \<and>
    sorted_wrt may_follow (events s)"
proof -
  obtain s1 where s1: "foldM client_step [0, 0] (start_call 0 session_lock_init) = Some s1"
    "cp s1 = Some 0" "cp_mutex s1 = None" "client_at s1 = (\<lambda>_. Resting)" "events s1 = [Published 0]" "turned_away s1 = []"
    by (simp add: start_call_def session_lock_init_def step_defs fun_eq_iff)
  have "sessions s1" by (rule sessions_steps [OF start [OF none] s1(1)]) (simp add: session_lock_init_def)
  then have d: "sessions (dump_call 1 7 s1)" by (rule dump) (simp add: s1)
  have "client_at (dump_call 1 7 s1) 0 = Resting" by (simp add: dump_call_def goes_def s1)
  with d have r: "sessions (stop_call 0 (dump_call 1 7 s1))" by (rule stop)
  obtain s2 where s2: "foldM client_step [0, 0, 1, 1, 0, 1, 0] (stop_call 0 (dump_call 1 7 s1)) = Some s2"
    "events s2 = [Published 0, Flushed 0, Deleted 0]" "turned_away s2 = [7]"
    by (simp add: dump_call_def stop_call_def step_defs s1)
  have "sessions s2" using sessions_steps [OF r s2(1)] .
  from sessions_exclusive [OF this] show ?thesis using s2(2,3) \<open>sessions s2\<close> by blast
qed

end
