(* ===== verification/Spec2Isabelle.thy ===== *)
theory Spec2Isabelle
  imports Linked_List Bounded_Queue Murmur_Hash Util_Time Fast_Rand Time_Series Profiler Collector
    Thread_Exit Object_Pool Agent_Group Reducer_Total Sample_Intake Shutdown
    Block_Table Sampler_Thread Sampler_Life Windowed Series_Sampler Profiling Settling Interposition Whole_Program Logger Session_Lock
begin

text \<open>
  Verification development for contention_prof, a profiler for lock contention that is loaded into a
  C or C++ program and reports where its threads wait for mutexes.

  \<^bold>\<open>The program.\<close> The library defines \<^verbatim>\<open>pthread_mutex_lock\<close> and \<^verbatim>\<open>pthread_mutex_unlock\<close>
  (\<^verbatim>\<open>src/hook_mutex.cpp\<close>). While a session runs, the lock hook tries the mutex first; when it is
  taken, a sampling decision is drawn (\<^verbatim>\<open>is_collectable\<close> in \<^verbatim>\<open>src/collector.cpp\<close>, with the generator of
  \<^verbatim>\<open>src/common/fast_rand.cpp\<close>), and the time until the real lock returns is kept in one of three
  records of the thread or in a map from mutexes to sites (\<^verbatim>\<open>src/contention.cpp\<close>). The unlock hook
  finds the record, takes an object of the pool (\<^verbatim>\<open>src/common/object_pool_inl.h\<close>), fills it with the
  scaled wait, the weight and the stack, and submits it to the collector. The collector is a reducer
  (\<^verbatim>\<open>src/common/reducer.h\<close>, \<^verbatim>\<open>src/common/combiner.h\<close>): every thread has an agent
  (\<^verbatim>\<open>src/common/agent_group.h\<close>) whose element is a linked list of samples
  (\<^verbatim>\<open>src/common/linked_list.h\<close>); agents are committed when threads exit
  (\<^verbatim>\<open>src/common/thread_local.cpp\<close>). The grab thread empties the reducer, drops what is over the pending
  limit, hands the rest to the dump thread and adapts the sampling range; the dump thread gives the
  samples to the session (\<^verbatim>\<open>src/profiler.cpp\<close>), which caches them and writes the file. Reducers can
  also be sampled once a second (\<^verbatim>\<open>src/common/sampler.h\<close>, \<^verbatim>\<open>sampler.cpp\<close>, with the queue of
  \<^verbatim>\<open>bounded_queue.h\<close>) and keep a trend (\<^verbatim>\<open>series.h\<close>).

  \<^bold>\<open>Theories and sources.\<close> A theory has the state of a component as a record with the fields of the
  code, one definition per function, named as in the code, then lemmas, then the properties.
  \<^item> \<^verbatim>\<open>Prelude\<close>: machine types, checked signed arithmetic, lists, numbers as text, reversible mixing of
    words (locale \<open>reversible\<close>).
  \<^item> \<^verbatim>\<open>Linked_List\<close>: \<^verbatim>\<open>common/linked_list.h\<close>; nodes are addresses, links are maps; locale
    \<open>circular_lists\<close>, interpreted as \<open>ll\<close>.
  \<^item> \<^verbatim>\<open>Bounded_Queue\<close>: \<^verbatim>\<open>common/bounded_queue.h\<close>; locale \<open>sample_buffer\<close>, interpreted as \<open>bq\<close>.
  \<^item> \<^verbatim>\<open>Murmur_Hash\<close>: \<^verbatim>\<open>common/murmurhash3.cpp\<close>, \<^verbatim>\<open>Util::fmix64\<close>, the hash of a sample.
  \<^item> \<^verbatim>\<open>Util_Time\<close>: clocks, deadlines and \<^verbatim>\<open>get_self_maps\<close> (\<^verbatim>\<open>common/common.cpp\<close>, \<^verbatim>\<open>common/time.h\<close>).
  \<^item> \<^verbatim>\<open>Fast_Rand\<close>: \<^verbatim>\<open>common/fast_rand.cpp\<close>. \<^verbatim>\<open>Binary64\<close>: the rounding of the weights.
  \<^item> \<^verbatim>\<open>Time_Series\<close>: \<^verbatim>\<open>common/series.h\<close>. \<^verbatim>\<open>Logger\<close>: \<^verbatim>\<open>common/log.cpp\<close>, \<^verbatim>\<open>common/log.h\<close>.
  \<^item> \<^verbatim>\<open>Speed_Limit\<close>: \<^verbatim>\<open>is_collectable\<close>, \<^verbatim>\<open>update_speed_limit\<close> (\<^verbatim>\<open>collector.h\<close>, \<^verbatim>\<open>collector.cpp\<close>).
  \<^item> \<^verbatim>\<open>Contention\<close>: the hooks of \<^verbatim>\<open>contention.cpp\<close>, cut where they call the real functions.
  \<^item> \<^verbatim>\<open>Interposition\<close>: \<^verbatim>\<open>hook_mutex.cpp\<close> and the lookup of the real functions; whole programs.
  \<^item> \<^verbatim>\<open>Profiler\<close>: \<^verbatim>\<open>profiler.cpp\<close>, \<^verbatim>\<open>SampledContention::dump_and_destroy\<close>; \<^verbatim>\<open>Session_Lock\<close>: the accesses of
    \<open>g_cp\<close> and its mutex by threads that start, stop and dump.
  \<^item> \<^verbatim>\<open>Collector\<close>: the operations of grab and dump thread and their rounds; \<^verbatim>\<open>Grab_Dump\<close>: the same as
    interleaved steps, one sample each, and the bounded queue that they refine; \<^verbatim>\<open>Settling\<close>: their progress; \<^verbatim>\<open>Shutdown\<close>: their
    control flow down to single accesses of \<^verbatim>\<open>stop_\<close>, mutex and condition variable, with the destructor.
  \<^item> \<^verbatim>\<open>Thread_Exit\<close>: \<^verbatim>\<open>common/thread_local.cpp\<close>, \<^verbatim>\<open>thread_local_inl.h\<close>.
  \<^item> \<^verbatim>\<open>Object_Pool\<close>: \<^verbatim>\<open>common/object_pool_inl.h\<close>; locale \<open>object_allocator\<close>, interpreted for the pool
    and, in \<^verbatim>\<open>Agent_Group\<close> (\<^verbatim>\<open>common/agent_group.h\<close>), for the identifiers of agents. \<^verbatim>\<open>Block_Table\<close>: its
    table of blocks down to single atomic accesses.
  \<^item> \<^verbatim>\<open>Reducer\<close>, \<^verbatim>\<open>Reducer_Total\<close>: \<^verbatim>\<open>common/combiner.h\<close>, \<^verbatim>\<open>reducer.h\<close>; locale \<open>combining\<close>, the contract
    between a combiner and its operation, interpreted for sums, for the samples of the collector
    (\<^verbatim>\<open>Sample_Intake\<close>) and for the list of scheduled samplers (\<^verbatim>\<open>Sampler_Thread\<close>).
  \<^item> \<^verbatim>\<open>Sampler\<close>, \<^verbatim>\<open>Sampler_Thread\<close>, \<^verbatim>\<open>Sampler_Life\<close>, \<^verbatim>\<open>Windowed\<close>: \<^verbatim>\<open>common/sampler.h\<close>, \<^verbatim>\<open>sampler.cpp\<close>;
    \<^verbatim>\<open>Series_Sampler\<close>: the trend of a reducer.
  \<^item> \<^verbatim>\<open>Sample_Intake\<close>, \<^verbatim>\<open>Profiling\<close>, \<^verbatim>\<open>Whole_Program\<close>: compositions. The first puts reducer, grab and dump
    thread together, the second adds the session and its file, the third the hooks of a program.

  \<^bold>\<open>What the lemmas show.\<close> Containers refine lists (\<open>push_pop_refine_list\<close>, \<open>elim_push_keeps_latest\<close>,
  \<open>circular_lists\<close>), the collector a bounded queue between two threads (\<open>collector_refines_queue\<close>) that
  is emptied in bounded time (\<open>samples_settle\<close>); the pool and the identifiers never hand out an object twice; reducers conserve
  what is submitted under any interleaving of submissions, resets, exits and destructions; samplers
  and series answer with the specified function of the whole history, and the sampling service visits
  each sampler once a round and never after its reducer is gone (\<open>samplers_live_and_die\<close>);
  \<open>add_block\<close> of the pool is atomic although it takes several atomic accesses (\<open>concurrent_add_block\<close>); the generator, the hash and
  the time functions are exact or bijective where the code needs it; the controller follows the load.
  The hooks are linearizable: a program sees its mutexes behave as without the profiler
  (\<open>hooks_linearizable\<close>). They report every sampled wait exactly (\<open>sampled_wait_reported\<close>), and from
  there every record is accounted for up to the file (\<open>whole_program_profile\<close>). The other properties
  state where the code does less than it means to: the bottom side of the queue, races and stale
  sites in the hooks, a deadlock of the destructor.

  \<^bold>\<open>Bounds.\<close> Words have the widths of the code; \<open>None\<close> stands for undefined behaviour or a loop that
  does not return. Loops are recursive over data, or \<open>partial_function (option)\<close> with a theorem that
  they return. Hypotheses such as a capacity of at most \<open>2 ^ 31\<close> items, times below \<open>2 ^ 63\<close>
  microseconds or mutexes below \<open>2 ^ 48\<close> are the ranges of the types or of user addresses.

  \<^bold>\<open>Not modelled.\<close> Operating system and C library are parameters: \<^verbatim>\<open>dlsym\<close>, the real mutex functions,
  clocks, \<^verbatim>\<open>backtrace\<close>, file opening, allocation addresses, \<^verbatim>\<open>pthread_once\<close> and keys. A \<open>reset()\<close> by the
  grab thread is one step in the compositions, with the submissions that run into it inside it, and
  so is dumping a sample and counting it; memory is sequentially consistent. \<^verbatim>\<open>merge_global\<close>, \<^verbatim>\<open>GlobalValue\<close> and \<^verbatim>\<open>commit_and_clear\<close>
  of \<^verbatim>\<open>combiner.h\<close> do not compile when instantiated. In \<^verbatim>\<open>Whole_Program\<close> the
  program runs through one session at a time, from any state that earlier ones left.
\<close>

section \<open>Properties of the components together\<close>



text \<open>
  C12. A window shows what was submitted in it. A reducer that adds is created, then its sampler,
  whose window is set to \<open>W\<close> seconds; in each period threads submit values and the sampling thread
  takes a sample (by resetting the reducer). After more than \<open>w\<close> periods, the value over the last
  \<open>w \<le> W\<close> seconds is the sum of all values that any thread submitted in the last \<open>w\<close> periods, and
  its time is the time between the samples that enclose them.
\<close>

theorem window_counts_submissions:
  fixes v :: "'v :: cancel_comm_monoid_add"
  assumes "0 < sz" and "0 < isz" and "isz * 7200 < 2 ^ 64" and "Reducer_new 0 c (group_init v ()) = Some g"
    and "0 < w" and "w \<le> W" and "W \<le> MAX_SECONDS_LIMIT" and "nat w < length ps"
    and "0 \<le> now0 \<and> long_range now0" and "\<forall>p \<in> set ps. 0 \<le> snd p \<and> long_range (snd p)"
  shows "\<exists>s0 g0 s g'. ReducerSampler_new isz True (read_reducer sz add_op None (\<lambda>_. []) c) now0 g = Some (s0, g0) \<and>
    foldM (run_period isz sz c) ps (fst (set_window_size W s0), g0) = Some (s, g') \<and>
    sampler_get_value (+) None w s = Some (Some
      \<lparr>data = (\<Sum>p\<leftarrow>lastn (nat w) ps. submitted_in p),
       time_us = snd (last ps) - snd (ps ! (length ps - Suc (nat w)))\<rparr>)"
  using assms by (rule windowed_reducer)

theorem window_counts_submissions_witness:
  "\<exists>g s0 g0 s g'. Reducer_new 0 7 (group_init 0 ()) = Some g \<and>
    ReducerSampler_new 16 True (read_reducer 2048 add_op None (\<lambda>_. []) 7) 1 g = Some (s0, g0) \<and>
    foldM (run_period 16 2048 7) [([(0, 5)], 2), ([(1, 1), (0, 2)], 3), ([(1, 4)], 4)] (fst (set_window_size 60 s0), g0) = Some (s, g') \<and>
    sampler_get_value (+) None 2 s = Some (Some \<lparr>data = 7 :: nat, time_us = 2\<rparr>)"
proof -
  let ?ps = "[([(0, 5)], 2), ([(1, 1), (0, 2)], 3), ([(1, 4 :: nat)], 4)] :: nat period list"
  obtain g :: "(nat, unit) group" where g: "Reducer_new 0 7 (group_init 0 ()) = Some g"
    by (simp add: Reducer_new_def AgentCombiner_new_def group_init_def create_new_agent_def agent_ids_init_def Let_def)
  have t: "0 \<le> (1 :: int) \<and> long_range 1" "\<forall>p \<in> set ?ps. 0 \<le> snd p \<and> long_range (snd p)"
    by (simp_all add: long_range_def)
  have "(\<Sum>p\<leftarrow>lastn (nat 2) ?ps. submitted_in p) = 7" by (simp add: lastn_def submitted_in_def)
  then show ?thesis
    using window_counts_submissions [where w = 2 and W = 60 and sz = 2048 and isz = 16, OF _ _ _ g _ _ _ _ t] g
    by (auto simp: MAX_SECONDS_LIMIT_def)
qed

end
